(* ===== verification/Prelude.thy ===== *)
theory Prelude
  imports Main "HOL-Library.Word" "HOL-Library.Monad_Syntax"
begin

text \<open>
  The vocabulary every component shares.

  A Go \<^verbatim>\<open>string\<close> and a Go \<^verbatim>\<open>[]byte\<close> are both sequences of bytes; a byte is a HOL
  \<^typ>\<open>char\<close> (8 bits), so both are lists of characters and a literal reads as in the
  source. \<^const>\<open>char_of\<close> takes its argument modulo 256, which is Go's conversion
  \<^verbatim>\<open>byte(n)\<close>.

  An index or slice expression out of range panics in Go. The operations
  \<open>go_index\<close>, \<open>go_slice\<close>, \<open>go_from\<close> and the fixed-width reads return \<^const>\<open>None\<close>
  for that panic; code that uses them is written in the option monad, so \<^const>\<open>None\<close>
  always means a crash of the process and never an ordinary error. Ordinary errors are
  values of \<open>goerr\<close> on the left of a sum.
\<close>

named_theorems wire_simps "sizes and shapes of encoded messages"
named_theorems bytes_simps "slices, lengths and fixed-width integers"
named_theorems net_simps "what the connection operations keep and change"

type_synonym bytes = "char list"

datatype goerr =
    EOF
  | ErrUnexpectedEOF
  | ErrDeadline
  | ErrReset
  | ErrProto string
  | ErrorS string
  | Stuck

text \<open>
  \<^const>\<open>Stuck\<close> is not an error value of the program: it stands for a read that never
  returns because the peer stays silent and no deadline is set.
\<close>

section \<open>Indexing and slicing\<close>

definition go_index :: "'a list \<Rightarrow> nat \<Rightarrow> 'a option" where
  "go_index xs i = (if i < length xs then Some (xs ! i) else None)"

definition go_slice :: "'a list \<Rightarrow> nat \<Rightarrow> nat \<Rightarrow> 'a list option" where
  "go_slice xs lo hi = (if lo \<le> hi \<and> hi \<le> length xs then Some (take (hi - lo) (drop lo xs)) else None)"

definition go_from :: "'a list \<Rightarrow> nat \<Rightarrow> 'a list option" where
  "go_from xs lo = (if lo \<le> length xs then Some (drop lo xs) else None)"

section \<open>Fixed-width integers on the wire\<close>

fun le_nat :: "bytes \<Rightarrow> nat" where
  "le_nat [] = 0"
| "le_nat (b # bs) = of_char b + 256 * le_nat bs"

fun le_bytes :: "nat \<Rightarrow> nat \<Rightarrow> bytes" where
  "le_bytes 0 n = []"
| "le_bytes (Suc k) n = char_of n # le_bytes k (n div 256)"

definition be_nat :: "bytes \<Rightarrow> nat" where
  "be_nat bs = le_nat (rev bs)"

definition be_bytes :: "nat \<Rightarrow> nat \<Rightarrow> bytes" where
  "be_bytes k n = rev (le_bytes k n)"

text \<open>\<^verbatim>\<open>binary.LittleEndian.Uint32(b)\<close> and its kin read the first bytes of a slice and
  panic when it is too short.\<close>

definition le_uint32 :: "bytes \<Rightarrow> nat option" where
  "le_uint32 bs = (if 4 \<le> length bs then Some (le_nat (take 4 bs)) else None)"

definition le_uint64 :: "bytes \<Rightarrow> nat option" where
  "le_uint64 bs = (if 8 \<le> length bs then Some (le_nat (take 8 bs)) else None)"

definition be_uint32 :: "bytes \<Rightarrow> nat option" where
  "be_uint32 bs = (if 4 \<le> length bs then Some (be_nat (take 4 bs)) else None)"

section \<open>Bit operations on bytes\<close>

unbundle bit_operations_syntax

definition byte_and :: "char \<Rightarrow> nat \<Rightarrow> char" where
  "byte_and c n = char_of (of_char c AND n :: nat)"

definition byte_or :: "char \<Rightarrow> nat \<Rightarrow> char" where
  "byte_or c n = char_of (of_char c OR n :: nat)"

section \<open>Helpers the protocol packages each carry a copy of\<close>

text \<open>\<^const>\<open>None\<close> is the source's \<open>-1\<close>.\<close>

fun indexByte :: "bytes \<Rightarrow> char \<Rightarrow> nat option" where
  "indexByte [] b = None"
| "indexByte (v # s) b = (if v = b then Some 0 else map_option Suc (indexByte s b))"

definition go_truncate :: "bytes \<Rightarrow> nat \<Rightarrow> bytes" where
  "go_truncate s n = (if length s \<le> n then s else take n s)"

text \<open>Line feed and carriage return, and the pair that ends a RESP line.\<close>

abbreviation LF :: char where "LF \<equiv> CHR 0x0A"
abbreviation CR :: char where "CR \<equiv> CHR 0x0D"
abbreviation NUL :: char where "NUL \<equiv> CHR 0x00"
abbreviation CRLF :: bytes where "CRLF \<equiv> [CR, LF]"

section \<open>Lemmas on slices and bytes\<close>

lemma of_char_nat_bound [simp]: "(of_char c :: nat) < 256"
  by (metis of_char_mod_256 mod_less_divisor zero_less_numeral)

lemma go_index_Some [bytes_simps]: "go_index xs i = Some x \<longleftrightarrow> i < length xs \<and> x = xs ! i"
  by (auto simp: go_index_def)

lemma go_slice_Some [bytes_simps]:
  "go_slice xs lo hi = Some ys \<longleftrightarrow> lo \<le> hi \<and> hi \<le> length xs \<and> ys = take (hi - lo) (drop lo xs)"
  by (auto simp: go_slice_def)

lemma go_from_Some [bytes_simps]: "go_from xs lo = Some ys \<longleftrightarrow> lo \<le> length xs \<and> ys = drop lo xs"
  by (auto simp: go_from_def)

lemma le_nat_bound: "le_nat bs < 256 ^ length bs"
proof (induction bs)
  case (Cons b bs)
  have "(of_char b :: nat) < 256" by simp
  moreover have "256 * le_nat bs + 256 \<le> 256 * 256 ^ length bs"
    using Cons by simp
  ultimately show ?case by (simp del: of_char_nat_bound)
qed simp

lemma length_le_bytes [simp]: "length (le_bytes k n) = k"
  by (induction k arbitrary: n) auto

lemma length_be_bytes [simp]: "length (be_bytes k n) = k"
  by (simp add: be_bytes_def)

lemma le_nat_le_bytes: "le_nat (le_bytes k n) = n mod 256 ^ k"
proof (induction k arbitrary: n)
  case (Suc k)
  have "n mod (256 * 256 ^ k) = n mod 256 + 256 * (n div 256 mod 256 ^ k)"
    by (simp add: mod_mult2_eq)
  with Suc show ?case by simp
qed simp

lemma le_nat_le_bytes_id [simp]: "n < 256 ^ k \<Longrightarrow> le_nat (le_bytes k n) = n"
  by (simp add: le_nat_le_bytes)

lemma le_bytes_le_nat [simp]: "le_bytes (length bs) (le_nat bs) = bs"
proof (induction bs)
  case (Cons b bs)
  have "char_of (of_char b + 256 * le_nat bs :: nat) = char_of (of_char b :: nat)"
    by (metis char_of_mod_256 mod_mult_self2)
  then have "char_of (of_char b + 256 * le_nat bs :: nat) = b"
    by simp
  moreover have "(of_char b + 256 * le_nat bs) div 256 = le_nat bs"
    by simp
  ultimately show ?case using Cons by simp
qed simp

lemma be_nat_be_bytes: "be_nat (be_bytes k n) = n mod 256 ^ k"
  by (simp add: be_nat_def be_bytes_def le_nat_le_bytes)

lemma be_nat_be_bytes_id [simp]: "n < 256 ^ k \<Longrightarrow> be_nat (be_bytes k n) = n"
  by (simp add: be_nat_be_bytes)

lemma be_bytes_be_nat [simp]: "be_bytes (length bs) (be_nat bs) = bs"
proof -
  have "le_bytes (length (rev bs)) (le_nat (rev bs)) = rev bs"
    by (rule le_bytes_le_nat)
  then show ?thesis by (simp add: be_bytes_def be_nat_def)
qed

lemma be_nat_bound: "be_nat bs < 256 ^ length bs"
  using le_nat_bound [of "rev bs"] by (simp add: be_nat_def)

lemma le_uint32_bound: "le_uint32 bs = Some n \<Longrightarrow> n < 2 ^ 32"
  using le_nat_bound [of "take 4 bs"] by (auto simp: le_uint32_def split: if_splits)

lemma be_uint32_bound: "be_uint32 bs = Some n \<Longrightarrow> n < 2 ^ 32"
  using be_nat_bound [of "take 4 bs"] by (auto simp: be_uint32_def split: if_splits)

lemma le_uint32_None [bytes_simps]: "le_uint32 bs = None \<longleftrightarrow> length bs < 4"
  by (auto simp: le_uint32_def)

lemma le_uint64_None [bytes_simps]: "le_uint64 bs = None \<longleftrightarrow> length bs < 8"
  by (auto simp: le_uint64_def)

lemma be_uint32_None [bytes_simps]: "be_uint32 bs = None \<longleftrightarrow> length bs < 4"
  by (auto simp: be_uint32_def)

lemma le_uint32_le_bytes [simp]: "n < 2 ^ 32 \<Longrightarrow> le_uint32 (le_bytes 4 n @ r) = Some n"
  by (simp add: le_uint32_def)

lemma be_uint32_be_bytes [simp]: "n < 2 ^ 32 \<Longrightarrow> be_uint32 (be_bytes 4 n @ r) = Some n"
  by (simp add: be_uint32_def)

lemma indexByte_Some:
  "indexByte s b = Some i \<longleftrightarrow> i < length s \<and> s ! i = b \<and> b \<notin> set (take i s)"
proof (induction s arbitrary: i)
  case (Cons v s)
  then show ?case by (cases i) auto
qed simp

lemma indexByte_None: "indexByte s b = None \<longleftrightarrow> b \<notin> set s"
  by (induction s) auto

lemma indexByte_append [simp]: "b \<notin> set s \<Longrightarrow> indexByte (s @ b # r) b = Some (length s)"
  by (auto simp: indexByte_Some)

lemma indexByte_less: "indexByte s b = Some i \<Longrightarrow> i < length s"
  by (simp add: indexByte_Some)

lemma go_truncate_eq_take: "go_truncate s n = take n s"
  by (simp add: go_truncate_def)

lemma length_go_truncate [simp]: "length (go_truncate s n) = min (length s) n"
  by (simp add: go_truncate_eq_take)

lemma and_low_mask:
  "(n::nat) AND 15 = n mod 16" "(n::nat) AND 63 = n mod 64" "(n::nat) AND 127 = n mod 128"
  using take_bit_eq_mask [of 4 n] take_bit_eq_mask [of 6 n] take_bit_eq_mask [of 7 n]
  by (simp_all add: mask_eq_exp_minus_1 take_bit_eq_mod)

lemma or_high_bit: "k \<le> j \<Longrightarrow> take_bit k n OR 2 ^ j = take_bit k n + (2 ^ j :: nat)"
  by (rule disjunctive_add_eq_or [symmetric], rule bit_eqI) (auto simp: bit_simps)

lemma byte_or_and_low:
  "of_char (byte_or (byte_and c 0x0F) 0x40) = of_char c mod 16 + (64::nat)"
  "of_char (byte_or (byte_and c 0x3F) 0x80) = of_char c mod 64 + (128::nat)"
proof -
  have "n mod 16 OR 64 = n mod 16 + 64" "n mod 64 OR 128 = n mod 64 + 128" for n :: nat
    using or_high_bit [of 4 6 n] or_high_bit [of 6 7 n] by (simp_all add: take_bit_eq_mod)
  moreover have "n mod 16 mod 256 = n mod 16" "n mod 64 mod 256 = n mod 64"
      "(n mod 16 + 64) mod 256 = n mod 16 + 64" "(n mod 64 + 128) mod 256 = n mod 64 + 128" for n :: nat
    by simp_all
  ultimately show "of_char (byte_or (byte_and c 0x0F) 0x40) = of_char c mod 16 + (64::nat)"
    "of_char (byte_or (byte_and c 0x3F) 0x80) = of_char c mod 64 + (128::nat)"
    by (simp_all add: byte_or_def byte_and_def and_low_mask)
qed

lemma byte_or_and_mac: "of_char (byte_or (byte_and c 0xFE) 0x02) = of_char c div 4 * 4 + (2::nat)"
proof -
  define n :: nat where "n = of_char c"
  have n: "n < 256" by (simp add: n_def)
  have "n AND 254 = 2 * (n div 2 AND 127)" by (subst and_nat_rec) simp
  moreover have "2 * m OR 2 = 2 * (m OR 1)" for m :: nat by (subst or_nat_rec) simp
  moreover have "(n div 2 AND 127) OR 1 = 1 + 2 * (n div 4 AND 63)"
    by (subst or_nat_rec, subst and_nat_rec) (simp add: div_mult2_eq [symmetric])
  moreover have "n div 4 AND 63 = n div 4" using n by (simp add: and_low_mask)
  moreover have "2 * (n div 2 AND 127) mod 256 = 2 * (n div 2 AND 127)" by (simp add: and_low_mask)
  moreover have "Suc (Suc (4 * (n div 4))) mod 256 = Suc (Suc (4 * (n div 4)))"
    using n by (intro mod_less) presburger
  ultimately show ?thesis using n
    by (simp add: byte_or_def byte_and_def n_def [symmetric])
qed

end
