(* ===== verification/ConfigFile.thy ===== *)
theory ConfigFile
  imports Prelude "HOL-Library.Sublist"
begin

text \<open>The reader that \<^verbatim>\<open>internal/config\<close> puts between the configuration file and its decoder.\<close>

text \<open>
  \<^verbatim>\<open>limitedReader\<close> over the file, whose unread content is \<open>lr_file\<close>. A read of the file asks for
  \<open>plen\<close> bytes and gives at least one and as many as it likes, \<open>k\<close>, or reports the end.
\<close>

record limitedReader =
  lr_file :: bytes
  lr_n :: int

definition file_Read :: "nat \<Rightarrow> nat \<Rightarrow> bytes \<Rightarrow> bytes \<times> goerr option" where
  "file_Read k plen rest =
    (if plen = 0 then ([], None) else if rest = [] then ([], Some EOF) else (take (max 1 (min k plen)) rest, None))"

definition limitedReader_Read :: "nat \<Rightarrow> nat \<Rightarrow> limitedReader \<Rightarrow> (bytes \<times> goerr option) \<times> limitedReader" where
  "limitedReader_Read k plen l =
    (if lr_n l \<le> 0 then (([], Some (ErrorS ''config file exceeds size limit'')), l)
     else
       let plen = (if int plen > lr_n l then nat (lr_n l) else plen);
           (data, err) = file_Read k plen (lr_file l)
       in ((data, err), l\<lparr>lr_file := drop (length data) (lr_file l), lr_n := lr_n l - int (length data)\<rparr>))"

text \<open>What a sequence of reads delivers, up to the first error.\<close>

fun read_through :: "(nat \<times> nat) list \<Rightarrow> limitedReader \<Rightarrow> bytes \<times> goerr option" where
  "read_through [] l = ([], None)"
| "read_through ((k, plen) # rs) l =
    (case limitedReader_Read k plen l of
       ((data, Some e), _) \<Rightarrow> (data, Some e)
     | ((data, None), l1) \<Rightarrow> apfst (append data) (read_through rs l1))"

lemma file_Read_cases:
  obtains "file_Read k plen rest = ([], None)" "plen = 0"
  | "file_Read k plen rest = ([], Some EOF)" "rest = []" "0 < plen"
  | m where "file_Read k plen rest = (take m rest, None)" "0 < m" "m \<le> plen" "rest \<noteq> []"
  by (cases "plen = 0"; cases "rest = []") (auto simp: file_Read_def intro: that)

definition delivers :: "nat \<Rightarrow> bytes \<Rightarrow> bytes \<times> goerr option \<Rightarrow> bool" where
  "delivers n content r \<longleftrightarrow> prefix (fst r) (take n content)
     \<and> (\<forall>e. snd r = Some e \<longrightarrow> fst r = take n content
          \<and> e = (if length content < n then EOF else ErrorS ''config file exceeds size limit''))"

lemma delivers_after:
  assumes "delivers (n - m) (drop m content) r" "m \<le> n" "m \<le> length content"
  shows "delivers n content (apfst (append (take m content)) r)"
proof -
  have t: "take n content = take m content @ take (n - m) (drop m content)"
    using assms(2) by (metis add_diff_inverse_nat not_less take_add)
  have "length (drop m content) < n - m \<longleftrightarrow> length content < n" using assms(2,3) by auto
  then show ?thesis using assms(1) unfolding delivers_def t by simp
qed

lemma limitedReader_Read_pos:
  assumes "0 < n"
  shows "limitedReader_Read k plen \<lparr>lr_file = content, lr_n = int n\<rparr>
    = (let r = file_Read k (min n plen) content
       in (r, \<lparr>lr_file = drop (length (fst r)) content, lr_n = int n - int (length (fst r))\<rparr>))"
  using assms by (simp add: limitedReader_Read_def Let_def case_prod_unfold min_def)

text \<open>C38. The limited reader delivers exactly the first \<open>n\<close> bytes of the file, whatever sizes are asked for and
  however the file cuts them up: every sequence of reads gives a prefix of them, and the first error comes when
  all of them are delivered; it is the end of the file if the file is shorter than the limit, and the complaint
  about its size otherwise.\<close>

theorem limitedReader_delivers: "delivers n content (read_through rs \<lparr>lr_file = content, lr_n = int n\<rparr>)"
proof (induction rs arbitrary: content n)
  case Nil
  then show ?case by (simp add: delivers_def)
next
  case (Cons r rs)
  obtain k plen where r: "r = (k, plen)" by fastforce
  show ?case
  proof (cases "n = 0")
    case True
    then show ?thesis by (simp add: r limitedReader_Read_def delivers_def)
  next
    case False
    then have rd: "limitedReader_Read k plen \<lparr>lr_file = content, lr_n = int n\<rparr>
      = (let r = file_Read k (min n plen) content
         in (r, \<lparr>lr_file = drop (length (fst r)) content, lr_n = int n - int (length (fst r))\<rparr>))"
      by (intro limitedReader_Read_pos) simp
    show ?thesis
    proof (cases rule: file_Read_cases [of k "min n plen" content])
      case 1
      have "apfst (append []) x = x" for x :: "bytes \<times> goerr option" by (cases x) simp
      then show ?thesis using rd Cons.IH [of n content] 1 by (simp add: r)
    next
      case 2
      then show ?thesis using rd False by (simp add: r delivers_def)
    next
      case (3 m)
      let ?m = "min m (length content)"
      have m: "?m \<le> n" "take m content = take ?m content"
        using 3(3) by (auto, simp add: min_def)
      have "read_through (r # rs) \<lparr>lr_file = content, lr_n = int n\<rparr>
          = apfst (append (take ?m content)) (read_through rs \<lparr>lr_file = drop ?m content, lr_n = int (n - ?m)\<rparr>)"
        using rd 3(1) m by (simp add: r Let_def min.commute)
      then show ?thesis using delivers_after [OF Cons.IH [of "n - ?m" "drop ?m content"] m(1)] by simp
    qed
  qed
qed

end
