(* ===== verification/GoText.thy ===== *)
theory GoText
  imports Prelude
begin

text \<open>
  The part of Go's \<^verbatim>\<open>unicode/utf8\<close>, \<^verbatim>\<open>strings\<close>, \<^verbatim>\<open>strconv\<close>, \<^verbatim>\<open>fmt\<close> and
  \<^verbatim>\<open>net\<close> packages that the program calls on text: UTF-8 decoding and encoding,
  \<^verbatim>\<open>strings.Map\<close>, case mapping, \<^verbatim>\<open>strings.Fields\<close>, decimal and hexadecimal
  formatting, \<^verbatim>\<open>strconv.Atoi\<close>, \<^verbatim>\<open>net.SplitHostPort\<close> and \<^verbatim>\<open>fmt.Sscanf("%d")\<close>.

  A rune is its code point, a natural number. The case-mapping tables of
  \<^verbatim>\<open>unicode\<close> for runes outside ASCII are generated data; they are the parameter
  \<open>unicode_tables\<close> of every operation that folds case, and no theorem assumes
  anything about them.
\<close>

section \<open>UTF-8\<close>

abbreviation RuneError :: nat where "RuneError \<equiv> 0xFFFD"

definition scalar :: "nat \<Rightarrow> bool" where
  "scalar r \<longleftrightarrow> r < 0xD800 \<or> (0xDFFF < r \<and> r \<le> 0x10FFFF)"

definition in_range :: "nat \<Rightarrow> nat \<Rightarrow> char \<Rightarrow> bool" where
  "in_range lo hi c \<longleftrightarrow> lo \<le> of_char c \<and> of_char c \<le> hi"

definition second_lo :: "nat \<Rightarrow> nat" where
  "second_lo b0 = (if b0 = 0xE0 then 0xA0 else if b0 = 0xF0 then 0x90 else 0x80)"

definition second_hi :: "nat \<Rightarrow> nat" where
  "second_hi b0 = (if b0 = 0xED then 0x9F else if b0 = 0xF4 then 0x8F else 0xBF)"

text \<open>\<^verbatim>\<open>utf8.DecodeRune\<close>: the rune at the start of the bytes and its width; a byte that
  starts no valid sequence is \<^const>\<open>RuneError\<close> of width one.\<close>

fun decode_rune :: "bytes \<Rightarrow> nat \<times> nat" where
  "decode_rune [] = (RuneError, 0)"
| "decode_rune (c0 # s) =
    (let b0 = of_char c0 in
     if b0 < 0x80 then (b0, 1)
     else if 0xC2 \<le> b0 \<and> b0 \<le> 0xDF then
       (case s of
          c1 # _ \<Rightarrow> if in_range 0x80 0xBF c1
            then ((b0 mod 32) * 64 + of_char c1 mod 64, 2) else (RuneError, 1)
        | _ \<Rightarrow> (RuneError, 1))
     else if 0xE0 \<le> b0 \<and> b0 \<le> 0xEF then
       (case s of
          c1 # c2 # _ \<Rightarrow> if in_range (second_lo b0) (second_hi b0) c1 \<and> in_range 0x80 0xBF c2
            then ((b0 mod 16) * 4096 + (of_char c1 mod 64) * 64 + of_char c2 mod 64, 3)
            else (RuneError, 1)
        | _ \<Rightarrow> (RuneError, 1))
     else if 0xF0 \<le> b0 \<and> b0 \<le> 0xF4 then
       (case s of
          c1 # c2 # c3 # _ \<Rightarrow>
            if in_range (second_lo b0) (second_hi b0) c1 \<and> in_range 0x80 0xBF c2
               \<and> in_range 0x80 0xBF c3
            then ((b0 mod 8) * 262144 + (of_char c1 mod 64) * 4096
                  + (of_char c2 mod 64) * 64 + of_char c3 mod 64, 4)
            else (RuneError, 1)
        | _ \<Rightarrow> (RuneError, 1))
     else (RuneError, 1))"

text \<open>\<^verbatim>\<open>utf8.AppendRune\<close>: surrogates and values past the last code point are written as
  \<^const>\<open>RuneError\<close>.\<close>

definition encode_rune :: "nat \<Rightarrow> bytes" where
  "encode_rune r =
    (if r < 0x80 then [char_of r]
     else if r < 0x800 then [char_of (0xC0 + r div 64), char_of (0x80 + r mod 64)]
     else if \<not> scalar r then [CHR 0xEF, CHR 0xBF, CHR 0xBD]
     else if r < 0x10000 then
       [char_of (0xE0 + r div 4096), char_of (0x80 + r div 64 mod 64), char_of (0x80 + r mod 64)]
     else [char_of (0xF0 + r div 262144), char_of (0x80 + r div 4096 mod 64),
           char_of (0x80 + r div 64 mod 64), char_of (0x80 + r mod 64)])"

lemma decode_rune_width: "s \<noteq> [] \<Longrightarrow> 1 \<le> snd (decode_rune s) \<and> snd (decode_rune s) \<le> length s"
  by (cases s) (auto simp: Let_def split: list.split)

text \<open>\<^verbatim>\<open>for i, c := range s\<close>: the runes of a string with the bytes each came from.\<close>

function segs :: "bytes \<Rightarrow> (nat \<times> bytes) list" where
  "segs [] = []"
| "segs (b # bs) =
    (fst (decode_rune (b # bs)), take (snd (decode_rune (b # bs))) (b # bs))
      # segs (drop (snd (decode_rune (b # bs))) (b # bs))"
  by pat_completeness auto
termination
proof (relation "measure length")
  fix b bs
  show "(drop (snd (decode_rune (b # bs))) (b # bs), b # bs) \<in> measure length"
    using decode_rune_width [of "b # bs"] by simp
qed simp

definition runes :: "bytes \<Rightarrow> nat list" where
  "runes s = map fst (segs s)"

definition runes_to_string :: "nat list \<Rightarrow> bytes" where
  "runes_to_string rs = concat (map encode_rune rs)"

text \<open>\<^verbatim>\<open>strings.Map\<close>; \<^const>\<open>None\<close> is a negative result of the mapping, which drops the rune.\<close>

definition strings_Map :: "(nat \<Rightarrow> nat option) \<Rightarrow> bytes \<Rightarrow> bytes" where
  "strings_Map f s = runes_to_string (List.map_filter f (runes s))"

definition utf8_valid :: "bytes \<Rightarrow> bool" where
  "utf8_valid s \<longleftrightarrow> runes_to_string (runes s) = s"

section \<open>Character classes and case\<close>

definition IsControl :: "nat \<Rightarrow> bool" where
  "IsControl r \<longleftrightarrow> r < 0x20 \<or> (0x7F \<le> r \<and> r < 0xA0)"

definition IsSpace :: "nat \<Rightarrow> bool" where
  "IsSpace r \<longleftrightarrow> (9 \<le> r \<and> r \<le> 13) \<or> r = 0x20 \<or> r = 0x85 \<or> r = 0xA0 \<or> r = 0x1680
     \<or> (0x2000 \<le> r \<and> r \<le> 0x200A) \<or> r = 0x2028 \<or> r = 0x2029 \<or> r = 0x202F \<or> r = 0x205F
     \<or> r = 0x3000"

record unicode_tables =
  upper_tab :: "nat \<Rightarrow> nat"
  lower_tab :: "nat \<Rightarrow> nat"

definition unicode_ToUpper :: "unicode_tables \<Rightarrow> nat \<Rightarrow> nat" where
  "unicode_ToUpper U r = (if r < 0x80 then (if 97 \<le> r \<and> r \<le> 122 then r - 32 else r) else upper_tab U r)"

definition unicode_ToLower :: "unicode_tables \<Rightarrow> nat \<Rightarrow> nat" where
  "unicode_ToLower U r = (if r < 0x80 then (if 65 \<le> r \<and> r \<le> 90 then r + 32 else r) else lower_tab U r)"

definition ToUpper :: "unicode_tables \<Rightarrow> bytes \<Rightarrow> bytes" where
  "ToUpper U = strings_Map (\<lambda>r. Some (unicode_ToUpper U r))"

definition ToLower :: "unicode_tables \<Rightarrow> bytes \<Rightarrow> bytes" where
  "ToLower U = strings_Map (\<lambda>r. Some (unicode_ToLower U r))"

section \<open>Splitting and trimming\<close>

text \<open>\<^verbatim>\<open>strings.Fields\<close>: the maximal runs of non-space runes, as the bytes they came from.\<close>

fun fields_acc :: "bytes \<Rightarrow> (nat \<times> bytes) list \<Rightarrow> bytes list" where
  "fields_acc cur [] = (if cur = [] then [] else [cur])"
| "fields_acc cur ((r, b) # rest) =
    (if IsSpace r then (if cur = [] then fields_acc [] rest else cur # fields_acc [] rest)
     else fields_acc (cur @ b) rest)"

definition Fields :: "bytes \<Rightarrow> bytes list" where
  "Fields s = fields_acc [] (segs s)"

definition HasSuffix :: "bytes \<Rightarrow> bytes \<Rightarrow> bool" where
  "HasSuffix s suf \<longleftrightarrow> length suf \<le> length s \<and> drop (length s - length suf) s = suf"

definition HasPrefix :: "bytes \<Rightarrow> bytes \<Rightarrow> bool" where
  "HasPrefix s pre \<longleftrightarrow> take (length pre) s = pre"

definition TrimSuffix :: "bytes \<Rightarrow> bytes \<Rightarrow> bytes" where
  "TrimSuffix s suf = (if HasSuffix s suf then take (length s - length suf) s else s)"

definition TrimPrefix :: "bytes \<Rightarrow> bytes \<Rightarrow> bytes" where
  "TrimPrefix s pre = (if HasPrefix s pre then drop (length pre) s else s)"

section \<open>Numbers as text\<close>

definition digit_char :: "nat \<Rightarrow> char" where
  "digit_char d = char_of (48 + d)"

definition is_digit :: "char \<Rightarrow> bool" where
  "is_digit c \<longleftrightarrow> in_range 48 57 c"

fun dec_nat :: "nat \<Rightarrow> string" where
  "dec_nat n = (if n < 10 then [digit_char n] else dec_nat (n div 10) @ [digit_char (n mod 10)])"

declare dec_nat.simps [simp del]

text \<open>\<^verbatim>\<open>%d\<close>\<close>

definition dec_int :: "int \<Rightarrow> string" where
  "dec_int i = (if i < 0 then CHR ''-'' # dec_nat (nat (- i)) else dec_nat (nat i))"

definition dec_val :: "string \<Rightarrow> nat" where
  "dec_val s = foldl (\<lambda>a c. 10 * a + (of_char c - 48)) 0 s"

text \<open>\<^verbatim>\<open>%x\<close> on bytes and \<^verbatim>\<open>hex.EncodeToString\<close>\<close>

definition hex_digit :: "nat \<Rightarrow> char" where
  "hex_digit d = (if d < 10 then char_of (48 + d) else char_of (87 + d))"

definition hex_byte :: "char \<Rightarrow> string" where
  "hex_byte c = [hex_digit (of_char c div 16), hex_digit (of_char c mod 16)]"

definition hex_encode :: "bytes \<Rightarrow> string" where
  "hex_encode bs = concat (map hex_byte bs)"

text \<open>\<^verbatim>\<open>strconv.Atoi\<close>: an optional sign and decimal digits, in the range of a 64-bit
  \<^verbatim>\<open>int\<close>.\<close>

definition atoi_signed :: "bool \<Rightarrow> string \<Rightarrow> int option" where
  "atoi_signed neg ds =
    (if ds = [] \<or> \<not> list_all is_digit ds then None
     else let v = int (dec_val ds) in
       if neg then (if v \<le> 2 ^ 63 then Some (- v) else None)
       else (if v < 2 ^ 63 then Some v else None))"

definition Atoi :: "string \<Rightarrow> int option" where
  "Atoi s =
    (case s of
       [] \<Rightarrow> None
     | c # cs \<Rightarrow>
         if c = CHR ''-'' then atoi_signed True cs
         else if c = CHR ''+'' then atoi_signed False cs
         else atoi_signed False s)"

text \<open>\<^verbatim>\<open>fmt.Sscanf(s, "%d", &n)\<close>: leading blanks other than a newline, a sign, digits;
  what follows the digits is left unread.\<close>

definition Sscanf_d :: "string \<Rightarrow> int option" where
  "Sscanf_d s =
    (let t = concat (map snd (dropWhile (\<lambda>(r, _). IsSpace r \<and> r \<noteq> 10) (segs s))) in
     case t of
       [] \<Rightarrow> None
     | c # cs \<Rightarrow>
         if c = CHR ''-'' then atoi_signed True (takeWhile is_digit cs)
         else if c = CHR ''+'' then atoi_signed False (takeWhile is_digit cs)
         else atoi_signed False (takeWhile is_digit t))"

section \<open>Addresses\<close>

fun lastIndexByte :: "bytes \<Rightarrow> char \<Rightarrow> nat option" where
  "lastIndexByte [] b = None"
| "lastIndexByte (v # s) b =
    (case lastIndexByte s b of Some i \<Rightarrow> Some (Suc i) | None \<Rightarrow> if v = b then Some 0 else None)"

text \<open>\<^verbatim>\<open>net.SplitHostPort\<close>; the callers ignore its error, and every error comes with empty
  host and port.\<close>

definition SplitHostPort :: "bytes \<Rightarrow> bytes \<times> bytes" where
  "SplitHostPort hp =
    (case lastIndexByte hp CHR '':'' of
       None \<Rightarrow> ([], [])
     | Some i \<Rightarrow>
         if hp ! 0 = CHR ''['' then
           (case indexByte hp CHR '']'' of
              None \<Rightarrow> ([], [])
            | Some e \<Rightarrow>
                if e + 1 \<noteq> i then ([], [])
                else if CHR ''['' \<in> set (drop 1 hp) \<or> CHR '']'' \<in> set (drop (e + 1) hp) then ([], [])
                else (take (e - 1) (drop 1 hp), drop (i + 1) hp))
         else if CHR '':'' \<in> set (take i hp) then ([], [])
         else if CHR ''['' \<in> set hp \<or> CHR '']'' \<in> set hp then ([], [])
         else (take i hp, drop (i + 1) hp))"

definition JoinHostPort :: "bytes \<Rightarrow> bytes \<Rightarrow> bytes" where
  "JoinHostPort host port =
    (if CHR '':'' \<in> set host then CHR ''['' # host @ '']:'' @ port else host @ '':'' @ port)"

text \<open>How every handler obtains the source address of its connection: the host part and the
  scanned port, zero when the scan fails.\<close>

definition remote_ip_port :: "bytes \<Rightarrow> bytes \<times> 64 word" where
  "remote_ip_port addr =
    (let (ip, portStr) = SplitHostPort addr in
     (ip, case Sscanf_d portStr of Some p \<Rightarrow> word_of_int p | None \<Rightarrow> 0))"

section \<open>Facts about UTF-8\<close>

lemma length_encode_rune: "1 \<le> length (encode_rune r)" "length (encode_rune r) \<le> 4"
  by (auto simp: encode_rune_def)

lemma lead_mod:
  "q < 32 \<Longrightarrow> (192 + q) mod 32 = (q::nat)"
  "q < 16 \<Longrightarrow> (224 + q) mod 16 = (q::nat)"
  "q < 8 \<Longrightarrow> (240 + q) mod 8 = (q::nat)"
  "q < 64 \<Longrightarrow> (128 + q) mod 64 = (q::nat)"
  using mod_mult_self4 [of 32 6 q] mod_mult_self4 [of 16 14 q]
    mod_mult_self4 [of 8 30 q] mod_mult_self4 [of 64 2 q]
  by simp_all

lemma base64:
  assumes "m < 64"
  shows "(64 * a + m) mod 64 = (m::nat)" "(64 * a + m) div 64 = a"
  using assms by simp_all

lemma div_sixty_four:
  "r div 4096 = r div 64 div (64::nat)" "r div 262144 = r div 64 div 64 div (64::nat)"
  by (simp_all add: div_mult2_eq [symmetric])

lemma of_char_of_small: "n < 256 \<Longrightarrow> of_char (char_of n) = (n::nat)"
  by simp

lemma decode_encode_2:
  assumes "q < 32" "2 \<le> q" "m < 64" "r = 64 * q + m"
  shows "decode_rune (encode_rune r @ s) = (r, length (encode_rune r))"
proof -
  have d: "r div 64 = q" "r mod 64 = m" "r < 0x800" "\<not> r < 0x80" using assms by (simp_all add: base64)
  show ?thesis using assms(1-3)
    by (simp add: encode_rune_def d Let_def in_range_def lead_mod of_char_of_small del: of_char_of)
       (simp add: assms(4))
qed

lemma decode_encode_3:
  assumes "q < 16" "m < 64" "k < 64" "r = 64 * (64 * q + m) + k" "0x800 \<le> r" "scalar r"
  shows "decode_rune (encode_rune r @ s) = (r, length (encode_rune r))"
proof -
  have "r div 64 = 64 * q + m" "r mod 64 = k"
    unfolding assms(4) by (rule base64 [OF assms(3)])+
  then have d: "r div 4096 = q" "r div 64 mod 64 = m" "r mod 64 = k"
    using base64 [OF assms(2), of q] by (simp_all only: div_sixty_four)
  have d': "r < 0x10000" "\<not> r < 0x800" "\<not> r < 0x80"
    using assms(1-5) by simp_all
  have "q = 0 \<Longrightarrow> 32 \<le> m" using assms by simp
  moreover have "q = 13 \<Longrightarrow> m < 32" using assms by (auto simp: scalar_def)
  ultimately have i: "in_range (second_lo (224 + q)) (second_hi (224 + q)) (char_of (128 + m))"
    using assms(1-3)
    by (auto simp: in_range_def second_lo_def second_hi_def of_char_of_small simp del: of_char_of)
  have i2: "in_range 128 191 (char_of (128 + k))" using assms(3)
    by (simp add: in_range_def of_char_of_small del: of_char_of)
  show ?thesis using assms(1-3)
    by (simp add: encode_rune_def d d' assms(6) Let_def i i2 lead_mod of_char_of_small del: of_char_of)
       (simp add: assms(4))
qed

lemma decode_encode_4:
  assumes "q < 5" "m < 64" "k < 64" "j < 64" "r = 64 * (64 * (64 * q + m) + k) + j"
    and "0x10000 \<le> r" "r \<le> 0x10FFFF"
  shows "decode_rune (encode_rune r @ s) = (r, length (encode_rune r))"
proof -
  have "r div 64 = 64 * (64 * q + m) + k" "r mod 64 = j"
    unfolding assms(5) by (rule base64 [OF assms(4)])+
  then have d: "r div 262144 = q" "r div 4096 mod 64 = m" "r div 64 mod 64 = k" "r mod 64 = j"
    using base64 [OF assms(2), of q] base64 [OF assms(3), of "64 * q + m"]
    by (simp_all only: div_sixty_four)
  have d': "\<not> r < 0x10000" "\<not> r < 0x800" "\<not> r < 0x80" "scalar r"
    using assms by (simp_all add: scalar_def)
  have "q = 0 \<Longrightarrow> 16 \<le> m" using assms by simp
  moreover have "q = 4 \<Longrightarrow> m < 16" using assms by simp
  ultimately have i: "in_range (second_lo (240 + q)) (second_hi (240 + q)) (char_of (128 + m))"
    using assms(1-3)
    by (auto simp: in_range_def second_lo_def second_hi_def of_char_of_small simp del: of_char_of)
  have i2: "in_range 128 191 (char_of (128 + k))" "in_range 128 191 (char_of (128 + j))"
    using assms(3,4) by (simp_all add: in_range_def of_char_of_small del: of_char_of)
  show ?thesis using assms(1-4)
    by (simp add: encode_rune_def d d' Let_def i i2 lead_mod of_char_of_small del: of_char_of)
       (simp add: assms(5))
qed

lemma decode_encode_rune:
  assumes "scalar r"
  shows "decode_rune (encode_rune r @ s) = (r, length (encode_rune r))"
proof -
  have r2: "r = 64 * (r div 64) + r mod 64" by simp
  have r3: "r = 64 * (64 * (r div 64 div 64) + r div 64 mod 64) + r mod 64" by simp
  have r4: "r = 64 * (64 * (64 * (r div 64 div 64 div 64) + r div 64 div 64 mod 64) + r div 64 mod 64) + r mod 64"
    by simp
  consider "r < 0x80" | "0x80 \<le> r" "r < 0x800" | "0x800 \<le> r" "r < 0x10000" | "0x10000 \<le> r"
    by linarith
  then show ?thesis
  proof cases
    case 1
    then show ?thesis by (simp add: encode_rune_def Let_def of_char_of_small del: of_char_of)
  next
    case 2
    then have "r div 64 < 32" "2 \<le> r div 64" by simp_all
    from decode_encode_2 [OF this _ r2] show ?thesis by simp
  next
    case 3
    then have "r div 64 div 64 < 16" by (simp add: div_sixty_four [symmetric])
    from decode_encode_3 [OF this _ _ r3 3(1) assms] show ?thesis by simp
  next
    case 4
    then have u: "r \<le> 0x10FFFF" using assms by (auto simp: scalar_def)
    then have "r div 64 div 64 div 64 < 5" by (simp add: div_sixty_four [symmetric])
    from decode_encode_4 [OF this _ _ _ r4 4 u] show ?thesis by simp
  qed
qed

lemma scalar_three:
  assumes "224 \<le> b" "b \<le> 239" "second_lo b \<le> c" "c \<le> second_hi b" "128 \<le> (d::nat)" "d \<le> 191"
  shows "scalar (b mod 16 * 4096 + c mod 64 * 64 + d mod 64)"
proof -
  have c: "128 \<le> c" "c \<le> 191" using assms(3,4) by (auto simp: second_lo_def second_hi_def split: if_splits)
  obtain q where q: "b = 224 + q" "q < 16" using assms(1,2) le_Suc_ex [of 224 b] by auto
  obtain m where m: "c = 128 + m" "m < 64" using c le_Suc_ex [of 128 c] by auto
  obtain k where k: "d = 128 + k" "k < 64" using assms(5,6) le_Suc_ex [of 128 d] by auto
  have "q = 13 \<Longrightarrow> m < 32" using assms(4) q m by (simp add: second_hi_def)
  moreover have "q < 13 \<or> q = 13 \<or> 13 < q" by linarith
  ultimately have "scalar (q * 4096 + m * 64 + k)" using q(2) m(2) k(2) by (auto simp: scalar_def)
  then show ?thesis using q m k by (simp add: lead_mod)
qed

lemma scalar_four:
  assumes "240 \<le> b" "b \<le> 244" "second_lo b \<le> c" "c \<le> second_hi b"
    and "128 \<le> (d::nat)" "d \<le> 191" "128 \<le> (e::nat)" "e \<le> 191"
  shows "scalar (b mod 8 * 262144 + c mod 64 * 4096 + d mod 64 * 64 + e mod 64)"
proof -
  have c: "128 \<le> c" "c \<le> 191" using assms(3,4) by (auto simp: second_lo_def second_hi_def split: if_splits)
  obtain q where q: "b = 240 + q" "q < 5" using assms(1,2) le_Suc_ex [of 240 b] by auto
  obtain m where m: "c = 128 + m" "m < 64" using c le_Suc_ex [of 128 c] by auto
  obtain k where k: "d = 128 + k" "k < 64" using assms(5,6) le_Suc_ex [of 128 d] by auto
  obtain j where j: "e = 128 + j" "j < 64" using assms(7,8) le_Suc_ex [of 128 e] by auto
  have "q = 4 \<Longrightarrow> m < 16" using assms(4) q m by (simp add: second_hi_def)
  moreover have "q = 0 \<Longrightarrow> 16 \<le> m" using assms(3) q m by (simp add: second_lo_def)
  moreover have "q = 0 \<or> q = 4 \<or> (0 < q \<and> q < 4)" using q(2) by linarith
  ultimately have "scalar (q * 262144 + m * 4096 + k * 64 + j)"
    using q(2) m(2) k(2) j(2) by (auto simp: scalar_def)
  then show ?thesis using q m k j by (simp add: lead_mod)
qed

lemma scalar_RuneError [simp]: "scalar RuneError"
  by (simp add: scalar_def)

lemma scalar_two: "scalar (b mod 32 * 64 + (c::nat) mod 64)"
proof -
  have "b mod 32 < 32" "c mod 64 < 64" by simp_all
  then show ?thesis by (auto simp: scalar_def)
qed

lemma decode_rune_scalar: "scalar (fst (decode_rune s))"
proof (cases s)
  case (Cons c0 s')
  have "scalar (of_char c0)" using of_char_nat_bound [of c0] by (simp add: scalar_def del: of_char_nat_bound)
  with Cons show ?thesis
    by (auto simp: Let_def scalar_two in_range_def intro: scalar_three scalar_four split: list.split)
qed simp

text \<open>A decoded multi-byte sequence is the encoding of its rune.\<close>

lemma of_char_split: "lo \<le> (of_char c :: nat) \<Longrightarrow> \<exists>q. of_char c = lo + q \<and> c = char_of (lo + q)"
  by (metis char_of_char le_Suc_ex)

lemma encode_decode_2:
  assumes "0xC2 \<le> (of_char c0 :: nat)" "of_char c0 \<le> (0xDF::nat)" "in_range 0x80 0xBF c1"
  defines "r \<equiv> of_char c0 mod 32 * 64 + of_char c1 mod (64::nat)"
  shows "encode_rune r = [c0, c1] \<and> 0x80 \<le> r"
proof -
  obtain q :: nat where q: "of_char c0 = 192 + q" "c0 = char_of (192 + q)" "2 \<le> q" "q < 32"
    using of_char_split [of 192 c0] assms(1,2) by auto
  obtain m :: nat where m: "of_char c1 = 128 + m" "c1 = char_of (128 + m)" "m < 64"
    using of_char_split [of 128 c1] assms(3) by (auto simp: in_range_def)
  have r: "r = 64 * q + m" using q m by (simp add: r_def lead_mod)
  then have "r div 64 = q" "r mod 64 = m" "r < 0x800" "\<not> r < 0x80"
    using q m(3) by (simp_all add: base64)
  then show ?thesis by (simp add: encode_rune_def q(2) m(2))
qed

lemma encode_decode_3:
  assumes "0xE0 \<le> (of_char c0 :: nat)" "of_char c0 \<le> (0xEF::nat)"
    and "in_range (second_lo (of_char c0)) (second_hi (of_char c0)) c1" "in_range 0x80 0xBF c2"
  defines "r \<equiv> of_char c0 mod 16 * 4096 + of_char c1 mod 64 * 64 + of_char c2 mod (64::nat)"
  shows "encode_rune r = [c0, c1, c2] \<and> 0x80 \<le> r"
proof -
  have c1: "0x80 \<le> (of_char c1 :: nat)" "of_char c1 \<le> (0xBF::nat)"
    using assms(3) by (auto simp: in_range_def second_lo_def second_hi_def split: if_splits)
  obtain q :: nat where q: "of_char c0 = 224 + q" "c0 = char_of (224 + q)" "q < 16"
    using of_char_split [of 224 c0] assms(1,2) by auto
  obtain m :: nat where m: "of_char c1 = 128 + m" "c1 = char_of (128 + m)" "m < 64"
    using of_char_split [of 128 c1] c1 by auto
  obtain k :: nat where k: "of_char c2 = 128 + k" "c2 = char_of (128 + k)" "k < 64"
    using of_char_split [of 128 c2] assms(4) by (auto simp: in_range_def)
  have "q = 0 \<Longrightarrow> 32 \<le> m" using assms(3) q m by (simp add: in_range_def second_lo_def)
  moreover have r: "r = 64 * (64 * q + m) + k" using q m k by (simp add: r_def lead_mod)
  ultimately have b: "\<not> r < 0x800" "\<not> r < 0x80" "r < 0x10000"
    using q(3) m(3) k(3) by (cases "q = 0"; simp)+
  have "scalar r" using scalar_three [of "of_char c0" "of_char c1" "of_char c2"] assms(1-4)
    by (simp add: r_def in_range_def)
  moreover have "r div 64 = 64 * q + m" "r mod 64 = k" unfolding r by (rule base64 [OF k(3)])+
  moreover from this have "r div 4096 = q" "r div 64 mod 64 = m"
    using base64 [OF m(3), of q] by (simp_all only: div_sixty_four)
  ultimately show ?thesis using b by (simp add: encode_rune_def q(2) m(2) k(2))
qed

lemma encode_decode_4:
  assumes "0xF0 \<le> (of_char c0 :: nat)" "of_char c0 \<le> (0xF4::nat)"
    and "in_range (second_lo (of_char c0)) (second_hi (of_char c0)) c1"
    and "in_range 0x80 0xBF c2" "in_range 0x80 0xBF c3"
  defines "r \<equiv> of_char c0 mod 8 * 262144 + of_char c1 mod 64 * 4096 + of_char c2 mod 64 * 64 + of_char c3 mod (64::nat)"
  shows "encode_rune r = [c0, c1, c2, c3] \<and> 0x80 \<le> r"
proof -
  have c1: "0x80 \<le> (of_char c1 :: nat)" "of_char c1 \<le> (0xBF::nat)"
    using assms(3) by (auto simp: in_range_def second_lo_def second_hi_def split: if_splits)
  obtain q :: nat where q: "of_char c0 = 240 + q" "c0 = char_of (240 + q)" "q < 5"
    using of_char_split [of 240 c0] assms(1,2) by auto
  obtain m :: nat where m: "of_char c1 = 128 + m" "c1 = char_of (128 + m)" "m < 64"
    using of_char_split [of 128 c1] c1 by auto
  obtain k :: nat where k: "of_char c2 = 128 + k" "c2 = char_of (128 + k)" "k < 64"
    using of_char_split [of 128 c2] assms(4) by (auto simp: in_range_def)
  obtain j :: nat where j: "of_char c3 = 128 + j" "c3 = char_of (128 + j)" "j < 64"
    using of_char_split [of 128 c3] assms(5) by (auto simp: in_range_def)
  have "q = 0 \<Longrightarrow> 16 \<le> m" using assms(3) q m by (simp add: in_range_def second_lo_def)
  moreover have r: "r = 64 * (64 * (64 * q + m) + k) + j" using q m k j by (simp add: r_def lead_mod)
  ultimately have b: "\<not> r < 0x800" "\<not> r < 0x80" "\<not> r < 0x10000" by (cases "q = 0"; simp)+
  have "scalar r"
    using scalar_four [of "of_char c0" "of_char c1" "of_char c2" "of_char c3"] assms(1-5)
    by (simp add: r_def in_range_def)
  moreover have "r div 64 = 64 * (64 * q + m) + k" "r mod 64 = j" unfolding r by (rule base64 [OF j(3)])+
  moreover from this have "r div 262144 = q" "r div 4096 mod 64 = m" "r div 64 mod 64 = k"
    using base64 [OF m(3), of q] base64 [OF k(3), of "64 * q + m"] by (simp_all only: div_sixty_four)
  ultimately show ?thesis using b by (simp add: encode_rune_def q(2) m(2) k(2) j(2))
qed

lemma decode_rune_cases [case_names ascii invalid multi]:
  assumes "of_char c0 < (0x80::nat) \<Longrightarrow> decode_rune (c0 # s) = (of_char c0, 1) \<Longrightarrow> P"
    and "0x80 \<le> (of_char c0 :: nat) \<Longrightarrow> decode_rune (c0 # s) = (RuneError, 1) \<Longrightarrow> P"
    and "\<And>r. decode_rune (c0 # s) = (r, length (encode_rune r)) \<Longrightarrow> 0x80 \<le> r \<Longrightarrow> 2 \<le> length (encode_rune r)
          \<Longrightarrow> take (length (encode_rune r)) (c0 # s) = encode_rune r \<Longrightarrow> P"
  shows P
proof -
  let ?d = "decode_rune (c0 # s)"
  consider "of_char c0 < (0x80::nat)" "?d = (of_char c0, 1)"
    | "0x80 \<le> (of_char c0 :: nat)" "?d = (RuneError, 1)"
    | c1 t where "s = c1 # t" "0xC2 \<le> (of_char c0 :: nat)" "of_char c0 \<le> (0xDF::nat)" "in_range 0x80 0xBF c1"
        "?d = (of_char c0 mod 32 * 64 + of_char c1 mod 64, 2)"
    | c1 c2 t where "s = c1 # c2 # t" "0xE0 \<le> (of_char c0 :: nat)" "of_char c0 \<le> (0xEF::nat)"
        "in_range (second_lo (of_char c0)) (second_hi (of_char c0)) c1" "in_range 0x80 0xBF c2"
        "?d = (of_char c0 mod 16 * 4096 + of_char c1 mod 64 * 64 + of_char c2 mod 64, 3)"
    | c1 c2 c3 t where "s = c1 # c2 # c3 # t" "0xF0 \<le> (of_char c0 :: nat)" "of_char c0 \<le> (0xF4::nat)"
        "in_range (second_lo (of_char c0)) (second_hi (of_char c0)) c1"
        "in_range 0x80 0xBF c2" "in_range 0x80 0xBF c3"
        "?d = (of_char c0 mod 8 * 262144 + of_char c1 mod 64 * 4096 + of_char c2 mod 64 * 64 + of_char c3 mod 64, 4)"
    by (force simp: Let_def not_less split: list.splits if_splits)
  then show P
  proof cases
    case 3 then show ?thesis using encode_decode_2 [of c0 c1]
      by (intro assms(3) [of "of_char c0 mod 32 * 64 + of_char c1 mod 64"]) (simp_all del: decode_rune.simps)
  next
    case 4 then show ?thesis using encode_decode_3 [of c0 c1 c2]
      by (intro assms(3) [of "of_char c0 mod 16 * 4096 + of_char c1 mod 64 * 64 + of_char c2 mod 64"])
         (simp_all del: decode_rune.simps)
  next
    case 5 then show ?thesis using encode_decode_4 [of c0 c1 c2 c3]
      by (intro assms(3) [of "of_char c0 mod 8 * 262144 + of_char c1 mod 64 * 4096 + of_char c2 mod 64 * 64 + of_char c3 mod 64"])
         (simp_all del: decode_rune.simps)
  qed (use assms(1,2) in auto)
qed

lemma encode_rune_high:
  assumes "0x80 \<le> r" "c \<in> set (encode_rune r)"
  shows "0x80 \<le> (of_char c :: nat)"
proof -
  have m: "(128 + n mod 64) mod 256 = 128 + n mod (64::nat)" for n by simp
  have "r < 0x10000 \<Longrightarrow> r div 4096 < 16" "scalar r \<Longrightarrow> r div 262144 < 5" "r < 0x800 \<Longrightarrow> r div 64 < 32"
    by (auto simp: scalar_def)
  then show ?thesis using assms by (auto simp: encode_rune_def m split: if_splits)
qed

lemma encode_rune_width: "length (encode_rune (fst (decode_rune (b # s)))) \<le> 3 * snd (decode_rune (b # s))"
proof -
  have "length (encode_rune r) \<le> 3" if "r < 0x80 \<or> r = RuneError" for r
    using that by (auto simp: encode_rune_def)
  moreover have "length (encode_rune r) \<le> 6" "length (encode_rune r) \<le> 9" "length (encode_rune r) \<le> 12" for r
    using length_encode_rune(2) [of r] by simp_all
  ultimately show ?thesis
    by (auto simp: Let_def split: list.split)
qed

lemma segs_append_encode:
  assumes "scalar r"
  shows "segs (encode_rune r @ s) = (r, encode_rune r) # segs s"
proof -
  obtain b bs where e: "encode_rune r @ s = b # bs"
    using length_encode_rune(1) [of r] by (cases "encode_rune r") auto
  have "decode_rune (b # bs) = (r, length (encode_rune r))"
    using decode_encode_rune [OF assms, of s] e by simp
  then have "segs (b # bs)
      = (r, take (length (encode_rune r)) (b # bs)) # segs (drop (length (encode_rune r)) (b # bs))"
    by simp
  then show ?thesis using e by (metis append_eq_conv_conj)
qed

lemma encode_RuneError: "encode_rune RuneError = [CHR 0xEF, CHR 0xBF, CHR 0xBD]"
  by (simp add: encode_rune_def scalar_def char_of_def bit_simps)

lemma encode_rune_nonscalar: "\<not> scalar r \<Longrightarrow> encode_rune r = encode_rune RuneError"
  unfolding encode_RuneError by (auto simp: encode_rune_def scalar_def)

lemma runes_append_encode: "scalar r \<Longrightarrow> runes (encode_rune r @ s) = r # runes s"
  by (simp add: runes_def segs_append_encode)

lemma runes_to_string_Cons: "runes_to_string (r # rs) = encode_rune r @ runes_to_string rs"
  by (simp add: runes_to_string_def)

lemma runes_Nil [simp]: "runes [] = []"
  by (simp add: runes_def)

lemma runes_to_string_Nil [simp]: "runes_to_string [] = []"
  by (simp add: runes_to_string_def)

lemma runes_runes_to_string: "\<forall>r \<in> set rs. scalar r \<Longrightarrow> runes (runes_to_string rs) = rs"
  by (induction rs) (auto simp: runes_to_string_Cons runes_append_encode)

lemma utf8_valid_runes_to_string: "utf8_valid (runes_to_string rs)"
proof -
  let ?fix = "\<lambda>r. if scalar r then r else RuneError"
  have e: "encode_rune (?fix r) = encode_rune r" for r
    using encode_rune_nonscalar [of r] by auto
  have "runes_to_string (map ?fix rs) = runes_to_string rs"
    unfolding runes_to_string_def by (simp add: comp_def e del: if_split)
  moreover have "runes (runes_to_string (map ?fix rs)) = map ?fix rs"
    by (rule runes_runes_to_string) auto
  ultimately show ?thesis by (simp add: utf8_valid_def)
qed

lemma runes_scalar: "r \<in> set (runes s) \<Longrightarrow> scalar r"
  unfolding runes_def
  by (induction s rule: segs.induct) (auto simp: decode_rune_scalar simp del: decode_rune.simps)

lemma utf8_valid_strings_Map: "utf8_valid (strings_Map f s)"
  by (simp add: strings_Map_def utf8_valid_runes_to_string)

lemma set_map_filter: "set (List.map_filter f xs) = {y. \<exists>x \<in> set xs. f x = Some y}"
  by (auto simp: List.map_filter_def image_iff) (metis option.sel)+

lemma runes_strings_Map:
  assumes "\<And>r r'. r \<in> set (runes s) \<Longrightarrow> f r = Some r' \<Longrightarrow> scalar r'"
  shows "runes (strings_Map f s) = List.map_filter f (runes s)"
  unfolding strings_Map_def
  by (rule runes_runes_to_string) (auto simp: set_map_filter dest: assms)

text \<open>A mapping that only drops runes at most triples the length: an undecodable byte becomes the
  three bytes of \<^const>\<open>RuneError\<close>.\<close>

lemma length_runes_to_string_bound: "length (runes_to_string (runes s)) \<le> 3 * length s"
proof (induction s rule: segs.induct)
  case (2 b bs)
  let ?w = "snd (decode_rune (b # bs))"
  have "?w \<le> length (b # bs)" using decode_rune_width [of "b # bs"] by simp
  then have "length (drop ?w (b # bs)) + ?w = length (b # bs)" by simp
  moreover have "length (runes_to_string (runes (b # bs)))
      \<le> 3 * ?w + length (runes_to_string (runes (drop ?w (b # bs))))"
    using encode_rune_width [of b bs] by (simp add: runes_def runes_to_string_Cons del: decode_rune.simps)
  ultimately show ?case using "2.IH" by linarith
qed simp

lemma length_runes_to_string_filter:
  "length (runes_to_string (filter P rs)) \<le> length (runes_to_string rs)"
  by (induction rs) (auto simp: runes_to_string_Cons)

section \<open>Facts about numbers and addresses\<close>

lemma of_char_digit_char: "d < 10 \<Longrightarrow> of_char (digit_char d) = 48 + d"
  by (simp add: digit_char_def)

lemma is_digit_digit_char: "d < 10 \<Longrightarrow> is_digit (digit_char d)"
  by (simp add: is_digit_def in_range_def of_char_digit_char)

lemma dec_nat_not_Nil [simp]: "dec_nat n \<noteq> []"
  by (subst dec_nat.simps) simp

lemma dec_nat_digits: "list_all is_digit (dec_nat n)"
proof (induction n rule: dec_nat.induct)
  case (1 n)
  then show ?case by (subst dec_nat.simps) (simp add: is_digit_digit_char)
qed

lemma dec_val_snoc: "dec_val (s @ [c]) = 10 * dec_val s + (of_char c - 48)"
  by (simp add: dec_val_def)

lemma dec_val_dec_nat: "dec_val (dec_nat n) = n"
proof (induction n rule: dec_nat.induct)
  case (1 n)
  show ?case
  proof (cases "n < 10")
    case True
    then show ?thesis by (subst dec_nat.simps) (simp add: dec_val_def of_char_digit_char)
  next
    case False
    with "1.IH" show ?thesis
      by (subst dec_nat.simps) (simp add: dec_val_snoc of_char_digit_char)
  qed
qed

lemma digit_not_sign: "is_digit c \<Longrightarrow> c \<noteq> CHR ''-'' \<and> c \<noteq> CHR ''+'' \<and> c \<noteq> CHR '':'' \<and> c \<noteq> CHR ''['' \<and> c \<noteq> CHR '']''"
  by (auto simp: is_digit_def in_range_def)

lemma digit_no_structure:
  assumes "list_all is_digit s"
  shows "CHR '':'' \<notin> set s" "CHR ''['' \<notin> set s" "CHR '']'' \<notin> set s"
  using assms digit_not_sign by (auto simp: list_all_iff)

lemma Atoi_digits:
  assumes "list_all is_digit s" "s \<noteq> []" "dec_val s < 2 ^ 63"
  shows "Atoi s = Some (int (dec_val s))"
proof -
  obtain c cs where s: "s = c # cs" using assms(2) by (cases s) auto
  have "is_digit c" using assms(1) s by simp
  then have "Atoi s = atoi_signed False s" using s by (auto simp: Atoi_def dest: digit_not_sign)
  also have "\<dots> = Some (int (dec_val s))" using assms by (simp add: atoi_signed_def)
  finally show ?thesis .
qed

text \<open>Printing a number and reading it back.\<close>

lemma Atoi_dec_int:
  assumes "- (2 ^ 63) \<le> i" "i < 2 ^ 63"
  shows "Atoi (dec_int i) = Some i"
proof (cases "i < 0")
  case True
  then have "Atoi (dec_int i) = atoi_signed True (dec_nat (nat (- i)))"
    by (simp add: Atoi_def dec_int_def)
  with True assms show ?thesis by (simp add: atoi_signed_def dec_nat_digits dec_val_dec_nat)
next
  case False
  then show ?thesis
    using assms Atoi_digits [OF dec_nat_digits dec_nat_not_Nil, of "nat i"]
    by (simp add: dec_int_def dec_val_dec_nat)
qed

lemma segs_digit:
  assumes "is_digit c"
  shows "segs (c # cs) = (of_char c, [c]) # segs cs" "\<not> IsSpace (of_char c)"
  using assms by (auto simp: is_digit_def in_range_def IsSpace_def)

lemma concat_segs: "concat (map snd (segs s)) = s"
  by (induction s rule: segs.induct) (auto simp del: decode_rune.simps)

lemma Sscanf_d_digits:
  assumes "list_all is_digit s" "s \<noteq> []" "dec_val s < 2 ^ 63"
  shows "Sscanf_d s = Some (int (dec_val s))"
proof -
  obtain c cs where s: "s = c # cs" using assms(2) by (cases s) auto
  have c: "is_digit c" using assms(1) s by simp
  have tw: "takeWhile is_digit s = s" using assms(1) by (simp add: takeWhile_eq_all_conv list_all_iff)
  have "concat (map snd (dropWhile (\<lambda>(r, _). IsSpace r \<and> r \<noteq> 10) (segs s))) = s"
    using segs_digit(1) [OF c, of cs] segs_digit(2) [OF c] concat_segs [of s] s by simp
  then have "Sscanf_d s = atoi_signed False (takeWhile is_digit s)"
    using c s by (auto simp: Sscanf_d_def dest: digit_not_sign)
  then have "Sscanf_d s = atoi_signed False s" unfolding tw .
  with assms show ?thesis by (simp add: atoi_signed_def)
qed

lemma lastIndexByte_append: "b \<notin> set r \<Longrightarrow> lastIndexByte (s @ b # r) b = Some (length s)"
proof (induction s)
  case Nil
  have "b \<notin> set r \<Longrightarrow> lastIndexByte r b = None" by (induction r) auto
  with Nil show ?case by simp
qed simp

text \<open>A printed TCP address splits back into its host and port.\<close>

lemma SplitHostPort_JoinHostPort:
  assumes "list_all is_digit p" "CHR ''['' \<notin> set h" "CHR '']'' \<notin> set h"
  shows "SplitHostPort (JoinHostPort h p) = (h, p)"
proof (cases "CHR '':'' \<in> set h")
  case True
  define hp where "hp = CHR ''['' # h @ '']:'' @ p"
  have l: "lastIndexByte hp CHR '':'' = Some (length h + 2)"
    using lastIndexByte_append [of "CHR '':''" p "CHR ''['' # h @ '']''"] digit_no_structure [OF assms(1)]
    by (simp add: hp_def)
  have i: "indexByte hp CHR '']'' = Some (length h + 1)"
    using indexByte_append [of "CHR '']''" "CHR ''['' # h" "CHR '':'' # p"] assms(3) by (simp add: hp_def)
  have d: "drop (Suc 0) hp = h @ '']:'' @ p" "drop (Suc (Suc (length h))) hp = CHR '':'' # p"
      "drop (Suc (Suc (Suc (length h)))) hp = p" "hp ! 0 = CHR ''[''"
    by (simp_all add: hp_def)
  have "CHR ''['' \<notin> set (drop (Suc 0) hp)" "CHR '']'' \<notin> set (drop (Suc (Suc (length h))) hp)"
    unfolding d using assms(2) digit_no_structure [OF assms(1)] by auto
  then have "SplitHostPort hp = (h, p)"
    by (simp add: SplitHostPort_def l i d)
  then show ?thesis using True by (simp add: JoinHostPort_def hp_def)
next
  case False
  have "lastIndexByte (h @ '':'' @ p) CHR '':'' = Some (length h)"
    using lastIndexByte_append [of "CHR '':''" p h] digit_no_structure [OF assms(1)] by simp
  moreover have "(h @ '':'' @ p) ! 0 \<noteq> CHR ''[''"
    using assms(2) by (cases h) auto
  ultimately show ?thesis using False assms digit_no_structure [OF assms(1)]
    by (simp add: JoinHostPort_def SplitHostPort_def)
qed

lemma remote_ip_port_Join:
  assumes "CHR ''['' \<notin> set h" "CHR '']'' \<notin> set h" "port < 2 ^ 63"
  shows "remote_ip_port (JoinHostPort h (dec_nat port)) = (h, word_of_nat port)"
  using assms
  by (simp add: remote_ip_port_def SplitHostPort_JoinHostPort dec_nat_digits Sscanf_d_digits dec_val_dec_nat)

lemma encode_rune_ascii: "(of_char c :: nat) < 0x80 \<Longrightarrow> encode_rune (of_char c) = [c]"
  by (simp add: encode_rune_def)

lemma runes_ascii: "\<forall>c \<in> set s. (of_char c :: nat) < 0x80 \<Longrightarrow> runes s = map of_char s"
  by (induction s) (simp_all add: runes_def)

lemma utf8_valid_ascii:
  assumes "\<forall>c \<in> set s. (of_char c :: nat) < 0x80"
  shows "utf8_valid s"
proof -
  have "concat (map (\<lambda>c. encode_rune (of_char c)) s) = s"
    using assms by (induction s) (simp_all add: encode_rune_ascii)
  then show ?thesis by (simp add: utf8_valid_def runes_ascii [OF assms] runes_to_string_def comp_def)
qed

end
