(* ===== verification/Json.thy ===== *)
theory Json
  imports GoText
begin

text \<open>
  What the program uses of \<^verbatim>\<open>encoding/json\<close> to write: strings, integers, booleans, null,
  arrays and objects. A struct is an object in field order; a Go map is an object in key order
  (\<open>JMap\<close>). HTML escaping is on, as it is by default in \<^verbatim>\<open>json.Marshal\<close> and in
  \<^verbatim>\<open>json.NewEncoder\<close>. The escapes are those of the Go release named in
  \<^verbatim>\<open>go.mod\<close> (1.21), which writes backspace and form feed as \<^verbatim>\<open>\u0008\<close> and \<^verbatim>\<open>\u000c\<close>.

  \<open>json_unquote\<close> reads a string literal the way \<^verbatim>\<open>encoding/json\<close> does: it takes the escapes of the
  grammar, joins the two halves of a surrogate pair, and replaces a lone surrogate or an
  undecodable byte by U+FFFD.
\<close>

abbreviation QUOTE :: char where "QUOTE \<equiv> CHR 0x22"
abbreviation BACKSLASH :: char where "BACKSLASH \<equiv> CHR 0x5C"

definition json_char :: "nat \<times> bytes \<Rightarrow> bytes" where
  "json_char seg =
    (let r = fst seg; b = snd seg in
     if r < 0x80 then
       (if r = 0x22 \<or> r = 0x5C then [BACKSLASH, char_of r]
        else if r = 10 then [BACKSLASH, CHR ''n'']
        else if r = 13 then [BACKSLASH, CHR ''r'']
        else if r = 9 then [BACKSLASH, CHR ''t'']
        else if r < 0x20 \<or> r = 0x3C \<or> r = 0x3E \<or> r = 0x26
          then BACKSLASH # ''u00'' @ [hex_digit (r div 16), hex_digit (r mod 16)]
        else [char_of r])
     else if r = RuneError \<and> length b = 1 then BACKSLASH # ''ufffd''
     else if r = 0x2028 \<or> r = 0x2029 then BACKSLASH # ''u202'' @ [hex_digit (r mod 16)]
     else b)"

definition json_chars :: "bytes \<Rightarrow> bytes" where
  "json_chars s = concat (map json_char (segs s))"

definition json_string :: "bytes \<Rightarrow> bytes" where
  "json_string s = QUOTE # json_chars s @ [QUOTE]"

datatype jval =
    JNull
  | JBool bool
  | JInt int
  | JStr bytes
  | JArr "jval list"
  | JObj "(bytes \<times> jval) list"

fun commas :: "bytes list \<Rightarrow> bytes" where
  "commas [] = []"
| "commas [x] = x"
| "commas (x # y # zs) = x @ '','' @ commas (y # zs)"

fun json_marshal :: "jval \<Rightarrow> bytes" where
  "json_marshal JNull = ''null''"
| "json_marshal (JBool b) = (if b then ''true'' else ''false'')"
| "json_marshal (JInt i) = dec_int i"
| "json_marshal (JStr s) = json_string s"
| "json_marshal (JArr vs) = ''['' @ commas (map json_marshal vs) @ '']''"
| "json_marshal (JObj kvs) = ''{'' @ commas (map (\<lambda>kv. json_string (fst kv) @ '':'' @ json_marshal (snd kv)) kvs) @ ''}''"

text \<open>Byte order of keys, as Go compares strings.\<close>

fun key_less :: "bytes \<Rightarrow> bytes \<Rightarrow> bool" where
  "key_less [] [] = False"
| "key_less [] (y # ys) = True"
| "key_less (x # xs) [] = False"
| "key_less (x # xs) (y # ys) =
    (if (of_char x :: nat) < of_char y then True
     else if (of_char y :: nat) < of_char x then False
     else key_less xs ys)"

fun insert_key :: "bytes \<times> jval \<Rightarrow> (bytes \<times> jval) list \<Rightarrow> (bytes \<times> jval) list" where
  "insert_key kv [] = [kv]"
| "insert_key kv (x # xs) =
    (if key_less (fst kv) (fst x) then kv # x # xs
     else if key_less (fst x) (fst kv) then x # insert_key kv xs
     else kv # xs)"

definition JMap :: "(bytes \<times> jval) list \<Rightarrow> jval" where
  "JMap kvs = JObj (foldl (\<lambda>m kv. insert_key kv m) [] kvs)"

section \<open>Reading a string literal back\<close>

definition hex_val :: "char \<Rightarrow> nat option" where
  "hex_val c =
    (let n = of_char c in
     if 48 \<le> n \<and> n \<le> 57 then Some (n - 48)
     else if 97 \<le> n \<and> n \<le> 102 then Some (n - 87)
     else if 65 \<le> n \<and> n \<le> 70 then Some (n - 55)
     else None)"

fun hex4 :: "bytes \<Rightarrow> nat option" where
  "hex4 [a, b, c, d] =
    do { x \<leftarrow> hex_val a; y \<leftarrow> hex_val b; z \<leftarrow> hex_val c; w \<leftarrow> hex_val d;
         Some (4096 * x + 256 * y + 16 * z + w) }"
| "hex4 _ = None"

definition escape_rune :: "char \<Rightarrow> nat option" where
  "escape_rune c =
    (if c = QUOTE \<or> c = BACKSLASH \<or> c = CHR ''/'' then Some (of_char c)
     else if c = CHR ''n'' then Some 10
     else if c = CHR ''r'' then Some 13
     else if c = CHR ''t'' then Some 9
     else if c = CHR ''b'' then Some 8
     else if c = CHR ''f'' then Some 12
     else None)"

text \<open>The body of a literal up to its closing quote: the bytes it denotes and what follows it.\<close>

definition hex_escape :: "bytes \<Rightarrow> nat option" where
  "hex_escape s =
    (case s of b # u # rest \<Rightarrow> if b = BACKSLASH \<and> u = CHR ''u'' then hex4 (take 4 rest) else None | _ \<Rightarrow> None)"

text \<open>\<^verbatim>\<open>utf16.DecodeRune\<close> on the values of two consecutive escapes.\<close>

definition surrogate_pair :: "nat \<Rightarrow> nat option \<Rightarrow> nat option" where
  "surrogate_pair r next =
    (case next of
       None \<Rightarrow> None
     | Some r2 \<Rightarrow>
         if 0xD800 \<le> r \<and> r < 0xDC00 \<and> 0xDC00 \<le> r2 \<and> r2 < 0xE000
         then Some ((r - 0xD800) * 0x400 + (r2 - 0xDC00) + 0x10000) else None)"

function json_unquote :: "bytes \<Rightarrow> (bytes \<times> bytes) option" where
  "json_unquote s =
    (case s of
       [] \<Rightarrow> None
     | c # rest \<Rightarrow>
         if c = QUOTE then Some ([], rest)
         else if c = BACKSLASH then
           (case rest of
              [] \<Rightarrow> None
            | e # rest1 \<Rightarrow>
                if e = CHR ''u'' then
                  (case hex4 (take 4 rest1) of
                     None \<Rightarrow> None
                   | Some r \<Rightarrow>
                       (case surrogate_pair r (hex_escape (drop 4 rest1)) of
                          Some r' \<Rightarrow> map_option (apfst (append (encode_rune r'))) (json_unquote (drop 10 rest1))
                        | None \<Rightarrow> map_option (apfst (append (encode_rune r))) (json_unquote (drop 4 rest1))))
                else
                  (case escape_rune e of
                     None \<Rightarrow> None
                   | Some r \<Rightarrow> map_option (apfst (append (encode_rune r))) (json_unquote rest1)))
         else if (of_char c :: nat) < 0x20 then None
         else if (of_char c :: nat) < 0x80 then map_option (apfst (append [c])) (json_unquote rest)
         else map_option (apfst (append (encode_rune (fst (decode_rune s)))))
                (json_unquote (drop (snd (decode_rune s)) s)))"
  by pat_completeness auto
termination
proof (relation "measure length", goal_cases)
  case (6 s c rest)
  then show ?case using decode_rune_width [of s] by simp
qed auto

declare json_unquote.simps [simp del]

section \<open>Facts about written strings\<close>

lemma hex_digit_printable: "d < 16 \<Longrightarrow> 0x20 \<le> (of_char (hex_digit d) :: nat)"
  by (auto simp: hex_digit_def)

definition printable :: "bytes \<Rightarrow> bool" where
  "printable bs \<longleftrightarrow> (\<forall>c \<in> set bs. 0x20 \<le> (of_char c :: nat))"

lemma printable_append [simp]: "printable (xs @ ys) \<longleftrightarrow> printable xs \<and> printable ys"
  by (auto simp: printable_def)

lemma printable_Cons [simp]: "printable (x # xs) \<longleftrightarrow> 0x20 \<le> (of_char x :: nat) \<and> printable xs"
  by (auto simp: printable_def)

lemma printable_Nil [simp]: "printable []"
  by (simp add: printable_def)

lemma printable_no_LF: "printable bs \<Longrightarrow> LF \<notin> set bs"
  by (auto simp: printable_def)

lemma printable_json_char:
  "printable (json_char (fst (decode_rune (b # s)), take (snd (decode_rune (b # s))) (b # s)))"
proof (cases rule: decode_rune_cases [of b s])
  case ascii
  then have "(of_char b :: nat) div 16 < 16" by simp
  with ascii show ?thesis
    by (simp add: json_char_def Let_def hex_digit_printable del: decode_rune.simps)
next
  case invalid
  then show ?thesis by (simp add: json_char_def del: decode_rune.simps)
next
  case (multi r)
  have "printable (encode_rune r)"
    using encode_rune_high [OF multi(2)] by (force simp: printable_def)
  with multi show ?thesis
    by (simp add: json_char_def Let_def hex_digit_printable del: decode_rune.simps)
qed

lemma printable_json_chars: "printable (json_chars s)"
  unfolding json_chars_def
proof (induction s rule: segs.induct)
  case (2 b bs)
  then show ?case
    by (simp add: printable_json_char del: decode_rune.simps)
qed simp

lemma printable_json_string: "printable (json_string s)"
  by (simp add: json_string_def printable_json_chars)

lemma printable_dec_nat: "printable (dec_nat n)"
  using dec_nat_digits [of n] by (auto simp: printable_def list_all_iff is_digit_def in_range_def)

lemma printable_dec_int: "printable (dec_int i)"
  by (simp add: dec_int_def printable_dec_nat)

lemma printable_commas: "\<forall>x \<in> set xs. printable x \<Longrightarrow> printable (commas xs)"
  by (induction xs rule: commas.induct) auto

lemma printable_json_marshal: "printable (json_marshal v)"
proof (induction v rule: json_marshal.induct)
  case (5 vs)
  then show ?case by (auto intro!: printable_commas)
next
  case (6 kvs)
  then show ?case by (auto intro!: printable_commas simp: printable_json_string)
qed (auto simp: printable_dec_int printable_json_string)

section \<open>Written strings read back\<close>

lemma hex_val_hex_digit: "d < 16 \<Longrightarrow> hex_val (hex_digit d) = Some d"
  by (auto simp: hex_val_def hex_digit_def Let_def)

lemma json_unquote_plain:
  "0x20 \<le> (of_char c :: nat) \<Longrightarrow> (of_char c :: nat) < 0x80 \<Longrightarrow> c \<noteq> QUOTE \<Longrightarrow> c \<noteq> BACKSLASH \<Longrightarrow>
    json_unquote (c # t) = map_option (apfst (append [c])) (json_unquote t)"
  by (subst json_unquote.simps) simp

lemma json_unquote_escape:
  "escape_rune e = Some r \<Longrightarrow>
    json_unquote (BACKSLASH # e # t) = map_option (apfst (append (encode_rune r))) (json_unquote t)"
  by (subst json_unquote.simps) (auto simp: escape_rune_def split: if_splits)

lemma json_unquote_hex:
  assumes "hex4 [a, b, c, d] = Some r" "r < 0xD800 \<or> 0xDC00 \<le> r"
  shows "json_unquote (BACKSLASH # CHR ''u'' # a # b # c # d # t)
      = map_option (apfst (append (encode_rune r))) (json_unquote t)"
proof -
  have "surrogate_pair r x = None" for x using assms(2) by (auto simp: surrogate_pair_def split: option.split)
  then show ?thesis using assms(1) by (subst json_unquote.simps) (simp del: hex4.simps)
qed

lemma json_unquote_high:
  assumes "0x80 \<le> r" "scalar r"
  shows "json_unquote (encode_rune r @ t) = map_option (apfst (append (encode_rune r))) (json_unquote t)"
proof -
  obtain c e where e: "encode_rune r = c # e" using length_encode_rune(1) [of r] by (cases "encode_rune r") auto
  have "0x80 \<le> (of_char c :: nat)" using encode_rune_high [OF assms(1)] e by force
  then have "c \<noteq> QUOTE" "c \<noteq> BACKSLASH" "\<not> (of_char c :: nat) < 0x20" "\<not> (of_char c :: nat) < 0x80" by auto
  moreover have "decode_rune (c # e @ t) = (r, length (c # e))"
    using decode_encode_rune [OF assms(2), of t] e by simp
  ultimately show ?thesis unfolding e by (subst json_unquote.simps) (simp del: decode_rune.simps add: e)
qed

lemma json_unquote_ascii:
  assumes "r < 0x80"
  shows "json_unquote (json_char (r, b) @ t) = map_option (apfst (append (encode_rune r))) (json_unquote t)"
proof -
  have h: "hex4 [CHR ''0'', CHR ''0'', hex_digit (r div 16), hex_digit (r mod 16)] = Some r"
    using assms hex_val_hex_digit [of "r div 16"] hex_val_hex_digit [of "r mod 16"]
    by (simp add: hex_val_def Let_def)
  have e: "encode_rune r = [char_of r]" using assms by (simp add: encode_rune_def)
  have q: "char_of r = QUOTE \<longleftrightarrow> r = 0x22" "char_of r = BACKSLASH \<longleftrightarrow> r = 0x5C"
    using assms by (auto simp: char_of_eq_iff take_bit_eq_mod)
  have e2: "r = 0x22 \<or> r = 0x5C \<Longrightarrow> escape_rune (char_of r) = Some r"
      "escape_rune CHR ''n'' = Some 10" "escape_rune CHR ''r'' = Some 13" "escape_rune CHR ''t'' = Some 9"
    by (auto simp: escape_rune_def char_of_eq_iff take_bit_eq_mod)
  show ?thesis
    using assms json_unquote_plain [of "char_of r" t] json_unquote_hex [OF h, of t]
    by (simp add: json_char_def Let_def e2 json_unquote_escape q)
       (auto simp: json_unquote_escape e2 e)
qed

lemma json_unquote_char:
  "json_unquote (json_char (fst (decode_rune (b # s)), take (snd (decode_rune (b # s))) (b # s)) @ t)
    = map_option (apfst (append (encode_rune (fst (decode_rune (b # s)))))) (json_unquote t)"
proof (cases rule: decode_rune_cases [of b s])
  case ascii
  then show ?thesis by (simp add: json_unquote_ascii del: decode_rune.simps)
next
  case invalid
  have "hex4 ''fffd'' = Some RuneError" by (simp add: hex_val_def)
  from json_unquote_hex [OF this] invalid show ?thesis
    by (simp add: json_char_def del: decode_rune.simps)
next
  case (multi r)
  have sc: "scalar r" using decode_rune_scalar [of "b # s"] multi(1) by simp
  have h: "hex4 [CHR ''2'', CHR ''0'', CHR ''2'', hex_digit 8] = Some 0x2028"
    "hex4 [CHR ''2'', CHR ''0'', CHR ''2'', hex_digit 9] = Some 0x2029"
    using hex_val_hex_digit [of 8] hex_val_hex_digit [of 9] by (simp_all add: hex_val_def Let_def)
  show ?thesis
    using multi json_unquote_hex [OF h(1), of t] json_unquote_hex [OF h(2), of t] json_unquote_high [OF multi(2) sc, of t]
    by (auto simp: json_char_def Let_def simp del: decode_rune.simps)
qed

lemma json_unquote_json_chars:
  "json_unquote (json_chars s @ QUOTE # rest) = Some (runes_to_string (runes s), rest)"
proof (induction s rule: segs.induct)
  case 1
  show ?case by (subst json_unquote.simps) (simp add: json_chars_def)
next
  case (2 b bs)
  let ?s = "b # bs"
  have "json_chars ?s = json_char (fst (decode_rune ?s), take (snd (decode_rune ?s)) ?s)
      @ json_chars (drop (snd (decode_rune ?s)) ?s)"
    by (simp add: json_chars_def del: decode_rune.simps)
  then have "json_unquote (json_chars ?s @ QUOTE # rest)
      = map_option (apfst (append (encode_rune (fst (decode_rune ?s)))))
          (json_unquote (json_chars (drop (snd (decode_rune ?s)) ?s) @ QUOTE # rest))"
    by (simp only: append_assoc json_unquote_char)
  also have "\<dots> = Some (runes_to_string (runes ?s), rest)"
    unfolding "2.IH" by (simp add: runes_def runes_to_string_Cons del: decode_rune.simps)
  finally show ?case .
qed

end
