(* ===== verification/JsonDecode.thy ===== *)
theory JsonDecode
  imports Json
begin

text \<open>
  What the program uses of \<^verbatim>\<open>encoding/json\<close> to read: the grammar of JSON values with the decoder's
  limit on nesting, and the assignment of an object to the fields of a struct.

  A value is read into a tree first (\<open>json_value\<close>), as the decoder scans a whole value before it
  assigns anything. Numbers stay text. A parser returns what it read and what follows it; the tests that
  the rest has become shorter are always true and only make the recursion evidently finite.
\<close>

datatype jtree =
    TNull
  | TBool bool
  | TNum bytes
  | TStr bytes
  | TArr "jtree list"
  | TObj "(bytes \<times> jtree) list"

definition maxNestingDepth :: nat where "maxNestingDepth = 10000"

section \<open>Lexical elements\<close>

definition json_space :: "char \<Rightarrow> bool" where
  "json_space c \<longleftrightarrow> c = CHR '' '' \<or> c = CHR 0x09 \<or> c = CR \<or> c = LF"

definition skip_ws :: "bytes \<Rightarrow> bytes" where
  "skip_ws s = dropWhile json_space s"

text \<open>\<open>-? (0 | [1-9][0-9]*) (. [0-9]+)? ([eE] [+-]? [0-9]+)?\<close>\<close>

definition digits1 :: "bytes \<Rightarrow> (bytes \<times> bytes) option" where
  "digits1 s = (let d = takeWhile is_digit s in if d = [] then None else Some (d, drop (length d) s))"

definition json_int_part :: "bytes \<Rightarrow> (bytes \<times> bytes) option" where
  "json_int_part s =
    (case s of
       [] \<Rightarrow> None
     | c # t \<Rightarrow> if c = CHR ''0'' then Some ([c], t) else digits1 s)"

definition json_frac_part :: "bytes \<Rightarrow> (bytes \<times> bytes) option" where
  "json_frac_part s =
    (case s of
       c # t \<Rightarrow> if c = CHR ''.'' then map_option (apfst (Cons c)) (digits1 t) else Some ([], s)
     | [] \<Rightarrow> Some ([], s))"

definition json_exp_part :: "bytes \<Rightarrow> (bytes \<times> bytes) option" where
  "json_exp_part s =
    (case s of
       c # t \<Rightarrow>
         if c = CHR ''e'' \<or> c = CHR ''E'' then
           (case t of
              sg # u \<Rightarrow>
                if sg = CHR ''+'' \<or> sg = CHR ''-'' then map_option (apfst (\<lambda>d. c # sg # d)) (digits1 u)
                else map_option (apfst (Cons c)) (digits1 t)
            | [] \<Rightarrow> None)
         else Some ([], s)
     | [] \<Rightarrow> Some ([], s))"

definition json_number :: "bytes \<Rightarrow> (bytes \<times> bytes) option" where
  "json_number s =
    do { let (sign, s1) = (case s of c # t \<Rightarrow> if c = CHR ''-'' then ([c], t) else ([], s) | [] \<Rightarrow> ([], s));
         (i, s2) \<leftarrow> json_int_part s1;
         (f, s3) \<leftarrow> json_frac_part s2;
         (e, s4) \<leftarrow> json_exp_part s3;
         Some (sign @ i @ f @ e, s4) }"

definition json_literal :: "bytes \<Rightarrow> (jtree \<times> bytes) option" where
  "json_literal s =
    (if HasPrefix s ''null'' then Some (TNull, drop 4 s)
     else if HasPrefix s ''true'' then Some (TBool True, drop 4 s)
     else if HasPrefix s ''false'' then Some (TBool False, drop 5 s)
     else map_option (apfst TNum) (json_number s))"

section \<open>Values\<close>

lemma length_skip_ws: "length (skip_ws s) \<le> length s"
  by (simp add: skip_ws_def length_dropWhile_le)

lemma skip_ws_Cons_length: "skip_ws s = c # t \<Longrightarrow> length t < length s"
  using length_skip_ws [of s] by simp

text \<open>\<open>d\<close> is how many more containers may be entered. \<open>json_elems\<close> starts after \<open>[\<close> or a comma,
  \<open>json_members\<close> after the opening brace or a comma.\<close>

function json_value :: "nat \<Rightarrow> bytes \<Rightarrow> (jtree \<times> bytes) option"
  and json_elems :: "nat \<Rightarrow> bytes \<Rightarrow> (jtree list \<times> bytes) option"
  and json_members :: "nat \<Rightarrow> bytes \<Rightarrow> ((bytes \<times> jtree) list \<times> bytes) option" where
  "json_value d s =
    (case skip_ws s of
       [] \<Rightarrow> None
     | c # t \<Rightarrow>
         if c = CHR ''{'' then
           (if d = 0 then None
            else case skip_ws t of
              [] \<Rightarrow> None
            | c2 # r \<Rightarrow> if c2 = CHR ''}'' then Some (TObj [], r)
                       else map_option (apfst TObj) (json_members (d - 1) t))
         else if c = CHR ''['' then
           (if d = 0 then None
            else case skip_ws t of
              [] \<Rightarrow> None
            | c2 # r \<Rightarrow> if c2 = CHR '']'' then Some (TArr [], r)
                       else map_option (apfst TArr) (json_elems (d - 1) t))
         else if c = QUOTE then map_option (apfst TStr) (json_unquote t)
         else json_literal (c # t))"
| "json_elems d s =
    (case json_value d s of
       None \<Rightarrow> None
     | Some (v, r) \<Rightarrow>
         (case skip_ws r of
            [] \<Rightarrow> None
          | c # r2 \<Rightarrow>
              if c = CHR '']'' then Some ([v], r2)
              else if c = CHR '','' \<and> length r2 < length s
              then map_option (apfst (Cons v)) (json_elems d r2)
              else None))"
| "json_members d s =
    (case skip_ws s of
       [] \<Rightarrow> None
     | q # t \<Rightarrow>
         if q \<noteq> QUOTE then None
         else case json_unquote t of
           None \<Rightarrow> None
         | Some (k, r) \<Rightarrow>
             (case skip_ws r of
                [] \<Rightarrow> None
              | colon # r1 \<Rightarrow>
                  if colon \<noteq> CHR '':'' \<or> \<not> length r1 < length s then None
                  else case json_value d r1 of
                    None \<Rightarrow> None
                  | Some (v, r2) \<Rightarrow>
                      (case skip_ws r2 of
                         [] \<Rightarrow> None
                       | c # r3 \<Rightarrow>
                           if c = CHR ''}'' then Some ([(k, v)], r3)
                           else if c = CHR '','' \<and> length r3 < length s
                           then map_option (apfst (Cons (k, v))) (json_members d r3)
                           else None)))"
  by pat_completeness auto
termination
proof (relation "inv_image (less_than <*lex*> less_than)
    (\<lambda>x. case x of Inl (d, s) \<Rightarrow> (length s, 0) | Inr (Inl (d, s)) \<Rightarrow> (length s, 1) | Inr (Inr (d, s)) \<Rightarrow> (length s, 1 :: nat))",
    goal_cases)
  case 2
  then show ?case by (simp add: skip_ws_Cons_length)
next
  case 3
  then show ?case by (simp add: skip_ws_Cons_length)
qed auto

declare json_value.simps [simp del] json_elems.simps [simp del] json_members.simps [simp del]

text \<open>A whole text: what \<^verbatim>\<open>json.Unmarshal\<close> accepts.\<close>

definition json_parse :: "bytes \<Rightarrow> jtree option" where
  "json_parse s =
    (case json_value maxNestingDepth s of
       None \<Rightarrow> None
     | Some (v, r) \<Rightarrow> if skip_ws r = [] then Some v else None)"

section \<open>Assignment to struct fields\<close>

text \<open>Case folding as in \<^verbatim>\<open>strings.EqualFold\<close> against an ASCII name: besides the ASCII letters, U+017F
  folds to S and U+212A to K.\<close>

definition fold_rune :: "nat \<Rightarrow> nat" where
  "fold_rune r = (if 97 \<le> r \<and> r \<le> 122 then r - 32 else if r = 0x17F then 83 else if r = 0x212A then 75 else r)"

definition equal_fold :: "bytes \<Rightarrow> bytes \<Rightarrow> bool" where
  "equal_fold a b \<longleftrightarrow> map fold_rune (runes a) = map fold_rune (runes b)"

text \<open>A field is its name and what assigning a value to it does; \<^const>\<open>None\<close> is an error. Every error
  makes the whole call fail, so the first one decides.\<close>

type_synonym 's jfield = "bytes \<times> (jtree \<Rightarrow> 's \<Rightarrow> 's option)"

definition find_field :: "'s jfield list \<Rightarrow> bytes \<Rightarrow> (jtree \<Rightarrow> 's \<Rightarrow> 's option) option" where
  "find_field fs key =
    (case find (\<lambda>f. fst f = key) fs of
       Some f \<Rightarrow> Some (snd f)
     | None \<Rightarrow> map_option snd (find (\<lambda>f. equal_fold (fst f) key) fs))"

fun assign_members :: "bool \<Rightarrow> 's jfield list \<Rightarrow> (bytes \<times> jtree) list \<Rightarrow> 's \<Rightarrow> 's option" where
  "assign_members disallowUnknown fs [] s = Some s"
| "assign_members disallowUnknown fs ((k, v) # kvs) s =
    (case find_field fs k of
       None \<Rightarrow> if disallowUnknown then None else assign_members disallowUnknown fs kvs s
     | Some assign \<Rightarrow> do { s1 \<leftarrow> assign v s; assign_members disallowUnknown fs kvs s1 })"

definition assign_struct :: "bool \<Rightarrow> 's jfield list \<Rightarrow> jtree \<Rightarrow> 's \<Rightarrow> 's option" where
  "assign_struct disallowUnknown fs v s =
    (case v of
       TNull \<Rightarrow> Some s
     | TObj kvs \<Rightarrow> assign_members disallowUnknown fs kvs s
     | _ \<Rightarrow> None)"

definition assign_string :: "(bytes \<Rightarrow> 's \<Rightarrow> 's) \<Rightarrow> jtree \<Rightarrow> 's \<Rightarrow> 's option" where
  "assign_string upd v s = (case v of TNull \<Rightarrow> Some s | TStr x \<Rightarrow> Some (upd x s) | _ \<Rightarrow> None)"

definition assign_bool :: "(bool \<Rightarrow> 's \<Rightarrow> 's) \<Rightarrow> jtree \<Rightarrow> 's \<Rightarrow> 's option" where
  "assign_bool upd v s = (case v of TNull \<Rightarrow> Some s | TBool x \<Rightarrow> Some (upd x s) | _ \<Rightarrow> None)"

text \<open>\<^verbatim>\<open>strconv.ParseInt(s, 10, 64)\<close> of the number's text.\<close>

definition assign_int :: "(int \<Rightarrow> 's \<Rightarrow> 's) \<Rightarrow> jtree \<Rightarrow> 's \<Rightarrow> 's option" where
  "assign_int upd v s =
    (case v of
       TNull \<Rightarrow> Some s
     | TNum x \<Rightarrow> (case Atoi x of Some i \<Rightarrow> Some (upd i s) | None \<Rightarrow> None)
     | _ \<Rightarrow> None)"

section \<open>What is written is read back\<close>

text \<open>The tree a written value is read as: undecodable bytes of a string come back as U+FFFD.\<close>

definition clean :: "bytes \<Rightarrow> bytes" where
  "clean s = runes_to_string (runes s)"

lemma clean_valid [simp]: "utf8_valid s \<Longrightarrow> clean s = s"
  by (simp add: clean_def utf8_valid_def)

fun tree_of :: "jval \<Rightarrow> jtree" where
  "tree_of JNull = TNull"
| "tree_of (JBool b) = TBool b"
| "tree_of (JInt i) = TNum (dec_int i)"
| "tree_of (JStr s) = TStr (clean s)"
| "tree_of (JArr vs) = TArr (map tree_of vs)"
| "tree_of (JObj kvs) = TObj (map (\<lambda>kv. (clean (fst kv), tree_of (snd kv))) kvs)"

fun jdepth :: "jval \<Rightarrow> nat" where
  "jdepth (JArr vs) = Suc (foldr (\<lambda>v n. max (jdepth v) n) vs 0)"
| "jdepth (JObj kvs) = Suc (foldr (\<lambda>kv n. max (jdepth (snd kv)) n) kvs 0)"
| "jdepth _ = 0"

lemma foldr_max_le: "foldr (\<lambda>v n. max (f v) n) vs 0 \<le> (k::nat) \<longleftrightarrow> (\<forall>v \<in> set vs. f v \<le> k)"
  by (induction vs) auto

text \<open>What may follow a value.\<close>

definition ends_value :: "bytes \<Rightarrow> bool" where
  "ends_value r \<longleftrightarrow> (case r of [] \<Rightarrow> True | c # _ \<Rightarrow> json_space c \<or> c = CHR '','' \<or> c = CHR '']'' \<or> c = CHR ''}'')"

lemma ends_value_simps [simp]:
  "ends_value []" "ends_value (CHR '','' # r)" "ends_value (CHR '']'' # r)" "ends_value (CHR ''}'' # r)" "ends_value (LF # r)"
  by (simp_all add: ends_value_def json_space_def)

lemma digit_not_space: "is_digit c \<Longrightarrow> \<not> json_space c"
  by (auto simp: is_digit_def in_range_def json_space_def)

lemma skip_ws_Cons [simp]: "\<not> json_space c \<Longrightarrow> skip_ws (c # t) = c # t"
  by (simp add: skip_ws_def)

lemma not_json_space [simp]:
  "\<not> json_space QUOTE" "\<not> json_space (CHR '','')" "\<not> json_space (CHR '':'')" "\<not> json_space (CHR ''['')" "\<not> json_space (CHR '']'')"
  "\<not> json_space (CHR ''{'')" "\<not> json_space (CHR ''}'')" "\<not> json_space (CHR ''n'')" "\<not> json_space (CHR ''t'')"
  "\<not> json_space (CHR ''f'')" "\<not> json_space (CHR ''-'')"
  by (simp_all add: json_space_def)

lemma dec_nat_head: "n \<noteq> 0 \<Longrightarrow> \<exists>c t. dec_nat n = c # t \<and> c \<noteq> CHR ''0'' \<and> is_digit c"
proof (induction n rule: dec_nat.induct)
  case (1 n)
  show ?case
  proof (cases "n < 10")
    case True
    have "digit_char n \<noteq> CHR ''0''" using True 1(2) of_char_digit_char [of n] by auto
    then show ?thesis using True is_digit_digit_char by (subst dec_nat.simps) simp
  next
    case False
    then have "n div 10 \<noteq> 0" by simp
    from "1.IH" [OF False this] show ?thesis using False by (subst dec_nat.simps) auto
  qed
qed

lemma ends_value_no_digit: "ends_value r \<Longrightarrow> takeWhile is_digit r = []"
  by (cases r) (auto simp: ends_value_def is_digit_def in_range_def json_space_def)

lemma ends_value_no_frac: "ends_value r \<Longrightarrow> json_frac_part r = Some ([], r) \<and> json_exp_part r = Some ([], r)"
  by (cases r) (auto simp: ends_value_def json_frac_part_def json_exp_part_def json_space_def)

lemma digits1_append:
  assumes "list_all is_digit d" "d \<noteq> []" "takeWhile is_digit r = []"
  shows "digits1 (d @ r) = Some (d, r)"
proof -
  have "takeWhile is_digit (d @ r) = d @ takeWhile is_digit r"
    using assms(1) by (intro takeWhile_append2) (simp add: list_all_iff)
  then have "takeWhile is_digit (d @ r) = d" using assms(3) by (simp del: takeWhile_append)
  then show ?thesis using assms(2) by (simp only: digits1_def Let_def if_False append_eq_conv_conj) simp
qed

lemma json_int_part_dec:
  assumes "ends_value r"
  shows "json_int_part (dec_nat n @ r) = Some (dec_nat n, r)"
proof (cases "n = 0")
  case True
  have "dec_nat 0 = ''0''" by (simp add: dec_nat.simps digit_char_def) code_simp
  then show ?thesis using True by (simp add: json_int_part_def)
next
  case False
  then obtain c t where c: "dec_nat n = c # t" "c \<noteq> CHR ''0''" using dec_nat_head by blast
  have "digits1 (dec_nat n @ r) = Some (dec_nat n, r)"
    using dec_nat_digits ends_value_no_digit [OF assms] by (intro digits1_append) simp_all
  then show ?thesis using c by (simp add: json_int_part_def)
qed

lemma dec_nat_Cons: "\<exists>c t. dec_nat n = c # t \<and> is_digit c"
  using dec_nat_digits [of n] by (cases "dec_nat n") auto

lemma dec_int_Cons: "\<exists>c t. dec_int i = c # t \<and> (is_digit c \<or> c = CHR ''-'')"
  using dec_nat_Cons [of "nat i"] by (auto simp: dec_int_def)

lemma json_number_dec:
  assumes "ends_value r"
  shows "json_number (dec_int i @ r) = Some (dec_int i, r)"
proof -
  note p = json_int_part_dec [OF assms] ends_value_no_frac [OF assms, THEN conjunct1]
    ends_value_no_frac [OF assms, THEN conjunct2]
  show ?thesis
  proof (cases "i < 0")
    case True
    then show ?thesis by (simp add: json_number_def dec_int_def p)
  next
    case False
    obtain c t where c: "dec_nat (nat i) = c # t" "is_digit c" using dec_nat_Cons by blast
    have "c \<noteq> CHR ''-''" using c(2) digit_not_sign by blast
    moreover have "json_int_part (c # t @ r) = Some (c # t, r)" using p(1) [of "nat i"] c(1) by simp
    ultimately show ?thesis using False c(1) by (simp add: json_number_def dec_int_def p(2,3))
  qed
qed

lemma json_value_int:
  assumes "ends_value r"
  shows "json_value d (dec_int i @ r) = Some (TNum (dec_int i), r)"
proof -
  obtain c t where c: "dec_int i = c # t" "is_digit c \<or> c = CHR ''-''" using dec_int_Cons by blast
  have "\<not> json_space c" "c \<noteq> CHR ''{''" "c \<noteq> CHR ''[''" "c \<noteq> QUOTE" "c \<noteq> CHR ''n''" "c \<noteq> CHR ''t''" "c \<noteq> CHR ''f''"
    using c(2) by (auto simp: is_digit_def in_range_def json_space_def)
  then show ?thesis using json_number_dec [OF assms, of i] unfolding c(1)
    by (subst json_value.simps) (simp add: json_literal_def HasPrefix_def)
qed

lemma json_value_string: "json_value d (json_string s @ r) = Some (TStr (clean s), r)"
  using json_unquote_json_chars [of s r]
  by (subst json_value.simps) (simp add: json_string_def clean_def)

lemma json_marshal_head: "\<exists>c t. json_marshal v = c # t \<and> \<not> json_space c \<and> c \<noteq> CHR '']'' \<and> c \<noteq> CHR ''}''"
proof (cases v)
  case (JInt i)
  obtain c t where c: "dec_int i = c # t" "is_digit c \<or> c = CHR ''-''" using dec_int_Cons by blast
  then show ?thesis using JInt by (auto simp: is_digit_def in_range_def json_space_def)
qed (auto simp: json_string_def)

lemma json_elems_commas:
  assumes "\<forall>v \<in> set vs. \<forall>r. ends_value r \<longrightarrow> json_value d (json_marshal v @ r) = Some (tree_of v, r)" "vs \<noteq> []"
  shows "json_elems d (commas (map json_marshal vs) @ CHR '']'' # r) = Some (map tree_of vs, r)"
  using assms
proof (induction vs)
  case (Cons v vs)
  then have v: "ends_value x \<Longrightarrow> json_value d (json_marshal v @ x) = Some (tree_of v, x)" for x by simp
  show ?case
  proof (cases vs)
    case Nil
    then show ?thesis using v [of "CHR '']'' # r"] by (subst json_elems.simps) simp
  next
    case (Cons v2 vs2)
    have ih: "json_elems d (commas (map json_marshal vs) @ CHR '']'' # r) = Some (map tree_of vs, r)"
      using Cons.IH Cons.prems Cons by simp
    have "commas (map json_marshal (v # vs)) @ CHR '']'' # r
        = json_marshal v @ CHR '','' # commas (map json_marshal vs) @ CHR '']'' # r"
      using Cons by simp
    then show ?thesis using v [of "CHR '','' # commas (map json_marshal vs) @ CHR '']'' # r"] ih
      by (subst json_elems.simps) simp
  qed
qed simp

definition json_member :: "bytes \<times> jval \<Rightarrow> bytes" where
  "json_member kv = json_string (fst kv) @ '':'' @ json_marshal (snd kv)"

lemma json_members_commas:
  assumes "\<forall>kv \<in> set kvs. \<forall>r. ends_value r \<longrightarrow> json_value d (json_marshal (snd kv) @ r) = Some (tree_of (snd kv), r)" "kvs \<noteq> []"
  shows "json_members d (commas (map json_member kvs) @ CHR ''}'' # r)
    = Some (map (\<lambda>kv. (clean (fst kv), tree_of (snd kv))) kvs, r)"
  using assms
proof (induction kvs)
  case (Cons kv kvs)
  then have v: "ends_value x \<Longrightarrow> json_value d (json_marshal (snd kv) @ x) = Some (tree_of (snd kv), x)" for x by simp
  have k: "json_unquote (json_chars (fst kv) @ QUOTE # x) = Some (clean (fst kv), x)" for x
    using json_unquote_json_chars unfolding clean_def .
  show ?case
  proof (cases kvs)
    case Nil
    have "commas (map json_member (kv # kvs)) @ CHR ''}'' # r
        = QUOTE # json_chars (fst kv) @ QUOTE # CHR '':'' # json_marshal (snd kv) @ CHR ''}'' # r"
      using Nil by (simp add: json_member_def json_string_def)
    then show ?thesis using Nil v [of "CHR ''}'' # r"] k by (subst json_members.simps) simp
  next
    case (Cons kv2 kvs2)
    let ?t = "commas (map json_member kvs) @ CHR ''}'' # r"
    have ih: "json_members d ?t = Some (map (\<lambda>kv. (clean (fst kv), tree_of (snd kv))) kvs, r)"
      using Cons.IH Cons.prems Cons by simp
    have "commas (map json_member (kv # kvs)) @ CHR ''}'' # r
        = QUOTE # json_chars (fst kv) @ QUOTE # CHR '':'' # json_marshal (snd kv) @ CHR '','' # ?t"
      using Cons by (simp add: json_member_def json_string_def)
    then show ?thesis using v [of "CHR '','' # ?t"] k ih by (subst json_members.simps) simp
  qed
qed simp

text \<open>Arrays and objects end by themselves, whatever follows.\<close>

fun container :: "jval \<Rightarrow> bool" where
  "container (JArr vs) = True"
| "container (JObj kvs) = True"
| "container _ = False"

lemma json_value_marshal:
  "jdepth v \<le> d \<Longrightarrow> container v \<or> ends_value r \<Longrightarrow> json_value d (json_marshal v @ r) = Some (tree_of v, r)"
proof (induction v arbitrary: d r)
  case JNull
  show ?case by (subst json_value.simps) (simp add: json_literal_def HasPrefix_def)
next
  case (JBool b)
  show ?case by (subst json_value.simps) (cases b; simp add: json_literal_def HasPrefix_def)
next
  case (JInt i)
  then show ?case by (simp add: json_value_int)
next
  case (JStr s)
  show ?case by (simp add: json_value_string)
next
  case (JArr vs)
  show ?case
  proof (cases vs)
    case Nil
    then show ?thesis using JArr.prems by (subst json_value.simps) simp
  next
    case (Cons v vs2)
    obtain d' where d: "d = Suc d'" using JArr.prems by (cases d) auto
    have "\<forall>v \<in> set vs. \<forall>r. ends_value r \<longrightarrow> json_value d' (json_marshal v @ r) = Some (tree_of v, r)"
      using JArr d by (simp add: foldr_max_le)
    from json_elems_commas [OF this, of r] Cons
    have e: "json_elems d' (commas (map json_marshal vs) @ CHR '']'' # r) = Some (map tree_of vs, r)" by simp
    obtain c t where c: "commas (map json_marshal vs) = c # t" "\<not> json_space c" "c \<noteq> CHR '']''"
      using json_marshal_head [of v] Cons by (cases vs2) auto
    have "json_marshal (JArr vs) @ r = CHR ''['' # commas (map json_marshal vs) @ CHR '']'' # r" by simp
    then show ?thesis using e c d by (subst json_value.simps) simp
  qed
next
  case (JObj kvs)
  have j: "json_marshal (JObj kvs) @ r = CHR ''{'' # commas (map json_member kvs) @ CHR ''}'' # r"
    by (simp add: json_member_def [abs_def])
  show ?case
  proof (cases kvs)
    case Nil
    then show ?thesis using JObj.prems by (subst json_value.simps) simp
  next
    case (Cons kv kvs2)
    obtain d' where d: "d = Suc d'" using JObj.prems by (cases d) auto
    have "\<forall>kv \<in> set kvs. \<forall>r. ends_value r \<longrightarrow> json_value d' (json_marshal (snd kv) @ r) = Some (tree_of (snd kv), r)"
      using JObj d by (auto simp: foldr_max_le snds.simps)
    from json_members_commas [OF this, of r] Cons
    have e: "json_members d' (commas (map json_member kvs) @ CHR ''}'' # r)
        = Some (map (\<lambda>kv. (clean (fst kv), tree_of (snd kv))) kvs, r)" by simp
    obtain t where c: "commas (map json_member kvs) = QUOTE # t"
      using Cons by (cases kvs2) (auto simp: json_member_def json_string_def)
    show ?thesis unfolding j using e c d by (subst json_value.simps) simp
  qed
qed

lemma json_parse_marshal: "jdepth v \<le> maxNestingDepth \<Longrightarrow> json_parse (json_marshal v) = Some (tree_of v)"
  using json_value_marshal [of v maxNestingDepth "[]"] by (simp add: json_parse_def skip_ws_def)

end
