(* ===== verification/Config.thy ===== *)
theory Config
  imports ConfigFile JsonDecode
begin

text \<open>
  \<^verbatim>\<open>internal/config\<close>: the configuration, how it is read from a file, checked and completed.

  The structs of the four plain services have the same fields and are one record, extended for Redis
  and Elasticsearch. The decoder stops after the first JSON value and does not look at what follows; it
  is strict about unknown keys.
\<close>

section \<open>Structs\<close>

record service =
  Enabled :: bool
  Port :: int
  Version :: bytes

record redis_service = service +
  RequirePass :: bytes

record es_service = service +
  ClusterName :: bytes
  NodeName :: bytes

record webhook_config =
  WhEnabled :: bool
  URL :: bytes
  AuthHeader :: bytes
  TLSVerify :: bool

record Config =
  ListenAddr :: bytes
  LogFile :: bytes
  MaxConnections :: int
  ConnectionTimeoutSecs :: int
  MaxRequestBodyBytes :: int
  cfgRedis :: redis_service
  cfgMySQL :: service
  cfgPostgres :: service
  cfgMongoDB :: service
  cfgElasticsearch :: es_service
  cfgCouchDB :: service
  cfgWebhook :: webhook_config

definition zero_service :: service where
  "zero_service = \<lparr>Enabled = False, Port = 0, Version = []\<rparr>"

definition zero_Config :: Config where
  "zero_Config = \<lparr>ListenAddr = [], LogFile = [], MaxConnections = 0, ConnectionTimeoutSecs = 0, MaxRequestBodyBytes = 0,
     cfgRedis = service.extend zero_service (redis_service.fields []),
     cfgMySQL = zero_service, cfgPostgres = zero_service, cfgMongoDB = zero_service,
     cfgElasticsearch = service.extend zero_service (es_service.fields [] []),
     cfgCouchDB = zero_service,
     cfgWebhook = \<lparr>WhEnabled = False, URL = [], AuthHeader = [], TLSVerify = False\<rparr>\<rparr>"

section \<open>Decoding\<close>

definition service_fields :: "'a service_scheme jfield list" where
  "service_fields =
    [(''enabled'', assign_bool (\<lambda>x c. c\<lparr>Enabled := x\<rparr>)),
     (''port'', assign_int (\<lambda>x c. c\<lparr>Port := x\<rparr>)),
     (''version'', assign_string (\<lambda>x c. c\<lparr>Version := x\<rparr>))]"

definition redis_fields :: "redis_service jfield list" where
  "redis_fields = service_fields @ [(''require_pass'', assign_string (\<lambda>x c. c\<lparr>RequirePass := x\<rparr>))]"

definition es_fields :: "es_service jfield list" where
  "es_fields = service_fields @
    [(''cluster_name'', assign_string (\<lambda>x c. c\<lparr>ClusterName := x\<rparr>)),
     (''node_name'', assign_string (\<lambda>x c. c\<lparr>NodeName := x\<rparr>))]"

definition webhook_fields :: "webhook_config jfield list" where
  "webhook_fields =
    [(''enabled'', assign_bool (\<lambda>x c. c\<lparr>WhEnabled := x\<rparr>)),
     (''url'', assign_string (\<lambda>x c. c\<lparr>URL := x\<rparr>)),
     (''auth_header'', assign_string (\<lambda>x c. c\<lparr>AuthHeader := x\<rparr>)),
     (''tls_verify'', assign_bool (\<lambda>x c. c\<lparr>TLSVerify := x\<rparr>))]"

text \<open>A struct inside a struct is decoded into what is already there.\<close>

definition assign_nested ::
  "'t jfield list \<Rightarrow> ('s \<Rightarrow> 't) \<Rightarrow> ('t \<Rightarrow> 's \<Rightarrow> 's) \<Rightarrow> jtree \<Rightarrow> 's \<Rightarrow> 's option" where
  "assign_nested fs get upd v c = map_option (\<lambda>x. upd x c) (assign_struct True fs v (get c))"

definition config_fields :: "Config jfield list" where
  "config_fields =
    [(''listen_addr'', assign_string (\<lambda>x c. c\<lparr>ListenAddr := x\<rparr>)),
     (''log_file'', assign_string (\<lambda>x c. c\<lparr>LogFile := x\<rparr>)),
     (''max_connections'', assign_int (\<lambda>x c. c\<lparr>MaxConnections := x\<rparr>)),
     (''connection_timeout_seconds'', assign_int (\<lambda>x c. c\<lparr>ConnectionTimeoutSecs := x\<rparr>)),
     (''max_request_body_bytes'', assign_int (\<lambda>x c. c\<lparr>MaxRequestBodyBytes := x\<rparr>)),
     (''redis'', assign_nested redis_fields cfgRedis (\<lambda>x c. c\<lparr>cfgRedis := x\<rparr>)),
     (''mysql'', assign_nested service_fields cfgMySQL (\<lambda>x c. c\<lparr>cfgMySQL := x\<rparr>)),
     (''postgres'', assign_nested service_fields cfgPostgres (\<lambda>x c. c\<lparr>cfgPostgres := x\<rparr>)),
     (''mongodb'', assign_nested service_fields cfgMongoDB (\<lambda>x c. c\<lparr>cfgMongoDB := x\<rparr>)),
     (''elasticsearch'', assign_nested es_fields cfgElasticsearch (\<lambda>x c. c\<lparr>cfgElasticsearch := x\<rparr>)),
     (''couchdb'', assign_nested service_fields cfgCouchDB (\<lambda>x c. c\<lparr>cfgCouchDB := x\<rparr>)),
     (''webhook'', assign_nested webhook_fields cfgWebhook (\<lambda>x c. c\<lparr>cfgWebhook := x\<rparr>))]"

definition config_limit :: nat where "config_limit = 2 ^ 20"

text \<open>
  The decoder reads as much as it needs of the first \<open>config_limit\<close> bytes, which is what the reader of theory
  \<open>ConfigFile\<close> delivers; beyond them the reader reports an error where a shorter file reports its end. Only a value that is not an object or an array
  needs to see the end: of those \<^verbatim>\<open>null\<close> alone is accepted for a struct.
\<close>

definition decode_config :: "bytes \<Rightarrow> Config option" where
  "decode_config content =
    (case json_value maxNestingDepth (take config_limit content) of
       None \<Rightarrow> None
     | Some (v, r) \<Rightarrow>
         if v = TNull \<and> r = [] \<and> config_limit \<le> length content then None
         else assign_struct True config_fields v zero_Config)"

section \<open>Checking and completing\<close>

definition validate :: "Config \<Rightarrow> goerr option" where
  "validate c =
    (if MaxConnections c < 0 then Some (ErrorS ''max_connections must be >= 0'')
     else if ConnectionTimeoutSecs c < 0 then Some (ErrorS ''connection_timeout_seconds must be >= 0'')
     else if MaxRequestBodyBytes c < 0 then Some (ErrorS ''max_request_body_bytes must be >= 0'')
     else if WhEnabled (cfgWebhook c) \<and> URL (cfgWebhook c) = []
       then Some (ErrorS ''webhook.url required when webhook.enabled is true'')
     else None)"

definition or_int :: "int \<Rightarrow> int \<Rightarrow> int" where
  "or_int d x = (if x = 0 then d else x)"

definition or_string :: "bytes \<Rightarrow> bytes \<Rightarrow> bytes" where
  "or_string d s = (if s = [] then d else s)"

definition service_defaults :: "int \<Rightarrow> bytes \<Rightarrow> 'a service_scheme \<Rightarrow> 'a service_scheme" where
  "service_defaults port version s = s\<lparr>Port := or_int port (Port s), Version := or_string version (Version s)\<rparr>"

definition applyDefaults :: "Config \<Rightarrow> Config" where
  "applyDefaults c = c\<lparr>
     ListenAddr := or_string ''0.0.0.0'' (ListenAddr c),
     LogFile := or_string ''tacoma-events.json'' (LogFile c),
     MaxConnections := or_int 200 (MaxConnections c),
     ConnectionTimeoutSecs := or_int 30 (ConnectionTimeoutSecs c),
     MaxRequestBodyBytes := or_int (2 ^ 20) (MaxRequestBodyBytes c),
     cfgRedis := service_defaults 6379 ''7.2.4'' (cfgRedis c),
     cfgMySQL := service_defaults 3306 ''8.0.36'' (cfgMySQL c),
     cfgPostgres := service_defaults 5432 ''16.2'' (cfgPostgres c),
     cfgMongoDB := service_defaults 27017 ''7.0.8'' (cfgMongoDB c),
     cfgElasticsearch := (service_defaults 9200 ''8.13.2'' (cfgElasticsearch c))\<lparr>
       ClusterName := or_string ''production'' (ClusterName (cfgElasticsearch c)),
       NodeName := or_string ''node-1'' (NodeName (cfgElasticsearch c))\<rparr>,
     cfgCouchDB := service_defaults 5984 ''3.3.3'' (cfgCouchDB c)\<rparr>"

text \<open>\<open>opened\<close> is the outcome of opening the file: an error, or its content.\<close>

definition Load :: "goerr + bytes \<Rightarrow> goerr + Config" where
  "Load opened =
    (case opened of
       Inl e \<Rightarrow> Inl (ErrorS ''open config'')
     | Inr content \<Rightarrow>
         (case decode_config content of
            None \<Rightarrow> Inl (ErrorS ''parse config'')
          | Some cfg \<Rightarrow>
              (case validate cfg of
                 Some e \<Rightarrow> Inl (ErrorS ''invalid config'')
               | None \<Rightarrow> Inr (applyDefaults cfg))))"

section \<open>What a loaded configuration guarantees\<close>

definition service_set :: "'a service_scheme \<Rightarrow> bool" where
  "service_set s \<longleftrightarrow> Port s \<noteq> 0 \<and> Version s \<noteq> []"

definition usable :: "Config \<Rightarrow> bool" where
  "usable c \<longleftrightarrow> ListenAddr c \<noteq> [] \<and> LogFile c \<noteq> [] \<and> 0 < MaxConnections c \<and> 0 < ConnectionTimeoutSecs c
     \<and> 0 < MaxRequestBodyBytes c \<and> service_set (cfgRedis c) \<and> service_set (cfgMySQL c) \<and> service_set (cfgPostgres c)
     \<and> service_set (cfgMongoDB c) \<and> service_set (cfgElasticsearch c) \<and> service_set (cfgCouchDB c)
     \<and> ClusterName (cfgElasticsearch c) \<noteq> [] \<and> NodeName (cfgElasticsearch c) \<noteq> []
     \<and> (WhEnabled (cfgWebhook c) \<longrightarrow> URL (cfgWebhook c) \<noteq> [])"

lemma or_int_simps [simp]: "d \<noteq> 0 \<Longrightarrow> or_int d x \<noteq> 0" "0 < d \<Longrightarrow> 0 \<le> x \<Longrightarrow> 0 < or_int d x"
  "or_int d (or_int d x) = or_int d x" "x \<noteq> 0 \<Longrightarrow> or_int d x = x"
  by (simp_all add: or_int_def)

lemma or_string_simps [simp]: "d \<noteq> [] \<Longrightarrow> or_string d s \<noteq> []" "or_string d (or_string d s) = or_string d s"
  "s \<noteq> [] \<Longrightarrow> or_string d s = s"
  by (simp_all add: or_string_def)

lemma service_defaults_set [simp]: "p \<noteq> 0 \<Longrightarrow> v \<noteq> [] \<Longrightarrow> service_set (service_defaults p v s)"
  by (simp add: service_set_def service_defaults_def)

lemma service_set_more [simp]: "service_set ((s :: es_service)\<lparr>ClusterName := c\<rparr>) = service_set s"
    "service_set (s\<lparr>NodeName := n\<rparr>) = service_set s"
  by (simp_all add: service_set_def)

lemma validate_None: "validate c = None \<longleftrightarrow> 0 \<le> MaxConnections c \<and> 0 \<le> ConnectionTimeoutSecs c
    \<and> 0 \<le> MaxRequestBodyBytes c \<and> (WhEnabled (cfgWebhook c) \<longrightarrow> URL (cfgWebhook c) \<noteq> [])"
  by (auto simp: validate_def)

lemma applyDefaults_usable: "validate c = None \<Longrightarrow> usable (applyDefaults c)"
  by (simp add: usable_def applyDefaults_def validate_None)

lemma Load_usable: "Load opened = Inr c \<Longrightarrow> usable c"
  by (auto simp: Load_def applyDefaults_usable split: sum.splits option.splits)

text \<open>C22. A configuration that loads can be served with: every limit is positive, every address, port and
  version the services use is set, and a webhook that is enabled has a URL.\<close>

theorem Load_result_usable: "Load opened = Inr c \<Longrightarrow> usable c"
  by (rule Load_usable)

section \<open>A configuration written as JSON loads as itself\<close>

definition service_json :: "'a service_scheme \<Rightarrow> (bytes \<times> jval) list" where
  "service_json s = [(''enabled'', JBool (Enabled s)), (''port'', JInt (Port s)), (''version'', JStr (Version s))]"

definition config_json :: "Config \<Rightarrow> jval" where
  "config_json c = JObj
    [(''listen_addr'', JStr (ListenAddr c)),
     (''log_file'', JStr (LogFile c)),
     (''max_connections'', JInt (MaxConnections c)),
     (''connection_timeout_seconds'', JInt (ConnectionTimeoutSecs c)),
     (''max_request_body_bytes'', JInt (MaxRequestBodyBytes c)),
     (''redis'', JObj (service_json (cfgRedis c) @ [(''require_pass'', JStr (RequirePass (cfgRedis c)))])),
     (''mysql'', JObj (service_json (cfgMySQL c))),
     (''postgres'', JObj (service_json (cfgPostgres c))),
     (''mongodb'', JObj (service_json (cfgMongoDB c))),
     (''elasticsearch'', JObj (service_json (cfgElasticsearch c)
        @ [(''cluster_name'', JStr (ClusterName (cfgElasticsearch c))), (''node_name'', JStr (NodeName (cfgElasticsearch c)))])),
     (''couchdb'', JObj (service_json (cfgCouchDB c))),
     (''webhook'', JObj [(''enabled'', JBool (WhEnabled (cfgWebhook c))), (''url'', JStr (URL (cfgWebhook c))),
        (''auth_header'', JStr (AuthHeader (cfgWebhook c))), (''tls_verify'', JBool (TLSVerify (cfgWebhook c)))])]"

definition int64_ok :: "int \<Rightarrow> bool" where
  "int64_ok i \<longleftrightarrow> - (2 ^ 63) \<le> i \<and> i < 2 ^ 63"

definition service_text :: "'a service_scheme \<Rightarrow> bool" where
  "service_text s \<longleftrightarrow> int64_ok (Port s) \<and> utf8_valid (Version s)"

definition config_text :: "Config \<Rightarrow> bool" where
  "config_text c \<longleftrightarrow> list_all utf8_valid [ListenAddr c, LogFile c, RequirePass (cfgRedis c), ClusterName (cfgElasticsearch c),
       NodeName (cfgElasticsearch c), URL (cfgWebhook c), AuthHeader (cfgWebhook c)]
     \<and> list_all int64_ok [MaxConnections c, ConnectionTimeoutSecs c, MaxRequestBodyBytes c]
     \<and> service_text (cfgRedis c) \<and> service_text (cfgMySQL c) \<and> service_text (cfgPostgres c)
     \<and> service_text (cfgMongoDB c) \<and> service_text (cfgElasticsearch c) \<and> service_text (cfgCouchDB c)"

lemma Atoi_int64: "int64_ok i \<Longrightarrow> Atoi (dec_int i) = Some i"
  by (simp add: int64_ok_def Atoi_dec_int)

lemma clean_keys:
  "clean ''enabled'' = ''enabled''" "clean ''port'' = ''port''" "clean ''version'' = ''version''"
  "clean ''require_pass'' = ''require_pass''" "clean ''cluster_name'' = ''cluster_name''" "clean ''node_name'' = ''node_name''"
  "clean ''url'' = ''url''" "clean ''auth_header'' = ''auth_header''" "clean ''tls_verify'' = ''tls_verify''"
  "clean ''listen_addr'' = ''listen_addr''" "clean ''log_file'' = ''log_file''" "clean ''max_connections'' = ''max_connections''"
  "clean ''connection_timeout_seconds'' = ''connection_timeout_seconds''" "clean ''max_request_body_bytes'' = ''max_request_body_bytes''"
  "clean ''redis'' = ''redis''" "clean ''mysql'' = ''mysql''" "clean ''postgres'' = ''postgres''" "clean ''mongodb'' = ''mongodb''"
  "clean ''elasticsearch'' = ''elasticsearch''" "clean ''couchdb'' = ''couchdb''" "clean ''webhook'' = ''webhook''"
  by (rule clean_valid, rule utf8_valid_ascii, simp)+

lemmas assign_simps = assign_struct_def assign_string_def assign_bool_def assign_int_def

lemma find_field_hit: "find_field ((k, f) # fs) k = Some f"
  by (simp add: find_field_def)

lemma find_field_skip: "k' \<noteq> k \<Longrightarrow> k \<in> fst ` set fs \<Longrightarrow> find_field ((k', f) # fs) k = find_field fs k"
  by (cases "find (\<lambda>f. fst f = k) fs") (force simp: find_field_def find_None_iff)+

lemma service_read:
  fixes s :: service
  assumes "service_text s"
  shows "assign_struct True service_fields (tree_of (JObj (service_json s))) z = Some s"
  using assms
  by (cases s) (simp add: assign_simps service_json_def service_fields_def service_text_def clean_keys find_field_hit find_field_skip
      Atoi_int64)

lemma redis_service_read:
  assumes "service_text s" "utf8_valid (RequirePass s)"
  shows "assign_struct True redis_fields (tree_of (JObj (service_json s @ [(''require_pass'', JStr (RequirePass s))]))) z = Some s"
  using assms
  by (cases s) (simp add: assign_simps service_json_def redis_fields_def service_fields_def service_text_def clean_keys
      find_field_hit find_field_skip Atoi_int64)

lemma es_service_read:
  assumes "service_text s" "utf8_valid (ClusterName s)" "utf8_valid (NodeName s)"
  shows "assign_struct True es_fields (tree_of (JObj (service_json s
    @ [(''cluster_name'', JStr (ClusterName s)), (''node_name'', JStr (NodeName s))]))) z = Some s"
  using assms
  by (cases s) (simp add: assign_simps service_json_def es_fields_def service_fields_def service_text_def clean_keys
      find_field_hit find_field_skip Atoi_int64)

lemma webhook_read:
  assumes "utf8_valid (URL s)" "utf8_valid (AuthHeader s)"
  shows "assign_struct True webhook_fields (tree_of (JObj [(''enabled'', JBool (WhEnabled s)), (''url'', JStr (URL s)),
        (''auth_header'', JStr (AuthHeader s)), (''tls_verify'', JBool (TLSVerify s))])) z = Some s"
  using assms
  by (cases s) (simp add: assign_simps webhook_fields_def clean_keys find_field_hit find_field_skip)

lemma config_read:
  assumes "config_text c"
  shows "assign_struct True config_fields (tree_of (config_json c)) z = Some c"
proof -
  have t: "service_text (cfgRedis c)" "service_text (cfgMySQL c)" "service_text (cfgPostgres c)" "service_text (cfgMongoDB c)"
      "service_text (cfgElasticsearch c)" "service_text (cfgCouchDB c)" "utf8_valid (ListenAddr c)" "utf8_valid (LogFile c)"
      "utf8_valid (RequirePass (cfgRedis c))" "utf8_valid (ClusterName (cfgElasticsearch c))"
      "utf8_valid (NodeName (cfgElasticsearch c))" "utf8_valid (URL (cfgWebhook c))" "utf8_valid (AuthHeader (cfgWebhook c))"
      "int64_ok (MaxConnections c)" "int64_ok (ConnectionTimeoutSecs c)" "int64_ok (MaxRequestBodyBytes c)"
    using assms by (simp_all add: config_text_def)
  note reads = service_read [OF t(2)] service_read [OF t(3)] service_read [OF t(4)] service_read [OF t(6)]
    redis_service_read [OF t(1,9)] es_service_read [OF t(5,10,11)] webhook_read [OF t(12,13)]
  have "assign_members True config_fields (map (\<lambda>kv. (clean (fst kv), tree_of (snd kv)))
      (case config_json c of JObj kvs \<Rightarrow> kvs | _ \<Rightarrow> [])) z = Some c"
    unfolding config_json_def jval.case list.map fst_conv snd_conv clean_keys config_fields_def
    by (simp add: find_field_hit find_field_skip assign_nested_def reads assign_string_def assign_int_def t Atoi_int64
      del: tree_of.simps(6))
  then show ?thesis by (simp add: config_json_def assign_struct_def)
qed

lemma Load_written:
  assumes "config_text c" "validate c = None" "length (json_marshal (config_json c)) \<le> config_limit"
  shows "Load (Inr (json_marshal (config_json c) @ rest)) = Inr (applyDefaults c)"
proof -
  let ?j = "json_marshal (config_json c)"
  have d: "jdepth (config_json c) \<le> maxNestingDepth"
    by (simp add: config_json_def service_json_def maxNestingDepth_def)
  have "json_value maxNestingDepth (?j @ take (config_limit - length ?j) rest)
      = Some (tree_of (config_json c), take (config_limit - length ?j) rest)"
    by (rule json_value_marshal [OF d]) (simp add: config_json_def)
  moreover have "take config_limit (?j @ rest) = ?j @ take (config_limit - length ?j) rest"
    using assms(3) by (simp add: take_append)
  moreover have "tree_of (config_json c) \<noteq> TNull" by (simp add: config_json_def)
  ultimately have "decode_config (?j @ rest) = Some c"
    unfolding decode_config_def using config_read [OF assms(1), of zero_Config] by simp
  then show ?thesis using assms(2) by (simp add: Load_def)
qed

text \<open>C20. A configuration written as JSON loads as itself with the defaults filled in, whatever comes
  after it in the file, if it passes the checks and fits the first megabyte.\<close>

theorem Load_roundtrip:
  assumes "config_text c" "validate c = None" "length (json_marshal (config_json c)) \<le> config_limit"
  shows "Load (Inr (json_marshal (config_json c) @ rest)) = Inr (applyDefaults c)"
  using assms by (rule Load_written)

definition sample_cfg :: Config where
  "sample_cfg = zero_Config\<lparr>MaxConnections := 7, cfgMongoDB := \<lparr>Enabled = True, Port = 0, Version = []\<rparr>\<rparr>"

lemma sample_config:
  "config_text sample_cfg" "validate sample_cfg = None"
  "length (json_marshal (config_json sample_cfg)) \<le> config_limit"
proof -
  show "config_text sample_cfg"
    by (simp add: sample_cfg_def config_text_def zero_Config_def zero_service_def service_text_def int64_ok_def utf8_valid_def
        service.defs redis_service.defs es_service.defs)
  show "validate sample_cfg = None" by (simp add: sample_cfg_def validate_None zero_Config_def)
  have "length (json_marshal (config_json sample_cfg)) \<le> 2000" by code_simp
  then show "length (json_marshal (config_json sample_cfg)) \<le> config_limit"
    by (simp add: config_limit_def)
qed

theorem Load_roundtrip_witness:
  "Load (Inr (json_marshal (config_json sample_cfg) @ ''garbage''))
    = Inr (applyDefaults sample_cfg)"
  by (rule Load_roundtrip [OF sample_config])

theorem Load_result_usable_witness: "usable (applyDefaults sample_cfg)"
  by (rule Load_result_usable [OF Load_written [OF sample_config, of "''garbage''"]])

section \<open>Strictness\<close>

lemma assign_members_unknown:
  "(k, v) \<in> set kvs \<Longrightarrow> find_field fs k = None \<Longrightarrow> assign_members True fs kvs s = None"
proof (induction kvs arbitrary: s)
  case (Cons kv kvs)
  obtain k' v' where kv: "kv = (k', v')" by fastforce
  show ?case
  proof (cases "find_field fs k'")
    case None
    then show ?thesis by (simp add: kv)
  next
    case (Some f)
    then have "(k, v) \<in> set kvs" using Cons.prems kv by auto
    then show ?thesis using Cons.IH Cons.prems(2) Some kv by (cases "f v' s") simp_all
  qed
qed simp

text \<open>The options there are: those of the whole program, and those of each of its sections.\<close>

definition config_sections :: "(bytes \<times> bytes list) list" where
  "config_sections =
    [(''redis'', [''enabled'', ''port'', ''version'', ''require_pass'']),
     (''mysql'', [''enabled'', ''port'', ''version'']),
     (''postgres'', [''enabled'', ''port'', ''version'']),
     (''mongodb'', [''enabled'', ''port'', ''version'']),
     (''elasticsearch'', [''enabled'', ''port'', ''version'', ''cluster_name'', ''node_name'']),
     (''couchdb'', [''enabled'', ''port'', ''version'']),
     (''webhook'', [''enabled'', ''url'', ''auth_header'', ''tls_verify''])]"

definition config_options :: "bytes list" where
  "config_options = [''listen_addr'', ''log_file'', ''max_connections'', ''connection_timeout_seconds'', ''max_request_body_bytes'']
     @ map fst config_sections"

lemma find_field_unknown: "\<forall>opt \<in> set (map fst fs). \<not> equal_fold opt k \<Longrightarrow> find_field fs k = None"
proof -
  assume a: "\<forall>opt \<in> set (map fst fs). \<not> equal_fold opt k"
  have "find (\<lambda>f. fst f = k) fs = None" "find (\<lambda>f. equal_fold (fst f) k) fs = None"
    unfolding find_None_iff using a by (auto simp: equal_fold_def)
  then show ?thesis by (simp add: find_field_def)
qed

lemma find_field_known:
  assumes "distinct (map (\<lambda>f. map fold_rune (runes (fst f))) fs)" "(opt, f) \<in> set fs" "equal_fold opt k"
  shows "find_field fs k = Some f"
proof -
  have i: "inj_on (\<lambda>f. map fold_rune (runes (fst f))) (set fs)" using assms(1) by (simp add: distinct_map)
  have u: "g = (opt, f)" if "g \<in> set fs" "equal_fold (fst g) k" for g
    using that assms(3) by (intro inj_onD [OF i _ _ assms(2)]) (simp_all add: equal_fold_def)
  show ?thesis
  proof (cases "find (\<lambda>g. fst g = k) fs")
    case (Some g)
    then have "g \<in> set fs" "fst g = k" by (auto simp: find_Some_iff)
    then show ?thesis using Some u [of g] by (simp add: find_field_def equal_fold_def)
  next
    case None
    obtain g where g: "find (\<lambda>g. equal_fold (fst g) k) fs = Some g"
      using assms(2,3) by (cases "find (\<lambda>g. equal_fold (fst g) k) fs") (auto simp: find_None_iff)
    then have "g \<in> set fs" "equal_fold (fst g) k" by (auto simp: find_Some_iff)
    then show ?thesis using None g u [of g] by (simp add: find_field_def)
  qed
qed

lemma config_field_names:
  "map fst config_fields = config_options" "distinct (map (\<lambda>f. map fold_rune (runes (fst f))) config_fields)"
  by (simp_all add: config_fields_def config_options_def config_sections_def runes_ascii fold_rune_def)

lemma assign_nested_unknown:
  "(k, v) \<in> set kvs \<Longrightarrow> \<forall>opt \<in> set (map fst fs). \<not> equal_fold opt k \<Longrightarrow> assign_nested fs get upd (TObj kvs) c = None"
  by (simp only: assign_nested_def assign_struct_def jtree.case assign_members_unknown find_field_unknown option.map)

lemma section_unknown:
  assumes "(sec, options) \<in> set config_sections" "(k, v) \<in> set kvs" "\<forall>opt \<in> set options. \<not> equal_fold opt k"
  shows "\<exists>f. (sec, f) \<in> set config_fields \<and> (\<forall>c. f (TObj kvs) c = None)"
proof -
  have n: "map fst redis_fields = [''enabled'', ''port'', ''version'', ''require_pass'']"
      "map fst service_fields = [''enabled'', ''port'', ''version'']"
      "map fst es_fields = [''enabled'', ''port'', ''version'', ''cluster_name'', ''node_name'']"
      "map fst webhook_fields = [''enabled'', ''url'', ''auth_header'', ''tls_verify'']"
    by (simp_all add: redis_fields_def es_fields_def webhook_fields_def service_fields_def)
  have f: "options = map fst redis_fields \<Longrightarrow> assign_nested redis_fields g1 u1 (TObj kvs) c = None"
      "options = map fst (service_fields :: service jfield list) \<Longrightarrow> assign_nested service_fields g2 u2 (TObj kvs) c = None"
      "options = map fst es_fields \<Longrightarrow> assign_nested es_fields g3 u3 (TObj kvs) c = None"
      "options = map fst webhook_fields \<Longrightarrow> assign_nested webhook_fields g4 u4 (TObj kvs) c = None"
    for g1 g3 g4 u1 u3 u4 c and g2 :: "Config \<Rightarrow> service" and u2
    using assms(3) by (simp_all only: assign_nested_unknown [OF assms(2)])
  show ?thesis using assms(1) unfolding config_sections_def list.set insert_iff empty_iff prod.inject
    by (elim disjE conjE FalseE) (simp_all add: config_fields_def f n)
qed

lemma assign_members_fails:
  assumes "(k, v) \<in> set kvs" "find_field fs k = Some f" "\<forall>s. f v s = None"
  shows "assign_members True fs kvs s = None"
  using assms(1)
proof (induction kvs arbitrary: s)
  case (Cons kv kvs)
  obtain k' v' where kv: "kv = (k', v')" by fastforce
  show ?case
  proof (cases "kv = (k, v)")
    case True
    then show ?thesis using assms(2,3) by simp
  next
    case False
    then have "assign_members True fs kvs s' = None" for s' using Cons by auto
    then show ?thesis by (auto simp: kv split: option.split Option.bind_split)
  qed
qed simp

text \<open>C23. A misspelt option is an error and never silently ignored: a configuration does not load when a key
  names no option, in any spelling of upper and lower case, whether it stands in the configuration object itself
  or in one of its seven sections.\<close>

theorem Load_rejects_unknown_key:
  assumes "json_value maxNestingDepth (take config_limit content) = Some (TObj kvs, r)" "(k, v) \<in> set kvs"
    and "(\<forall>opt \<in> set config_options. \<not> equal_fold opt k)
      \<or> (\<exists>sec options members k' v'. (sec, options) \<in> set config_sections \<and> equal_fold sec k
          \<and> v = TObj members \<and> (k', v') \<in> set members \<and> (\<forall>opt \<in> set options. \<not> equal_fold opt k'))"
  shows "Load (Inr content) = Inl (ErrorS ''parse config'')"
proof -
  have "assign_members True config_fields kvs s = None" for s
    using assms(3)
  proof (elim disjE exE conjE)
    assume "\<forall>opt \<in> set config_options. \<not> equal_fold opt k"
    then have "find_field config_fields k = None" by (intro find_field_unknown) (simp only: config_field_names)
    then show ?thesis by (rule assign_members_unknown [OF assms(2)])
  next
    fix sec options members k' v'
    assume a: "(sec, options) \<in> set config_sections" "equal_fold sec k" "v = TObj members" "(k', v') \<in> set members"
      "\<forall>opt \<in> set options. \<not> equal_fold opt k'"
    obtain f where f: "(sec, f) \<in> set config_fields" "\<forall>c. f v c = None" using section_unknown [OF a(1,4,5)] a(3) by blast
    show ?thesis by (rule assign_members_fails [OF assms(2) find_field_known [OF config_field_names(2) f(1) a(2)] f(2)])
  qed
  then show ?thesis by (simp add: Load_def decode_config_def assms(1) assign_struct_def)
qed

text \<open>A misspelt port of the Redis section.\<close>

theorem Load_rejects_unknown_key_witness:
  "Load (Inr (json_marshal (JObj [(''redis'', JObj [(''prot'', JInt 1)])]) @ [LF])) = Inl (ErrorS ''parse config'')"
proof -
  let ?v = "JObj [(''redis'', JObj [(''prot'', JInt 1)])]"
  have "length (json_marshal ?v @ [LF]) \<le> 100" by code_simp
  then have t: "take config_limit (json_marshal ?v @ [LF]) = json_marshal ?v @ [LF]" by (simp add: config_limit_def)
  have c: "clean ''redis'' = ''redis''" "clean ''prot'' = ''prot''" by (rule clean_valid, rule utf8_valid_ascii, simp)+
  have "json_value maxNestingDepth (json_marshal ?v @ [LF]) = Some (tree_of ?v, [LF])"
    by (rule json_value_marshal) (simp_all add: maxNestingDepth_def)
  then have j: "json_value maxNestingDepth (take config_limit (json_marshal ?v @ [LF]))
      = Some (TObj [(''redis'', TObj [(''prot'', TNum (dec_int 1))])], [LF])"
    unfolding t by (simp add: c)
  have "(''redis'', [''enabled'', ''port'', ''version'', ''require_pass'']) \<in> set config_sections" by (simp add: config_sections_def)
  moreover have "equal_fold ''redis'' ''redis''" by (simp add: equal_fold_def)
  moreover have "\<forall>opt \<in> set [''enabled'', ''port'', ''version'', ''require_pass'']. \<not> equal_fold opt ''prot''"
    by (simp add: equal_fold_def runes_ascii fold_rune_def)
  ultimately show ?thesis using Load_rejects_unknown_key [OF j, of "''redis''"] by (metis list.set_intros(1))
qed

end
