(* ===== verification/Capture.thy ===== *)
theory Capture
  imports Json "HOL-Library.Sublist"
begin

text \<open>
  \<^verbatim>\<open>internal/capture\<close>: the event, its sanitisation, the JSON-lines store and the webhook.

  The store keeps the bytes of the log file, whether the file is still open, how many more bytes
  the disk takes (\<^const>\<open>None\<close> for no limit; a write that does not fit is cut short and reports an
  error), the webhook client, the bodies for which a delivery goroutine was started and the
  diagnostics printed with \<^verbatim>\<open>log.Printf\<close>. The mutex makes the part of \<^verbatim>\<open>Log\<close> from the
  write on atomic, so a call is one state transition. Time is in nanoseconds since the Unix epoch.
\<close>

section \<open>Events\<close>

definition ProtoRedis :: bytes where "ProtoRedis = ''redis''"
definition ProtoMySQL :: bytes where "ProtoMySQL = ''mysql''"
definition ProtoPostgres :: bytes where "ProtoPostgres = ''postgres''"
definition ProtoMongoDB :: bytes where "ProtoMongoDB = ''mongodb''"
definition ProtoElasticsearch :: bytes where "ProtoElasticsearch = ''elasticsearch''"
definition ProtoCouchDB :: bytes where "ProtoCouchDB = ''couchdb''"

record Event =
  Timestamp :: bytes
  Protocol :: bytes
  SrcIP :: bytes
  SrcPort :: "64 word"
  Username :: bytes
  Password :: bytes
  Database :: bytes
  AuthHash :: bytes
  Command :: bytes
  Payload :: bytes

text \<open>The zero value a composite literal starts from.\<close>

definition zero_Event :: Event where
  "zero_Event = \<lparr>Timestamp = [], Protocol = [], SrcIP = [], SrcPort = 0, Username = [], Password = [],
     Database = [], AuthHash = [], Command = [], Payload = []\<rparr>"

section \<open>Sanitisation\<close>

definition sanitizeStr :: "bytes \<Rightarrow> bytes" where
  "sanitizeStr s =
    (let s = (if 4096 < length s then take 4096 s else s) in
     strings_Map (\<lambda>r. if IsControl r then None else Some r) s)"

definition sanitize :: "Event \<Rightarrow> Event" where
  "sanitize e = e\<lparr>
     SrcIP := sanitizeStr (SrcIP e),
     Username := sanitizeStr (Username e),
     Password := sanitizeStr (Password e),
     Database := sanitizeStr (Database e),
     AuthHash := sanitizeStr (AuthHash e),
     Command := sanitizeStr (Command e),
     Payload := sanitizeStr (Payload e)\<rparr>"

section \<open>Time stamps\<close>

text \<open>\<^verbatim>\<open>t.UTC().Format(time.RFC3339Nano)\<close>: the civil date of the day number in the proleptic
  Gregorian calendar, the time of day, and the fraction of a second without trailing zeros.\<close>

definition civil_from_days :: "nat \<Rightarrow> nat \<times> nat \<times> nat" where
  "civil_from_days days =
    (let z = days + 719468; era = z div 146097; doe = z mod 146097;
         yoe = (doe - doe div 1460 + doe div 36524 - doe div 146096) div 365;
         doy = doe - (365 * yoe + yoe div 4 - yoe div 100);
         mp = (5 * doy + 2) div 153;
         d = doy - (153 * mp + 2) div 5 + 1;
         m = (if mp < 10 then mp + 3 else mp - 9)
     in (yoe + era * 400 + (if m \<le> 2 then 1 else 0), m, d))"

definition pad :: "nat \<Rightarrow> nat \<Rightarrow> string" where
  "pad w n = replicate (w - length (dec_nat n)) CHR ''0'' @ dec_nat n"

definition trim_zeros :: "string \<Rightarrow> string" where
  "trim_zeros s = rev (dropWhile (\<lambda>c. c = CHR ''0'') (rev s))"

definition rfc3339nano :: "nat \<Rightarrow> string" where
  "rfc3339nano t =
    (let secs = t div 1000000000; ns = t mod 1000000000;
         (y, m, d) = civil_from_days (secs div 86400); tod = secs mod 86400
     in pad 4 y @ ''-'' @ pad 2 m @ ''-'' @ pad 2 d @ ''T''
        @ pad 2 (tod div 3600) @ '':'' @ pad 2 (tod div 60 mod 60) @ '':'' @ pad 2 (tod mod 60)
        @ (if ns = 0 then [] else ''.'' @ trim_zeros (pad 9 ns)) @ ''Z'')"

section \<open>Encoding\<close>

definition omitempty :: "string \<Rightarrow> bytes \<Rightarrow> (bytes \<times> jval) list" where
  "omitempty k v = (if v = [] then [] else [(k, JStr v)])"

definition event_json :: "Event \<Rightarrow> jval" where
  "event_json e = JObj
    ([(''ts'', JStr (Timestamp e)), (''proto'', JStr (Protocol e)),
      (''src_ip'', JStr (SrcIP e)), (''src_port'', JInt (sint (SrcPort e)))]
     @ omitempty ''username'' (Username e) @ omitempty ''password'' (Password e)
     @ omitempty ''database'' (Database e) @ omitempty ''auth_hash'' (AuthHash e)
     @ omitempty ''command'' (Command e) @ omitempty ''payload'' (Payload e))"

section \<open>The webhook client\<close>

record webhookClient =
  url :: bytes
  authHeader :: bytes
  timeout_seconds :: nat
  min_tls_version :: nat
  insecure_skip_verify :: bool

definition VersionTLS12 :: nat where "VersionTLS12 = 0x0303"

text \<open>The client and the lines it prints; \<^const>\<open>Inl\<close> is the returned error.\<close>

definition NewWebhook :: "bytes \<Rightarrow> bytes \<Rightarrow> bool \<Rightarrow> (goerr + webhookClient) \<times> string list" where
  "NewWebhook u auth tlsVerify =
    (if u = [] then (Inl (ErrorS ''webhook url must not be empty''), [])
     else (Inr \<lparr>url = u, authHeader = auth, timeout_seconds = 10, min_tls_version = VersionTLS12,
                insecure_skip_verify = False\<rparr>,
           if \<not> tlsVerify
           then [''capture: webhook tls_verify=false ignored; TLS verification is always enforced'']
           else []))"

record http_request =
  req_method :: string
  req_url :: bytes
  req_headers :: "(string \<times> bytes) list"
  req_body :: bytes

text \<open>\<^verbatim>\<open>send\<close>: \<open>new_request\<close> is the outcome of building the request from the URL and \<open>do_request\<close>
  the network's answer (an error or a status code). The result is the request that was sent, if
  one was, and the lines printed.\<close>

definition webhook_send ::
  "(bytes \<Rightarrow> goerr option) \<Rightarrow> (http_request \<Rightarrow> goerr + nat) \<Rightarrow> webhookClient \<Rightarrow> bytes
    \<Rightarrow> http_request option \<times> string list" where
  "webhook_send new_request do_request wh body =
    (case new_request (url wh) of
       Some e \<Rightarrow> (None, [''capture: webhook new request''])
     | None \<Rightarrow>
        (let req = \<lparr>req_method = ''POST'', req_url = url wh,
                    req_headers = (''Content-Type'', ''application/json'')
                      # (if authHeader wh \<noteq> [] then [(''Authorization'', authHeader wh)] else []),
                    req_body = body\<rparr>
         in case do_request req of
              Inl e \<Rightarrow> (Some req, [''capture: webhook send''])
            | Inr status \<Rightarrow> (Some req,
                if 400 \<le> status then [''capture: webhook returned '' @ dec_nat status] else [])))"

section \<open>The store\<close>

record Store =
  logf :: bytes
  file_open :: bool
  disk_space :: "nat option"
  webhook :: "webhookClient option"
  deliveries :: "bytes list"
  diag :: "string list"

text \<open>\<^verbatim>\<open>New\<close>: opening the log for appending either fails or gives the bytes already in it.\<close>

definition New :: "goerr + bytes \<Rightarrow> nat option \<Rightarrow> webhookClient option \<Rightarrow> goerr + Store" where
  "New opened space wh =
    (case opened of
       Inl e \<Rightarrow> Inl e
     | Inr existing \<Rightarrow> Inr \<lparr>logf = existing, file_open = True, disk_space = space, webhook = wh,
                           deliveries = [], diag = []\<rparr>)"

definition file_write :: "bytes \<Rightarrow> Store \<Rightarrow> goerr option \<times> Store" where
  "file_write b s =
    (if \<not> file_open s then (Some (ErrorS ''file already closed''), s)
     else case disk_space s of
       None \<Rightarrow> (None, s\<lparr>logf := logf s @ b\<rparr>)
     | Some k \<Rightarrow>
         if length b \<le> k then (None, s\<lparr>logf := logf s @ b, disk_space := Some (k - length b)\<rparr>)
         else (Some (ErrorS ''no space left on device''),
               s\<lparr>logf := logf s @ take k b, disk_space := Some 0\<rparr>))"

text \<open>The line a call writes. Encoding a struct of strings and one integer never fails, so the
  error branch after \<^verbatim>\<open>json.Marshal\<close> is dead.\<close>

definition log_line :: "nat \<Rightarrow> Event \<Rightarrow> bytes" where
  "log_line now e = json_marshal (event_json (sanitize (e\<lparr>Timestamp := rfc3339nano now\<rparr>))) @ [LF]"

definition Log :: "nat \<Rightarrow> Event \<Rightarrow> Store \<Rightarrow> Store" where
  "Log now e s =
    (let b = log_line now e;
         (err, s1) = file_write b s;
         s2 = (case err of None \<Rightarrow> s1 | Some _ \<Rightarrow> s1\<lparr>diag := diag s1 @ [''capture: write'']\<rparr>)
     in case webhook s2 of
          None \<Rightarrow> s2
        | Some _ \<Rightarrow> s2\<lparr>deliveries := deliveries s2 @ [b]\<rparr>)"

definition Close :: "Store \<Rightarrow> goerr option \<times> Store" where
  "Close s = (if file_open s then (None, s\<lparr>file_open := False\<rparr>)
              else (Some (ErrorS ''file already closed''), s))"

section \<open>The contract of an append-only line log\<close>

text \<open>
  What the protocol handlers rely on: while the sink is ready, logging an event appends one line
  that depends on the event and the time only, and the sink stays ready. A line ends in its only
  line feed.
\<close>

locale line_log =
  fixes log :: "nat \<Rightarrow> 'e \<Rightarrow> 's \<Rightarrow> 's"
    and line :: "nat \<Rightarrow> 'e \<Rightarrow> bytes"
    and content :: "'s \<Rightarrow> bytes"
    and ready :: "'s \<Rightarrow> bool"
  assumes log_content: "ready s \<Longrightarrow> content (log t e s) = content s @ line t e"
    and log_ready: "ready s \<Longrightarrow> ready (log t e s)"
    and line_framed: "\<exists>l. line t e = l @ [LF] \<and> LF \<notin> set l"
begin

lemma log_all:
  "ready s \<Longrightarrow> content (fold (\<lambda>(t, e). log t e) es s) = content s @ concat (map (\<lambda>(t, e). line t e) es)
     \<and> ready (fold (\<lambda>(t, e). log t e) es s)"
  by (induction es arbitrary: s) (auto simp: log_content log_ready)

lemma count_line: "count_list (line t e) LF = 1"
proof -
  obtain l where "line t e = l @ [LF]" "LF \<notin> set l" using line_framed by blast
  then show ?thesis by (simp add: count_list_append count_notin)
qed

lemma count_lines: "count_list (concat (map (\<lambda>(t, e). line t e) es)) LF = length es"
  by (induction es) (auto simp: count_line)

lemma log_all_content:
  "ready s \<Longrightarrow> content (fold (\<lambda>(t, e). log t e) es s) = content s @ concat (map (\<lambda>(t, e). line t e) es)"
  by (simp add: log_all)

lemma log_all_count:
  "ready s \<Longrightarrow> count_list (content (fold (\<lambda>(t, e). log t e) es s)) LF = count_list (content s) LF + length es"
  by (simp add: log_all_content count_lines)

end

definition store_ready :: "Store \<Rightarrow> bool" where
  "store_ready s \<longleftrightarrow> file_open s \<and> disk_space s = None"

lemma log_line_framed: "\<exists>l. log_line t e = l @ [LF] \<and> LF \<notin> set l"
  unfolding log_line_def using printable_no_LF [OF printable_json_marshal] by blast

lemma Log_ready:
  assumes "store_ready s"
  shows "logf (Log t e s) = logf s @ log_line t e" "store_ready (Log t e s)" "diag (Log t e s) = diag s"
  using assms by (auto simp: Log_def file_write_def store_ready_def Let_def split: option.split)

interpretation store: line_log Log log_line logf store_ready
  by unfold_locales (simp_all add: Log_ready log_line_framed)

section \<open>Properties of sanitisation\<close>

lemma map_filter_keep: "List.map_filter (\<lambda>r. if P r then None else Some r) xs = filter (\<lambda>r. \<not> P r) xs"
  by (induction xs) (auto simp: List.map_filter_def)

lemma sanitizeStr_take:
  "sanitizeStr s = strings_Map (\<lambda>r. if IsControl r then None else Some r) (take 4096 s)"
  by (simp add: sanitizeStr_def Let_def)

lemma runes_sanitizeStr: "runes (sanitizeStr s) = filter (\<lambda>r. \<not> IsControl r) (runes (take 4096 s))"
proof -
  have "runes (sanitizeStr s)
      = List.map_filter (\<lambda>r. if IsControl r then None else Some r) (runes (take 4096 s))"
    unfolding sanitizeStr_take
    by (rule runes_strings_Map) (auto dest: runes_scalar split: if_splits)
  then show ?thesis by (simp add: map_filter_keep)
qed

lemma utf8_valid_sanitizeStr: "utf8_valid (sanitizeStr s)"
  by (simp add: sanitizeStr_take utf8_valid_strings_Map)

lemma sanitizeStr_runes: "sanitizeStr s = runes_to_string (filter (\<lambda>r. \<not> IsControl r) (runes (take 4096 s)))"
  by (simp add: sanitizeStr_take strings_Map_def map_filter_keep)

text \<open>C8. Sanitisation keeps exactly the non-control runes of the first 4096 bytes, and its
  result is valid UTF-8 whatever the attacker sent.\<close>

theorem sanitizeStr_keeps_exactly_printable:
  "utf8_valid (sanitizeStr s) \<and> runes (sanitizeStr s) = filter (\<lambda>r. \<not> IsControl r) (runes (take 4096 s))"
  by (simp add: utf8_valid_sanitizeStr runes_sanitizeStr)

text \<open>A sanitised string has at most three bytes for each of the at most 4096 bytes that are
  kept of the input.\<close>

theorem sanitizeStr_length_bound: "length (sanitizeStr s) \<le> 3 * min 4096 (length s)"
proof -
  have "length (sanitizeStr s) \<le> length (runes_to_string (runes (take 4096 s)))"
    unfolding sanitizeStr_runes by (rule length_runes_to_string_filter)
  also have "\<dots> \<le> 3 * length (take 4096 s)" by (rule length_runes_to_string_bound)
  finally show ?thesis by (simp add: min.commute)
qed

lemma runes_replicate_invalid: "runes (replicate n CHR 0xFF) = replicate n RuneError"
  by (induction n) (simp_all add: runes_def)

lemma length_runes_to_string_RuneError: "length (runes_to_string (replicate n RuneError)) = 3 * n"
  by (induction n) (simp_all add: runes_to_string_Cons encode_RuneError)

text \<open>The documented cap of 4096 bytes is not a cap on the result: 4096 undecodable bytes
  become 12288 bytes, three for each.\<close>

theorem sanitizeStr_exceeds_4096: "length (sanitizeStr (replicate 4096 CHR 0xFF)) = 12288"
proof -
  have "filter (\<lambda>r. \<not> IsControl r) (replicate 4096 RuneError) = replicate 4096 RuneError"
    by (simp add: IsControl_def filter_replicate)
  then show ?thesis
    by (simp add: sanitizeStr_runes runes_replicate_invalid length_runes_to_string_RuneError)
qed

text \<open>A sanitised field is read back exactly from the JSON string written for it.\<close>

theorem sanitized_field_roundtrip:
  "json_unquote (tl (json_string (sanitizeStr s)) @ rest) = Some (sanitizeStr s, rest)"
  using json_unquote_json_chars [of "sanitizeStr s" rest] utf8_valid_sanitizeStr [of s]
  by (simp add: json_string_def utf8_valid_def)

section \<open>Properties of the store\<close>

text \<open>No log injection: while the file is writable, a sequence of \<^verbatim>\<open>Log\<close> calls appends the
  lines of the events in order and adds exactly as many line feeds as there are events, whatever
  bytes the events carry.\<close>

theorem Log_sequence_is_json_lines:
  assumes "store_ready s"
  shows "logf (fold (\<lambda>(t, e). Log t e) es s) = logf s @ concat (map (\<lambda>(t, e). log_line t e) es)
    \<and> count_list (logf (fold (\<lambda>(t, e). Log t e) es s)) LF = count_list (logf s) LF + length es"
  using store.log_all_content [OF assms] store.log_all_count [OF assms] by blast

theorem Log_sequence_is_json_lines_witness:
  "\<exists>s0. New (Inr []) None None = Inr s0 \<and>
     count_list (logf (fold (\<lambda>(t, e). Log t e) [(0, zero_Event\<lparr>Password := [LF, LF]\<rparr>)] s0)) LF = 1"
proof -
  define s0 :: Store where "s0 = \<lparr>logf = [], file_open = True, disk_space = None, webhook = None,
      deliveries = [], diag = []\<rparr>"
  have "New (Inr []) None None = Inr s0" by (simp add: New_def s0_def)
  moreover have r: "store_ready s0" by (simp add: store_ready_def s0_def)
  moreover have "logf s0 = []" by (simp add: s0_def)
  ultimately show ?thesis
    using Log_sequence_is_json_lines [OF r, of "[(0, zero_Event\<lparr>Password := [LF, LF]\<rparr>)]"]
    by auto
qed

lemma Log_prefix: "prefix (logf s) (logf (Log t e s))"
  by (auto simp: Log_def file_write_def Let_def split: option.split)

text \<open>The store is only ever changed by logging. An event can be read back when its protocol name is valid
  UTF-8; all its other fields are sanitised.\<close>

definition loggable :: "Event \<Rightarrow> bool" where
  "loggable e \<longleftrightarrow> utf8_valid (Protocol e)"

definition log_extends :: "Store \<Rightarrow> Store \<Rightarrow> bool" where
  "log_extends s s' \<longleftrightarrow> (\<exists>es. (\<forall>(t, e) \<in> set es. loggable e) \<and> s' = fold (\<lambda>(t, e). Log t e) es s)"

lemma log_extends_refl [simp]: "log_extends s s"
  unfolding log_extends_def by (rule exI [of _ "[]"]) simp

lemma log_extends_trans [trans]: "log_extends s u \<Longrightarrow> log_extends u v \<Longrightarrow> log_extends s v"
proof -
  assume "log_extends s u" "log_extends u v"
  then obtain es fs where "\<forall>(t, e) \<in> set es. loggable e" "\<forall>(t, e) \<in> set fs. loggable e"
      "u = fold (\<lambda>(t, e). Log t e) es s" "v = fold (\<lambda>(t, e). Log t e) fs u"
    unfolding log_extends_def by blast
  then show ?thesis unfolding log_extends_def by (intro exI [of _ "es @ fs"]) auto
qed

lemma log_extends_Log: "loggable e \<Longrightarrow> log_extends s (Log t e s)"
  unfolding log_extends_def by (rule exI [of _ "[(t, e)]"]) simp

lemma log_extends_prefix: "log_extends s s' \<Longrightarrow> prefix (logf s) (logf s')"
proof -
  have "prefix (logf s) (logf (fold (\<lambda>(t, e). Log t e) es s))" for es
  proof (induction es arbitrary: s)
    case (Cons x es)
    then show ?case using Log_prefix prefix_order.trans by (fastforce split: prod.split)
  qed simp
  then show "log_extends s s' \<Longrightarrow> prefix (logf s) (logf s')" by (auto simp: log_extends_def)
qed

lemma Proto_valid [simp]:
  "utf8_valid ProtoRedis" "utf8_valid ProtoMySQL" "utf8_valid ProtoPostgres" "utf8_valid ProtoMongoDB"
  "utf8_valid ProtoElasticsearch" "utf8_valid ProtoCouchDB"
  by (simp_all add: utf8_valid_ascii ProtoRedis_def ProtoMySQL_def ProtoPostgres_def ProtoMongoDB_def
      ProtoElasticsearch_def ProtoCouchDB_def)

text \<open>Logging never truncates or rewrites what is in the file, even when the disk is full or the
  file is closed, never closes it, and hands the webhook exactly the line written.\<close>

theorem Log_append_only:
  "prefix (logf s) (logf (Log t e s)) \<and> prefix (logf (Log t e s)) (logf s @ log_line t e)
    \<and> file_open (Log t e s) = file_open s
    \<and> deliveries (Log t e s) = deliveries s @ (if webhook s = None then [] else [log_line t e])"
  by (auto simp: Log_def file_write_def Let_def take_is_prefix split: option.split)

text \<open>The webhook client never skips certificate verification and never goes below TLS 1.2,
  whatever the configuration asks for; only an empty URL is refused.\<close>

theorem NewWebhook_enforces_tls:
  "case fst (NewWebhook u auth tlsVerify) of
     Inl _ \<Rightarrow> u = []
   | Inr wh \<Rightarrow> u \<noteq> [] \<and> url wh = u \<and> authHeader wh = auth
       \<and> \<not> insecure_skip_verify wh \<and> min_tls_version wh = VersionTLS12
       \<and> fst (NewWebhook u auth (\<not> tlsVerify)) = Inr wh"
  by (simp add: NewWebhook_def)

end
