(* ===== verification/Net.thy ===== *)
theory Net
  imports Capture
begin

text \<open>
  The connection a handler serves, with real time.

  The peer is the list of bytes it will send, each with the instant at which it arrives, and how
  its stream ends. Time passes only while a read waits: a read returns at the arrival of the last
  byte it needs, or at the read deadline (\<^const>\<open>ErrDeadline\<close>), or when the stream ends.
  \<^verbatim>\<open>SetDeadline\<close>, \<^verbatim>\<open>SetReadDeadline\<close> set the deadlines; a write fails once the write deadline
  has passed. The peer may stop taking bytes (\<open>wr_cap\<close>): then the write fails at once because the peer
  has gone, or, if the peer stalls (\<open>wr_stalls\<close>), waits for the write deadline. A read with no deadline
  from a peer that stays silent, and a write with no deadline to a peer that stalls, never returns: that
  is the outcome \<^const>\<open>Stuck\<close>, and \<open>hung\<close> records that it happened.

  \<open>world\<close> is what one handler goroutine sees: its connection, the store, the bytes the
  system's random source will deliver and the instant at which the context is cancelled.
  \<open>ctl\<close> is the outcome of one iteration of a handler's loop.
\<close>

section \<open>Connections\<close>

record conn =
  remote :: bytes
  incoming :: "(nat \<times> char) list"
  stream_end :: "(nat \<times> goerr) option"
  clock :: nat
  rd_deadline :: "nat option"
  wr_deadline :: "nat option"
  out :: bytes
  wr_cap :: "nat option"
  wr_stalls :: bool
  hung :: bool

definition second :: nat where "second = 1000000000"

definition SetReadDeadline :: "nat \<Rightarrow> conn \<Rightarrow> conn" where
  "SetReadDeadline t c = c\<lparr>rd_deadline := Some t\<rparr>"

definition SetDeadline :: "nat \<Rightarrow> conn \<Rightarrow> conn" where
  "SetDeadline t c = c\<lparr>rd_deadline := Some t, wr_deadline := Some t\<rparr>"

text \<open>A byte that arrives at \<open>t\<close> can still be read.\<close>

definition in_time :: "conn \<Rightarrow> nat \<Rightarrow> bool" where
  "in_time c t \<longleftrightarrow> (case rd_deadline c of None \<Rightarrow> True | Some d \<Rightarrow> max (clock c) t < d)"

definition readable :: "conn \<Rightarrow> bytes" where
  "readable c = map snd (takeWhile (\<lambda>tb. in_time c (fst tb)) (incoming c))"

definition consume :: "nat \<Rightarrow> conn \<Rightarrow> conn" where
  "consume n c = c\<lparr>incoming := drop n (incoming c),
     clock := fold max (map fst (take n (incoming c))) (clock c)\<rparr>"

text \<open>What a read reports when the readable bytes are not enough for it.\<close>

definition read_error :: "conn \<Rightarrow> goerr \<times> conn" where
  "read_error c =
    (let c1 = consume (length (readable c)) c;
         expire = (case rd_deadline c of
                     Some d \<Rightarrow> (ErrDeadline, c1\<lparr>clock := max (clock c1) d\<rparr>)
                   | None \<Rightarrow> (Stuck, c1\<lparr>hung := True\<rparr>))
     in if length (readable c) < length (incoming c) then expire
        else case stream_end c of
               Some (t, e) \<Rightarrow> if in_time c t then (e, c1\<lparr>clock := max (clock c1) t\<rparr>) else expire
             | None \<Rightarrow> expire)"

text \<open>\<^verbatim>\<open>io.ReadFull(conn, buf)\<close> for a buffer of \<open>n\<close> bytes.\<close>

definition ReadFull :: "nat \<Rightarrow> conn \<Rightarrow> (goerr + bytes) \<times> conn" where
  "ReadFull n c =
    (if n \<le> length (readable c) then (Inr (take n (readable c)), consume n c)
     else let (e, c1) = read_error c in
       (Inl (if e = EOF \<and> readable c \<noteq> [] then ErrUnexpectedEOF else e), c1))"

text \<open>\<^verbatim>\<open>r.ReadString(delim)\<close> on a buffered reader: everything up to and including the delimiter,
  with no limit on how much that is.\<close>

definition ReadString :: "char \<Rightarrow> conn \<Rightarrow> (goerr + bytes) \<times> conn" where
  "ReadString delim c =
    (case indexByte (readable c) delim of
       Some i \<Rightarrow> (Inr (take (i + 1) (readable c)), consume (i + 1) c)
     | None \<Rightarrow> (let (e, c1) = read_error c in (Inl e, c1)))"

definition conn_Write :: "bytes \<Rightarrow> conn \<Rightarrow> goerr option \<times> conn" where
  "conn_Write b c =
    (if (case wr_deadline c of Some d \<Rightarrow> d \<le> clock c | None \<Rightarrow> False) then (Some ErrDeadline, c)
     else case wr_cap c of
       None \<Rightarrow> (None, c\<lparr>out := out c @ b\<rparr>)
     | Some k \<Rightarrow>
         if length b \<le> k then (None, c\<lparr>out := out c @ b, wr_cap := Some (k - length b)\<rparr>)
         else let c1 = c\<lparr>out := out c @ take k b, wr_cap := Some 0\<rparr> in
           if wr_stalls c then
             (case wr_deadline c of
                Some d \<Rightarrow> (Some ErrDeadline, c1\<lparr>clock := d\<rparr>)
              | None \<Rightarrow> (Some Stuck, c1\<lparr>hung := True\<rparr>))
           else (Some ErrReset, c1))"

section \<open>What a handler sees\<close>

record world =
  wconn :: conn
  wstore :: Store
  entropy :: bytes
  cancelled_at :: "nat option"

definition ctx_Done :: "('a) world_scheme \<Rightarrow> bool" where
  "ctx_Done w \<longleftrightarrow> (case cancelled_at w of None \<Rightarrow> False | Some t \<Rightarrow> t \<le> clock (wconn w))"

definition now :: "('a) world_scheme \<Rightarrow> nat" where
  "now w = clock (wconn w)"

definition set_read_deadline :: "nat \<Rightarrow> ('a) world_scheme \<Rightarrow> ('a) world_scheme" where
  "set_read_deadline secs w = w\<lparr>wconn := SetReadDeadline (now w + secs * second) (wconn w)\<rparr>"

definition read_full :: "nat \<Rightarrow> ('a) world_scheme \<Rightarrow> (goerr + bytes) \<times> ('a) world_scheme" where
  "read_full n w = (let (r, c) = ReadFull n (wconn w) in (r, w\<lparr>wconn := c\<rparr>))"

definition read_string :: "char \<Rightarrow> ('a) world_scheme \<Rightarrow> (goerr + bytes) \<times> ('a) world_scheme" where
  "read_string delim w = (let (r, c) = ReadString delim (wconn w) in (r, w\<lparr>wconn := c\<rparr>))"

definition write_bytes :: "bytes \<Rightarrow> ('a) world_scheme \<Rightarrow> goerr option \<times> ('a) world_scheme" where
  "write_bytes b w = (let (e, c) = conn_Write b (wconn w) in (e, w\<lparr>wconn := c\<rparr>))"

definition log_event :: "Event \<Rightarrow> ('a) world_scheme \<Rightarrow> ('a) world_scheme" where
  "log_event e w = w\<lparr>wstore := Log (now w) e (wstore w)\<rparr>"

text \<open>The peer's address as the handlers take it from the connection.\<close>

definition peer :: "('a) world_scheme \<Rightarrow> bytes \<times> 64 word" where
  "peer w = remote_ip_port (remote (wconn w))"

datatype 's ctl = Continue 's | Return 's | Crash

section \<open>Frame facts\<close>

lemma consume_simps [net_simps, simp]:
  "incoming (consume n c) = drop n (incoming c)" "rd_deadline (consume n c) = rd_deadline c"
  "wr_deadline (consume n c) = wr_deadline c" "out (consume n c) = out c" "remote (consume n c) = remote c"
  "stream_end (consume n c) = stream_end c" "wr_cap (consume n c) = wr_cap c" "hung (consume n c) = hung c"
  "wr_stalls (consume n c) = wr_stalls c"
  by (simp_all add: consume_def)

lemma fold_max_ge: "a \<le> fold max xs (a::nat)"
proof (induction xs arbitrary: a)
  case (Cons x xs)
  have "a \<le> max x a" by simp
  also have "\<dots> \<le> fold max xs (max x a)" by (rule Cons.IH)
  finally show ?case by simp
qed simp

lemma fold_max_le: "a \<le> b \<Longrightarrow> \<forall>x \<in> set xs. x \<le> b \<Longrightarrow> fold max xs (a::nat) \<le> b"
  by (induction xs arbitrary: a) auto

lemma clock_consume_ge: "clock c \<le> clock (consume n c)"
  by (simp add: consume_def fold_max_ge)

lemma length_readable: "length (readable c) \<le> length (incoming c)"
  by (simp add: readable_def length_takeWhile_le)

lemma read_error_simps [net_simps]:
  assumes "read_error c = (e, c1)"
  shows "rd_deadline c1 = rd_deadline c" "wr_deadline c1 = wr_deadline c" "out c1 = out c"
    "remote c1 = remote c" "wr_cap c1 = wr_cap c" "clock c \<le> clock c1" "length (incoming c1) \<le> length (incoming c)"
  using assms clock_consume_ge [of c "length (readable c)"]
  by (auto simp: read_error_def Let_def split: option.splits if_splits prod.splits)

lemma read_error_not_Stuck:
  assumes "read_error c = (e, c1)" "rd_deadline c \<noteq> None" "\<And>t. stream_end c \<noteq> Some (t, Stuck)"
  shows "e \<noteq> Stuck"
  using assms by (auto simp: read_error_def Let_def split: option.splits if_splits prod.splits)

lemma ReadFull_Inr:
  assumes "ReadFull n c = (Inr b, c1)"
  shows "length b = n" "c1 = consume n c" "b = take n (map snd (incoming c))" "n \<le> length (incoming c)"
proof -
  have n: "n \<le> length (readable c)" "b = take n (readable c)" "c1 = consume n c"
    using assms by (auto simp: ReadFull_def split: if_splits prod.splits)
  have "readable c = take (length (readable c)) (map snd (incoming c))"
    unfolding readable_def
    by (metis length_map take_map takeWhile_eq_take length_takeWhile_le min.absorb1)
  then have "take n (readable c) = take n (map snd (incoming c))"
    using n(1) by (metis min.absorb1 take_take)
  then show "length b = n" "c1 = consume n c" "b = take n (map snd (incoming c))" "n \<le> length (incoming c)"
    using n length_readable [of c] by auto
qed

lemma ReadFull_Inl:
  assumes "ReadFull n c = (Inl e, c1)"
  shows "\<exists>e'. read_error c = (e', c1) \<and> (e = e' \<or> e = ErrUnexpectedEOF)"
  using assms by (auto simp: ReadFull_def split: if_splits prod.splits)

lemma ReadString_Inr:
  assumes "ReadString d c = (Inr b, c1)"
  shows "c1 = consume (length b) c" "b \<noteq> []" "last b = d" "d \<notin> set (butlast b)"
    "length b \<le> length (incoming c)"
proof -
  obtain i where i: "indexByte (readable c) d = Some i" "b = take (i + 1) (readable c)" "c1 = consume (i + 1) c"
    using assms by (auto simp: ReadString_def split: option.splits prod.splits)
  then have l: "i < length (readable c)" "readable c ! i = d" "d \<notin> set (take i (readable c))"
    by (auto simp: indexByte_Some)
  have b: "b = take i (readable c) @ [d]" using i(2) l by (simp add: take_Suc_conv_app_nth)
  then have len: "length b = i + 1" using l by simp
  then show "c1 = consume (length b) c" using i(3) by simp
  show "b \<noteq> []" "last b = d" "d \<notin> set (butlast b)" using b l by auto
  show "length b \<le> length (incoming c)" using len l length_readable [of c] by simp
qed

lemma ReadString_Inl: "ReadString d c = (Inl e, c1) \<Longrightarrow> read_error c = (e, c1)"
  by (auto simp: ReadString_def split: option.splits prod.splits)

section \<open>How a world evolves\<close>

text \<open>Nothing a handler does takes back input or output, it touches the store only by logging, and time does
  not run back.\<close>

definition evolves :: "('a) world_scheme \<Rightarrow> ('a) world_scheme \<Rightarrow> bool" where
  "evolves w w' \<longleftrightarrow>
     log_extends (wstore w) (wstore w') \<and> prefix (out (wconn w)) (out (wconn w'))
     \<and> now w \<le> now w' \<and> length (incoming (wconn w')) \<le> length (incoming (wconn w))
     \<and> remote (wconn w') = remote (wconn w) \<and> wr_deadline (wconn w') = wr_deadline (wconn w)
     \<and> cancelled_at w' = cancelled_at w"

lemma evolves_refl [simp]: "evolves w w"
  by (simp add: evolves_def)

lemma evolves_trans [trans]: "evolves u v \<Longrightarrow> evolves v w \<Longrightarrow> evolves u w"
  by (auto simp: evolves_def intro: prefix_order.trans log_extends_trans)

lemma evolves_log_prefix: "evolves w w' \<Longrightarrow> prefix (logf (wstore w)) (logf (wstore w'))"
  by (simp add: evolves_def log_extends_prefix)

lemma evolves_read_full: "read_full n w = (r, w1) \<Longrightarrow> evolves w w1"
proof -
  assume a: "read_full n w = (r, w1)"
  obtain c1 where c: "ReadFull n (wconn w) = (r, c1)" "w1 = w\<lparr>wconn := c1\<rparr>"
    using a by (auto simp: read_full_def split: prod.splits)
  show ?thesis
  proof (cases r)
    case (Inl e)
    then obtain e' where "read_error (wconn w) = (e', c1)" using ReadFull_Inl c by blast
    from read_error_simps [OF this] c(2) show ?thesis by (simp add: evolves_def now_def)
  next
    case (Inr b)
    then show ?thesis using ReadFull_Inr(2) [of n "wconn w" b c1] c clock_consume_ge
      by (simp add: evolves_def now_def)
  qed
qed

lemma evolves_read_string: "read_string d w = (r, w1) \<Longrightarrow> evolves w w1"
proof -
  assume a: "read_string d w = (r, w1)"
  obtain c1 where c: "ReadString d (wconn w) = (r, c1)" "w1 = w\<lparr>wconn := c1\<rparr>"
    using a by (auto simp: read_string_def split: prod.splits)
  show ?thesis
  proof (cases r)
    case (Inl e)
    then have "read_error (wconn w) = (e, c1)" using ReadString_Inl c by blast
    from read_error_simps [OF this] c(2) show ?thesis by (simp add: evolves_def now_def)
  next
    case (Inr b)
    then show ?thesis using ReadString_Inr(1) [of d "wconn w" b c1] c clock_consume_ge
      by (simp add: evolves_def now_def)
  qed
qed

lemma evolves_write: "write_bytes b w = (e, w1) \<Longrightarrow> evolves w w1"
  by (auto simp: write_bytes_def conn_Write_def evolves_def now_def Let_def split: prod.splits if_splits option.splits)

lemma evolves_log [simp]: "loggable e \<Longrightarrow> evolves w (log_event e w)"
  by (simp add: evolves_def log_event_def now_def log_extends_Log)

lemma evolves_deadline [simp]: "evolves w (set_read_deadline n w)"
  by (simp add: evolves_def set_read_deadline_def SetReadDeadline_def now_def)

lemma evolves_entropy [simp]: "evolves w (w\<lparr>entropy := e\<rparr>)"
  by (simp add: evolves_def now_def)

lemmas evolves_intros = evolves_read_full evolves_read_string evolves_write

lemma evolves_incoming: "evolves w w' \<Longrightarrow> length (incoming (wconn w')) \<le> length (incoming (wconn w))"
  by (simp add: evolves_def)

lemma read_full_Inr:
  assumes "read_full n w = (Inr b, w1)"
  shows "length b = n" "length (incoming (wconn w1)) + n = length (incoming (wconn w))"
    "w1 = w\<lparr>wconn := consume n (wconn w)\<rparr>" "b = take n (map snd (incoming (wconn w)))"
proof -
  obtain c1 where c: "ReadFull n (wconn w) = (Inr b, c1)" "w1 = w\<lparr>wconn := c1\<rparr>"
    using assms by (auto simp: read_full_def split: prod.splits)
  from ReadFull_Inr [OF c(1)] c(2) show "length b = n"
    "length (incoming (wconn w1)) + n = length (incoming (wconn w))"
    "w1 = w\<lparr>wconn := consume n (wconn w)\<rparr>" "b = take n (map snd (incoming (wconn w)))"
    by simp_all
qed

lemma read_string_Inr:
  assumes "read_string d w = (Inr b, w1)"
  shows "b \<noteq> []" "last b = d" "d \<notin> set (butlast b)"
    "length (incoming (wconn w1)) + length b = length (incoming (wconn w))"
    "w1 = w\<lparr>wconn := consume (length b) (wconn w)\<rparr>"
proof -
  obtain c1 where c: "ReadString d (wconn w) = (Inr b, c1)" "w1 = w\<lparr>wconn := c1\<rparr>"
    using assms by (auto simp: read_string_def split: prod.splits)
  from ReadString_Inr [OF c(1)] c(2) show "b \<noteq> []" "last b = d" "d \<notin> set (butlast b)"
    "length (incoming (wconn w1)) + length b = length (incoming (wconn w))"
    "w1 = w\<lparr>wconn := consume (length b) (wconn w)\<rparr>"
    by simp_all
qed

lemma write_incoming [net_simps]:
  "write_bytes b w = (e, w1) \<Longrightarrow> incoming (wconn w1) = incoming (wconn w)"
  by (auto simp: write_bytes_def conn_Write_def Let_def split: prod.splits if_splits option.splits)

lemma log_event_simps [net_simps, simp]:
  "wconn (log_event e w) = wconn w" "entropy (log_event e w) = entropy w"
  "wstore (log_event e w) = Log (now w) e (wstore w)" "cancelled_at (log_event e w) = cancelled_at w"
  "now (log_event e w) = now w"
  by (simp_all add: log_event_def now_def)

lemma set_read_deadline_simps [net_simps, simp]:
  "incoming (wconn (set_read_deadline n w)) = incoming (wconn w)" "wstore (set_read_deadline n w) = wstore w"
  "entropy (set_read_deadline n w) = entropy w" "out (wconn (set_read_deadline n w)) = out (wconn w)"
  "now (set_read_deadline n w) = now w" "cancelled_at (set_read_deadline n w) = cancelled_at w"
  "clock (wconn (set_read_deadline n w)) = clock (wconn w)"
  "rd_deadline (wconn (set_read_deadline n w)) = Some (now w + n * second)"
  by (simp_all add: set_read_deadline_def SetReadDeadline_def now_def)

text \<open>Reads and writes touch the connection only.\<close>

definition same_rest :: "('a) world_scheme \<Rightarrow> ('a) world_scheme \<Rightarrow> bool" where
  "same_rest w w' \<longleftrightarrow> wstore w' = wstore w \<and> entropy w' = entropy w \<and> cancelled_at w' = cancelled_at w"

lemma same_rest_refl [simp]: "same_rest w w"
  by (simp add: same_rest_def)

lemma same_rest_trans [trans]: "same_rest u v \<Longrightarrow> same_rest v w \<Longrightarrow> same_rest u w"
  by (simp add: same_rest_def)

lemma same_rest_deadline [simp]: "same_rest w (set_read_deadline n w)"
  by (simp add: same_rest_def)

lemma same_rest_read: "read_full n w = (r, w1) \<Longrightarrow> same_rest w w1"
  by (auto simp: read_full_def same_rest_def split: prod.splits)

lemma same_rest_write: "write_bytes b w = (e, w1) \<Longrightarrow> same_rest w w1"
  by (auto simp: write_bytes_def same_rest_def split: prod.splits)

section \<open>Time limits\<close>

text \<open>
  What bounds the time a handler takes. A predicate on the connection is \<open>writing P D\<close> if every write
  keeps it or fails no later than \<open>D\<close>, and a \<open>timer P D\<close> if the same holds of every read. \<open>sends\<close> and
  \<open>paced\<close> say of a piece of the handler that it respects all such predicates: \<open>ok\<close> is whether it came to
  an end without an error.
\<close>

definition conn_over :: "nat \<Rightarrow> conn \<Rightarrow> bool" where
  "conn_over D c \<longleftrightarrow> clock c \<le> D \<and> \<not> hung c"

definition writing :: "(conn \<Rightarrow> bool) \<Rightarrow> nat \<Rightarrow> bool" where
  "writing P D \<longleftrightarrow> (\<forall>c. P c \<longrightarrow> conn_over D c)
     \<and> (\<forall>c b e c1. P c \<longrightarrow> conn_Write b c = (e, c1) \<longrightarrow> (if e = None then P c1 else conn_over D c1))"

definition timer :: "(conn \<Rightarrow> bool) \<Rightarrow> nat \<Rightarrow> bool" where
  "timer P D \<longleftrightarrow> writing P D
     \<and> (\<forall>c n. P c \<longrightarrow> n \<le> length (readable c) \<longrightarrow> P (consume n c))
     \<and> (\<forall>c e c1. P c \<longrightarrow> read_error c = (e, c1) \<longrightarrow> conn_over D c1)"

definition sends :: "bool \<Rightarrow> ('a) world_scheme \<Rightarrow> ('a) world_scheme \<Rightarrow> bool" where
  "sends ok w w1 \<longleftrightarrow> cancelled_at w1 = cancelled_at w
     \<and> (\<forall>P D. writing P D \<longrightarrow> P (wconn w) \<longrightarrow> (if ok then P (wconn w1) else conn_over D (wconn w1)))"

definition paced :: "bool \<Rightarrow> ('a) world_scheme \<Rightarrow> ('a) world_scheme \<Rightarrow> bool" where
  "paced ok w w1 \<longleftrightarrow> cancelled_at w1 = cancelled_at w
     \<and> (\<forall>P D. timer P D \<longrightarrow> P (wconn w) \<longrightarrow> (if ok then P (wconn w1) else conn_over D (wconn w1)))"

lemma writing_over: "writing P D \<Longrightarrow> P c \<Longrightarrow> conn_over D c"
  by (simp add: writing_def)

lemma timer_writing: "timer P D \<Longrightarrow> writing P D"
  by (simp add: timer_def)

lemma sends_paced: "sends ok w w1 \<Longrightarrow> paced ok w w1"
  using timer_writing unfolding sends_def paced_def by blast

lemma sends_same: "wconn w1 = wconn w \<Longrightarrow> cancelled_at w1 = cancelled_at w \<Longrightarrow> sends ok w w1"
  by (auto simp: sends_def dest: writing_over)

lemma sends_refl [simp]: "sends ok w w"
  by (rule sends_same) simp_all

lemma sends_log [simp]: "sends ok w (log_event e w)"
  by (rule sends_same) simp_all

lemma sends_entropy [simp]: "sends ok w (w\<lparr>entropy := e\<rparr>)"
  by (rule sends_same) simp_all

lemma sendsD:
  assumes "sends ok w w1" "writing P D" "P (wconn w)"
  shows "ok \<Longrightarrow> P (wconn w1)" "conn_over D (wconn w1)"
  using assms writing_over unfolding sends_def by (metis (full_types))+

lemma pacedD:
  assumes "paced ok w w1" "timer P D" "P (wconn w)"
  shows "ok \<Longrightarrow> P (wconn w1)" "conn_over D (wconn w1)"
  using assms writing_over timer_writing unfolding paced_def by (metis (full_types))+

lemma sends_trans: "sends True u v \<Longrightarrow> sends ok v w \<Longrightarrow> sends ok u w"
  using sendsD [of True u v] unfolding sends_def by (metis (mono_tags, lifting))

lemma sends_weaken: "sends True u v \<Longrightarrow> sends ok u v"
  using sends_trans sends_refl by blast

lemma paced_refl [simp]: "paced ok w w"
  by (simp add: sends_paced)

lemma paced_trans: "paced True u v \<Longrightarrow> paced ok v w \<Longrightarrow> paced ok u w"
  using pacedD [of True u v] unfolding paced_def by (metis (mono_tags, lifting))

lemma paced_weaken: "paced True u v \<Longrightarrow> paced ok u v"
  using paced_trans paced_refl by blast

lemma sends_write: "write_bytes b w = (e, w1) \<Longrightarrow> sends (e = None) w w1"
proof -
  assume "write_bytes b w = (e, w1)"
  then obtain c1 where c: "conn_Write b (wconn w) = (e, c1)" "w1 = w\<lparr>wconn := c1\<rparr>"
    by (auto simp: write_bytes_def split: prod.splits)
  then show ?thesis unfolding sends_def writing_def by simp
qed

lemma paced_read_full:
  assumes "read_full n w = (r, w1)"
  shows "paced (\<not> isl r) w w1"
proof -
  obtain c1 where c: "ReadFull n (wconn w) = (r, c1)" "w1 = w\<lparr>wconn := c1\<rparr>"
    using assms by (auto simp: read_full_def split: prod.splits)
  show ?thesis
  proof (cases r)
    case (Inl e)
    then obtain e' where "read_error (wconn w) = (e', c1)" using c ReadFull_Inl by blast
    then show ?thesis using Inl c(2) by (simp add: paced_def timer_def)
  next
    case (Inr b)
    then have "c1 = consume n (wconn w)" "n \<le> length (readable (wconn w))"
      using c(1) by (auto simp: ReadFull_def split: if_splits prod.splits)
    then show ?thesis using Inr c(2) by (simp add: paced_def timer_def)
  qed
qed

lemma paced_read_string:
  assumes "read_string d w = (r, w1)"
  shows "paced (\<not> isl r) w w1"
proof -
  obtain c1 where c: "ReadString d (wconn w) = (r, c1)" "w1 = w\<lparr>wconn := c1\<rparr>"
    using assms by (auto simp: read_string_def split: prod.splits)
  show ?thesis
  proof (cases r)
    case (Inl e)
    then have "read_error (wconn w) = (e, c1)" using c ReadString_Inl by blast
    then show ?thesis using Inl c(2) by (simp add: paced_def timer_def)
  next
    case (Inr b)
    then obtain i where "indexByte (readable (wconn w)) d = Some i" "c1 = consume (i + 1) (wconn w)"
      using c(1) by (auto simp: ReadString_def split: option.splits prod.splits)
    then have "c1 = consume (i + 1) (wconn w)" "i + 1 \<le> length (readable (wconn w))"
      using indexByte_less by fastforce+
    then show ?thesis using Inr c(2) by (simp add: paced_def timer_def)
  qed
qed

text \<open>
  \<open>settled T w\<close>: it is no later than \<open>T\<close>, nothing has hung, a peer that stalls is cut off by the write
  deadline within sixty seconds of \<open>T\<close>, and at \<open>T\<close> either all the client's bytes have arrived or the
  context has been cancelled. \<open>reading k T w\<close>: a read deadline is set at most \<open>k\<close> seconds after \<open>T\<close>, and
  bounds what the handler waits for. \<open>watched T w\<close> holds at the head of a handler's loop, where the
  handler looks at the context before it reads. \<open>expired T w\<close>: it is at most sixty seconds after \<open>T\<close>.
\<close>

definition stall_ends :: "nat \<Rightarrow> conn \<Rightarrow> bool" where
  "stall_ends D c \<longleftrightarrow> (wr_stalls c \<longrightarrow> (case wr_deadline c of None \<Rightarrow> False | Some d \<Rightarrow> d \<le> D))"

definition cancelled_by :: "nat \<Rightarrow> ('a) world_scheme \<Rightarrow> bool" where
  "cancelled_by T w \<longleftrightarrow> (case cancelled_at w of None \<Rightarrow> False | Some t \<Rightarrow> t \<le> T)"

definition silent_from :: "nat \<Rightarrow> conn \<Rightarrow> bool" where
  "silent_from T c \<longleftrightarrow> clock c \<le> T \<and> (\<forall>tb \<in> set (incoming c). fst tb \<le> T)"

definition settled_conn :: "nat \<Rightarrow> bool \<Rightarrow> conn \<Rightarrow> bool" where
  "settled_conn T stop c \<longleftrightarrow> \<not> hung c \<and> stall_ends (T + 60 * second) c \<and> clock c \<le> T \<and> (silent_from T c \<or> stop)"

definition reading_conn :: "nat \<Rightarrow> nat \<Rightarrow> bool \<Rightarrow> conn \<Rightarrow> bool" where
  "reading_conn k T stop c \<longleftrightarrow> \<not> hung c \<and> stall_ends (T + 60 * second) c
     \<and> (\<exists>d. rd_deadline c = Some d \<and> d \<le> T + k * second) \<and> (silent_from T c \<or> stop \<and> clock c \<le> T + k * second)"

definition watched_conn :: "nat \<Rightarrow> bool \<Rightarrow> conn \<Rightarrow> bool" where
  "watched_conn T stop c \<longleftrightarrow> \<not> hung c \<and> stall_ends (T + 60 * second) c
     \<and> (\<exists>d. rd_deadline c = Some d \<and> (clock c \<le> T \<longrightarrow> d \<le> T + 60 * second))
     \<and> (silent_from T c \<or> stop \<and> clock c \<le> T + 60 * second)"

definition settled :: "nat \<Rightarrow> ('a) world_scheme \<Rightarrow> bool" where
  "settled T w \<longleftrightarrow> settled_conn T (cancelled_by T w) (wconn w)"

definition reading :: "nat \<Rightarrow> nat \<Rightarrow> ('a) world_scheme \<Rightarrow> bool" where
  "reading k T w \<longleftrightarrow> reading_conn k T (cancelled_by T w) (wconn w)"

definition watched :: "nat \<Rightarrow> ('a) world_scheme \<Rightarrow> bool" where
  "watched T w \<longleftrightarrow> watched_conn T (cancelled_by T w) (wconn w)"

definition expired :: "nat \<Rightarrow> ('a) world_scheme \<Rightarrow> bool" where
  "expired T w \<longleftrightarrow> now w \<le> T + 60 * second \<and> \<not> hung (wconn w)"

lemma expired_conn: "expired T w \<longleftrightarrow> conn_over (T + 60 * second) (wconn w)"
  by (simp add: expired_def conn_over_def now_def)

lemma write_None:
  "conn_Write b c = (None, c1) \<Longrightarrow> clock c1 = clock c \<and> hung c1 = hung c \<and> wr_stalls c1 = wr_stalls c
     \<and> wr_deadline c1 = wr_deadline c \<and> rd_deadline c1 = rd_deadline c \<and> incoming c1 = incoming c"
  by (auto simp: conn_Write_def Let_def split: if_splits option.splits)

lemma write_Some:
  assumes "conn_Write b c = (Some e, c1)" "\<not> hung c" "clock c \<le> D" "stall_ends D c"
  shows "conn_over D c1"
  using assms by (auto simp: conn_Write_def conn_over_def stall_ends_def Let_def split: if_splits option.splits)

lemma writingI:
  assumes "\<And>c. P c \<Longrightarrow> \<not> hung c \<and> clock c \<le> D \<and> stall_ends D c"
    and "\<And>c c1. P c \<Longrightarrow> clock c1 = clock c \<Longrightarrow> hung c1 = hung c \<Longrightarrow> wr_stalls c1 = wr_stalls c \<Longrightarrow>
      wr_deadline c1 = wr_deadline c \<Longrightarrow> rd_deadline c1 = rd_deadline c \<Longrightarrow> incoming c1 = incoming c \<Longrightarrow> P c1"
  shows "writing P D"
  unfolding writing_def
proof (intro conjI allI impI)
  fix c
  assume p: "P c"
  then show "conn_over D c" using assms(1) by (simp add: conn_over_def)
  fix b e c1
  assume w: "conn_Write b c = (e, c1)"
  show "if e = None then P c1 else conn_over D c1"
    using w write_None [of b c c1] write_Some [of b c _ c1 D] assms(1) [OF p] assms(2) [OF p, of c1] by (cases e) auto
qed

lemma settled_writing: "writing (settled_conn T stop) (T + 60 * second)"
  by (rule writingI) (auto simp: settled_conn_def silent_from_def stall_ends_def split: option.splits)

lemma watched_writing: "writing (watched_conn T stop) (T + 60 * second)"
  by (rule writingI) (auto simp: watched_conn_def silent_from_def stall_ends_def split: option.splits)

lemma consumed_in_time:
  assumes "n \<le> length (readable c)" "t \<in> set (map fst (take n (incoming c)))"
  shows "in_time c t"
proof -
  have "take n (incoming c) = take n (takeWhile (\<lambda>tb. in_time c (fst tb)) (incoming c))"
    using assms(1) by (metis takeWhile_eq_take readable_def length_map min.absorb1 take_take)
  then show ?thesis using assms(2) by (auto dest!: in_set_takeD set_takeWhileD)
qed

text \<open>Waiting ends by the read deadline, and by the client's last byte.\<close>

lemma consume_clock:
  assumes "n \<le> length (readable c)" "rd_deadline c = Some d" "clock c \<le> max a d"
  shows "clock (consume n c) \<le> max a d"
proof -
  have "\<forall>t \<in> set (map fst (take n (incoming c))). t \<le> d"
    using consumed_in_time [OF assms(1)] assms(2) by (fastforce simp: in_time_def)
  then have "\<forall>t \<in> set (map fst (take n (incoming c))). t \<le> max a d" by auto
  then show ?thesis using assms(3) unfolding consume_def by (simp add: fold_max_le)
qed

lemma silent_consume: "silent_from T c \<Longrightarrow> silent_from T (consume n c)"
proof -
  assume a: "silent_from T c"
  then have "fold max (map fst (take n (incoming c))) (clock c) \<le> T"
    by (intro fold_max_le) (auto simp: silent_from_def dest!: in_set_takeD)
  then show ?thesis using a by (auto simp: silent_from_def consume_def dest!: in_set_dropD)
qed

lemma reading_consume:
  assumes "reading_conn k T stop c" "n \<le> length (readable c)"
  shows "reading_conn k T stop (consume n c)"
proof -
  obtain d where d: "rd_deadline c = Some d" "d \<le> T + k * second" using assms(1) by (auto simp: reading_conn_def)
  have "clock (consume n c) \<le> T + k * second" if "clock c \<le> T + k * second"
    using consume_clock [OF assms(2) d(1), of "T + k * second"] that d(2) by (simp add: max_def split: if_splits)
  then show ?thesis using assms(1) silent_consume [of T c n]
    by (auto simp: reading_conn_def stall_ends_def)
qed

lemma reading_clock: "reading_conn k T stop c \<Longrightarrow> clock c \<le> T + k * second"
  by (auto simp: reading_conn_def silent_from_def)

lemma read_error_over:
  assumes "reading_conn k T stop c" "read_error c = (e, c1)"
  shows "conn_over (T + k * second) c1"
proof -
  obtain d where d: "rd_deadline c = Some d" "d \<le> T + k * second" "\<not> hung c"
    using assms(1) by (auto simp: reading_conn_def)
  have "clock (consume (length (readable c)) c) \<le> T + k * second"
    using reading_clock [OF reading_consume [OF assms(1)]] by simp
  moreover have "t < d" if "in_time c t" for t using that d by (simp add: in_time_def)
  ultimately show ?thesis using assms(2) d
    by (fastforce simp: read_error_def conn_over_def Let_def split: if_splits option.splits prod.splits)
qed

lemma reading_timer:
  assumes "k \<le> 60"
  shows "timer (reading_conn k T stop) (T + 60 * second)"
proof -
  have k: "T + k * second \<le> T + 60 * second" using assms by simp
  have "writing (reading_conn k T stop) (T + 60 * second)"
  proof (rule writingI)
    fix c
    assume c: "reading_conn k T stop c"
    then show "\<not> hung c \<and> clock c \<le> T + 60 * second \<and> stall_ends (T + 60 * second) c"
      using le_trans [OF reading_clock [OF c] k] unfolding reading_conn_def by blast
  qed (auto simp: reading_conn_def silent_from_def stall_ends_def split: option.splits)
  then show ?thesis
    using reading_consume read_error_over k unfolding timer_def conn_over_def by (meson le_trans)
qed

text \<open>The same for whole worlds.\<close>

lemma cancelled_by_cong: "cancelled_at w1 = cancelled_at w \<Longrightarrow> cancelled_by T w1 = cancelled_by T w"
  by (simp add: cancelled_by_def)

lemma sends_settled:
  assumes "sends ok w w1" "settled T w"
  shows "ok \<Longrightarrow> settled T w1" "expired T w1"
  using sendsD [OF assms(1) settled_writing, of T "cancelled_by T w"] assms cancelled_by_cong [of w1 w T]
  unfolding settled_def expired_conn by (simp_all add: sends_def)

lemma sends_watched:
  assumes "sends ok w w1" "watched T w"
  shows "ok \<Longrightarrow> watched T w1" "expired T w1"
  using sendsD [OF assms(1) watched_writing, of T "cancelled_by T w"] assms cancelled_by_cong [of w1 w T]
  unfolding watched_def expired_conn by (simp_all add: sends_def)

lemma paced_reading:
  assumes "paced ok w w1" "reading k T w" "k \<le> 60"
  shows "ok \<Longrightarrow> reading k T w1" "expired T w1"
  using pacedD [OF assms(1) reading_timer, of k T "cancelled_by T w"] assms cancelled_by_cong [of w1 w T]
  unfolding reading_def expired_conn by (simp_all add: paced_def)

lemma settled_expired: "settled T w \<Longrightarrow> expired T w"
  by (simp add: settled_def settled_conn_def expired_def now_def)

lemma watched_expired [simp]: "watched T w \<Longrightarrow> expired T w"
  by (auto simp: watched_def watched_conn_def expired_def now_def silent_from_def)

lemma reading_expired: "reading k T w \<Longrightarrow> k \<le> 60 \<Longrightarrow> expired T w"
  using paced_reading(2) [of True w w] by simp

lemma reading_watched: "reading k T w \<Longrightarrow> k \<le> 60 \<Longrightarrow> watched T w"
proof -
  assume a: "reading k T w" "k \<le> 60"
  have "d \<le> T + 60 * second" if "d \<le> T + k * second" for d
    using that mult_right_mono [OF a(2), of second] by linarith
  then show ?thesis using a(1) unfolding reading_def watched_def reading_conn_def watched_conn_def by blast
qed

lemma settled_deadline: "settled T w \<Longrightarrow> reading n T (set_read_deadline n w)"
  by (auto simp: settled_def settled_conn_def reading_def reading_conn_def set_read_deadline_def SetReadDeadline_def
      now_def cancelled_by_def stall_ends_def silent_from_def split: option.splits)

lemma reading_deadline: "reading k T w \<Longrightarrow> reading (k + n) T (set_read_deadline n w)"
proof -
  assume a: "reading k T w"
  have m: "(k + n) * second = k * second + n * second" by (rule add_mult_distrib)
  have "clock (wconn w) \<le> T + k * second" using a reading_clock unfolding reading_def by blast
  then show ?thesis using a unfolding reading_def reading_conn_def m
    by (auto simp: set_read_deadline_def SetReadDeadline_def now_def cancelled_by_def stall_ends_def silent_from_def)
qed

text \<open>At the head of the loop the handler has looked at the context: the deadline of an earlier round is
  good for another read.\<close>

lemma watched_reading: "watched T w \<Longrightarrow> \<not> ctx_Done w \<Longrightarrow> reading 60 T w"
proof -
  assume a: "watched T w" "\<not> ctx_Done w"
  have "clock (wconn w) \<le> T"
    using a by (auto simp: watched_def watched_conn_def silent_from_def cancelled_by_def ctx_Done_def split: option.splits)
  then show ?thesis using a(1) by (auto simp: watched_def watched_conn_def reading_def reading_conn_def)
qed

lemma watched_deadline: "watched T w \<Longrightarrow> watched T (set_read_deadline 60 w)"
  by (auto simp: watched_def watched_conn_def set_read_deadline_def SetReadDeadline_def now_def cancelled_by_def
      stall_ends_def silent_from_def)

lemma settled_simps [simp]:
  "settled T (log_event e w) = settled T w" "settled T (w\<lparr>entropy := x\<rparr>) = settled T w"
  "watched T (log_event e w) = watched T w" "watched T (w\<lparr>entropy := x\<rparr>) = watched T w"
  "reading k T (log_event e w) = reading k T w" "reading k T (w\<lparr>entropy := x\<rparr>) = reading k T w"
  by (simp_all add: settled_def watched_def reading_def cancelled_by_def)

text \<open>One round of a handler's loop: it goes on, or gives up within the time.\<close>

definition goes_on :: "('a) world_scheme \<Rightarrow> ('a) world_scheme \<Rightarrow> bool" where
  "goes_on w w1 \<longleftrightarrow> (\<forall>T. watched T w \<longrightarrow> watched T w1)"

definition gives_up :: "('a) world_scheme \<Rightarrow> ('a) world_scheme \<Rightarrow> bool" where
  "gives_up w w1 \<longleftrightarrow> (\<forall>T. watched T w \<longrightarrow> expired T w1)"

lemma gives_up_now: "gives_up w w"
  by (simp add: gives_up_def)

lemma round_reads:
  assumes "\<not> ctx_Done w" "paced ok w w1"
  shows "gives_up w w1" "ok \<Longrightarrow> goes_on w w1"
  using paced_reading [OF assms(2) watched_reading [OF _ assms(1)]] reading_watched [of 60]
  unfolding gives_up_def goes_on_def by (simp, meson order_refl)

lemma goes_on_sends:
  assumes "goes_on w w1" "sends ok w1 w2"
  shows "gives_up w w2" "ok \<Longrightarrow> goes_on w w2"
  using assms sends_watched [OF assms(2)] unfolding goes_on_def gives_up_def by blast+

lemma goes_on_deadline: "goes_on w w1 \<Longrightarrow> goes_on w (set_read_deadline 60 w1)"
  by (simp add: goes_on_def watched_deadline)

lemma goes_on_log: "goes_on w w1 \<Longrightarrow> goes_on w (log_event e w1)"
  by (simp add: goes_on_def)

lemma write_bytes_open:
  assumes "wr_cap (wconn w) = None" "case wr_deadline (wconn w) of None \<Rightarrow> True | Some d \<Rightarrow> now w < d"
  shows "write_bytes b w = (None, w\<lparr>wconn := (wconn w)\<lparr>out := out (wconn w) @ b\<rparr>\<rparr>)"
  using assms by (auto simp: write_bytes_def conn_Write_def now_def split: option.splits)

definition wr_open :: "conn \<Rightarrow> bool" where
  "wr_open c \<longleftrightarrow> wr_cap c = None \<and> (case wr_deadline c of None \<Rightarrow> True | Some d \<Rightarrow> clock c < d)"

lemma write_wr_open:
  "wr_open (wconn w) \<Longrightarrow> write_bytes b w = (None, w\<lparr>wconn := (wconn w)\<lparr>out := out (wconn w) @ b\<rparr>\<rparr>)"
  by (rule write_bytes_open) (auto simp: wr_open_def now_def split: option.splits)

lemma wr_open_out [simp]: "wr_open (c\<lparr>out := b\<rparr>) = wr_open c" "wr_open (c\<lparr>rd_deadline := d\<rparr>) = wr_open c"
  by (cases "wr_deadline c"; simp add: wr_open_def)+

text \<open>A client that still takes data when \<open>n\<close> of its bytes have come in took data before.\<close>

lemma wr_open_earlier:
  assumes "wr_open (consume n c)" "m \<le> n"
  shows "wr_open (consume m c)"
proof -
  obtain j where j: "n = m + j" using assms(2) le_Suc_ex by blast
  have "clock (consume m c) \<le> clock (consume n c)"
    unfolding j by (simp add: consume_def take_add fold_max_ge)
  then show ?thesis using assms(1) by (auto simp: wr_open_def split: option.splits)
qed

lemma consume_out: "consume n (c\<lparr>out := b\<rparr>) = (consume n c)\<lparr>out := b\<rparr>"
  by (simp add: consume_def)

lemma consume_deadline: "consume n (wconn (set_read_deadline k w)) = (consume n (wconn w))\<lparr>rd_deadline := Some (now w + k * second)\<rparr>"
  by (simp add: consume_def set_read_deadline_def SetReadDeadline_def)

lemma wr_open_now [simp]: "wr_open (consume 0 c) = wr_open c"
  by (simp add: consume_def)

section \<open>Sequences of sends\<close>

text \<open>\<^verbatim>\<open>if err := send(...); err != nil { return }\<close>, one after the other.\<close>

type_synonym 'w sender = "'w \<Rightarrow> goerr option \<times> 'w"

fun send_all :: "'w sender list \<Rightarrow> 'w sender" where
  "send_all [] w = (None, w)"
| "send_all (f # fs) w = (case f w of (Some e, w1) \<Rightarrow> (Some e, w1) | (None, w1) \<Rightarrow> send_all fs w1)"

lemma send_all_keeps:
  assumes "send_all fs w = (e, w1)" "\<And>f v e' v'. f \<in> set fs \<Longrightarrow> f v = (e', v') \<Longrightarrow> R v v'"
    and "\<And>a. R a a" "\<And>a b c. R a b \<Longrightarrow> R b c \<Longrightarrow> R a c"
  shows "R w w1"
  using assms(1,2)
proof (induction fs arbitrary: w)
  case Nil
  then show ?case using assms(3) by simp
next
  case (Cons f fs)
  obtain e' v where f: "f w = (e', v)" by fastforce
  then have r: "R w v" using Cons.prems(2) [of f w e' v] by simp
  show ?case
  proof (cases e')
    case None
    then have "send_all fs v = (e, w1)" using Cons.prems(1) f by simp
    then have "R v w1"
    proof (rule Cons.IH)
      fix g x ex x'
      assume "g \<in> set fs" "g x = (ex, x')"
      then show "R x x'" using Cons.prems(2) [of g x ex x'] by simp
    qed
    with r show ?thesis by (rule assms(4))
  next
    case (Some x)
    then show ?thesis using Cons.prems(1) f r by simp
  qed
qed

lemma send_all_sends:
  assumes "send_all fs w = (e, w1)" "\<And>f v e' v'. f \<in> set fs \<Longrightarrow> f v = (e', v') \<Longrightarrow> sends (e' = None) v v'"
  shows "sends (e = None) w w1"
  using assms
proof (induction fs arbitrary: w)
  case (Cons f fs)
  obtain e' v where f: "f w = (e', v)" by fastforce
  then have s: "sends (e' = None) w v" using Cons.prems(2) by (meson list.set_intros(1))
  show ?case
  proof (cases e')
    case None
    then have "send_all fs v = (e, w1)" using Cons.prems(1) f by simp
    then have "sends (e = None) v w1" using Cons.IH Cons.prems(2) by (meson list.set_intros(2))
    then show ?thesis using s None sends_trans by auto
  next
    case (Some x)
    then show ?thesis using Cons.prems(1) f s by auto
  qed
qed simp

text \<open>A sender that is one write.\<close>

lemma send_all_writes:
  assumes "wr_open (wconn w)"
  shows "send_all (map write_bytes bs) w = (None, w\<lparr>wconn := (wconn w)\<lparr>out := out (wconn w) @ concat bs\<rparr>\<rparr>)"
  using assms
proof (induction bs arbitrary: w)
  case (Cons b bs)
  then show ?case by (simp add: write_wr_open)
qed simp

section \<open>Handler loops\<close>

text \<open>
  Every protocol handler is a loop whose body reads one request and answers it. The contract: the
  loop is the iteration of its step, and a step that goes on has used up input. Then the loop
  always comes to an end, and what each step keeps holds at the end.
\<close>

locale session_loop =
  fixes step :: "'s \<Rightarrow> 's ctl"
    and run :: "'s \<Rightarrow> 's option"
    and remaining :: "'s \<Rightarrow> nat"
  assumes run_unfold:
      "run s = (case step s of Continue s' \<Rightarrow> run s' | Return s' \<Rightarrow> Some s' | Crash \<Rightarrow> None)"
    and progress: "step s = Continue s' \<Longrightarrow> remaining s' < remaining s"
begin

lemma loop_induct [case_names step]:
  assumes "\<And>s. (\<And>s'. step s = Continue s' \<Longrightarrow> P s') \<Longrightarrow> P s"
  shows "P s"
proof (induction "remaining s" arbitrary: s rule: less_induct)
  case less
  then show ?case using assms progress by blast
qed

lemma run_returns:
  assumes "I s"
    and "\<And>s. I s \<Longrightarrow> step s \<noteq> Crash"
    and "\<And>s s'. I s \<Longrightarrow> step s = Continue s' \<Longrightarrow> I s'"
  shows "\<exists>s'. run s = Some s'"
  using assms(1)
proof (induction s rule: loop_induct)
  case (step s)
  show ?case
  proof (cases "step s")
    case (Continue s')
    then show ?thesis using step assms(3) by (subst run_unfold) simp
  next
    case (Return s')
    then show ?thesis by (subst run_unfold) simp
  next
    case Crash
    then show ?thesis using step assms(2) by blast
  qed
qed

lemma run_invariant:
  assumes "run s = Some s'" "I s"
    and "\<And>s s'. I s \<Longrightarrow> step s = Continue s' \<Longrightarrow> I s'"
    and "\<And>s s'. I s \<Longrightarrow> step s = Return s' \<Longrightarrow> Q s'"
  shows "Q s'"
  using assms(1,2)
proof (induction s rule: loop_induct)
  case (step s)
  then show ?case using assms(3,4)
    by (auto simp: run_unfold [of s] split: ctl.splits)
qed

lemma run_related:
  assumes "run s = Some s'"
    and "\<And>a. R a a" "\<And>a b c. R a b \<Longrightarrow> R b c \<Longrightarrow> R a c"
    and "\<And>s s'. step s = Continue s' \<or> step s = Return s' \<Longrightarrow> R s s'"
  shows "R s s'"
  using assms(1)
proof (rule run_invariant [where I = "R s"])
  show "R s s" by (rule assms(2))
next
  fix a b
  assume "R s a" "step a = Continue b"
  then show "R s b" using assms(3,4) by blast
next
  fix a b
  assume "R s a" "step a = Return b"
  then show "R s b" using assms(3,4) by blast
qed

end

section \<open>A sample peer\<close>

text \<open>A peer whose bytes are all there at the start and that then closes: the concrete input of the
  examples.\<close>

definition quiet_conn :: "bytes \<Rightarrow> conn" where
  "quiet_conn b = \<lparr>remote = ''10.0.0.1:4000'', incoming = map (\<lambda>c. (0, c)) b, stream_end = Some (0, EOF), clock = 0,
     rd_deadline = None, wr_deadline = None, out = [], wr_cap = None, wr_stalls = False, hung = False\<rparr>"

definition quiet_world :: "bytes \<Rightarrow> bytes \<Rightarrow> world" where
  "quiet_world ent b = \<lparr>wconn = quiet_conn b,
     wstore = \<lparr>logf = [], file_open = True, disk_space = None, webhook = None, deliveries = [], diag = []\<rparr>,
     entropy = ent, cancelled_at = None\<rparr>"

lemma readable_quiet [simp]: "readable (wconn (quiet_world ent b)) = b"
  by (simp add: readable_def quiet_world_def quiet_conn_def in_time_def comp_def takeWhile_eq_all_conv [THEN iffD2])

lemma peer_quiet [simp]: "peer (quiet_world ent b) = (''10.0.0.1'', 4000)"
proof -
  have "char_of (52::nat) = CHR ''4''" "char_of (48::nat) = CHR ''0''" by code_simp+
  then have "JoinHostPort ''10.0.0.1'' (dec_nat 4000) = ''10.0.0.1:4000''"
    by (simp add: JoinHostPort_def dec_nat.simps digit_char_def)
  then show ?thesis using remote_ip_port_Join [of "''10.0.0.1''" "4000"]
    by (simp add: peer_def quiet_world_def quiet_conn_def)
qed

lemma settled_quiet [simp]: "settled T (quiet_world ent b)"
  by (auto simp: settled_def settled_conn_def silent_from_def stall_ends_def quiet_world_def quiet_conn_def)

lemma wr_open_quiet [simp]: "wr_open (wconn (quiet_world ent b))"
  by (simp add: wr_open_def quiet_world_def quiet_conn_def)

lemma wr_open_consume_quiet [simp]: "wr_open (consume n (wconn (quiet_world ent b)))"
  by (simp add: wr_open_def quiet_world_def quiet_conn_def)

lemma readable_quiet_deadline [simp]:
  assumes "0 < n"
  shows "readable (wconn (set_read_deadline n (quiet_world ent b))) = b"
proof -
  have "takeWhile (\<lambda>tb. in_time (wconn (set_read_deadline n (quiet_world ent b))) (fst tb)) (map (\<lambda>c. (0, c)) b)
      = map (\<lambda>c. (0, c)) b"
    using assms by (subst takeWhile_eq_all_conv)
      (auto simp: in_time_def set_read_deadline_def SetReadDeadline_def quiet_world_def quiet_conn_def now_def second_def)
  moreover have "incoming (wconn (quiet_world ent b)) = map (\<lambda>c. (0, c)) b"
    by (simp add: quiet_world_def quiet_conn_def)
  ultimately show ?thesis by (simp add: readable_def comp_def del: takeWhile_eq_all_conv)
qed

section \<open>Message framing\<close>

lemma takeWhile_drop:
  "k \<le> length (takeWhile P xs) \<Longrightarrow> takeWhile P (drop k xs) = drop k (takeWhile P xs)"
proof (induction xs arbitrary: k)
  case (Cons x xs)
  then show ?case by (cases k) auto
qed simp

lemma fold_max_less: "a < b \<Longrightarrow> \<forall>x \<in> set xs. x < b \<Longrightarrow> fold max xs (a::nat) < b"
  by (induction xs arbitrary: a) auto

lemma in_time_consume:
  assumes "k \<le> length (readable c)"
  shows "in_time (consume k c) t = in_time c t"
proof (cases "rd_deadline c")
  case (Some d)
  let ?ts = "map fst (take k (incoming c))"
  have "take k (incoming c) = take k (takeWhile (\<lambda>tb. in_time c (fst tb)) (incoming c))"
    using assms by (metis takeWhile_eq_take readable_def length_map min.absorb1 take_take)
  then have "\<forall>x \<in> set ?ts. in_time c x"
    by (auto dest!: in_set_takeD set_takeWhileD)
  then have early: "\<forall>x \<in> set ?ts. x < d \<and> (?ts \<noteq> [] \<longrightarrow> clock c < d)"
    using Some by (auto simp: in_time_def)
  show ?thesis
  proof (cases "clock c < d")
    case True
    then have "fold max ?ts (clock c) < d" using early by (intro fold_max_less) auto
    then show ?thesis using Some True by (auto simp: in_time_def consume_def)
  next
    case False
    then have "\<not> fold max ?ts (clock c) < d" using fold_max_ge [of "clock c" ?ts] by linarith
    then show ?thesis using Some False by (auto simp: in_time_def consume_def)
  qed
qed (simp add: in_time_def)

lemma readable_consume: "k \<le> length (readable c) \<Longrightarrow> readable (consume k c) = drop k (readable c)"
  using takeWhile_drop [of k "\<lambda>tb. in_time c (fst tb)" "incoming c"]
  by (simp add: readable_def in_time_consume drop_map)

lemma readable_out [simp]: "readable (c\<lparr>out := b\<rparr>) = readable c"
proof -
  have "in_time (c\<lparr>out := b\<rparr>) t = in_time c t" for t by (cases "rd_deadline c") (simp_all add: in_time_def)
  then show ?thesis by (simp add: readable_def)
qed

text \<open>A later read deadline only makes more of the input readable.\<close>

lemma readable_later:
  assumes "rd_deadline c = Some d" "d \<le> d'"
  shows "prefix (readable c) (readable (c\<lparr>rd_deadline := Some d'\<rparr>))"
proof -
  let ?P = "\<lambda>tb. in_time c (fst tb)" and ?Q = "\<lambda>tb. in_time (c\<lparr>rd_deadline := Some d'\<rparr>) (fst tb)"
  have imp: "?P tb \<Longrightarrow> ?Q tb" for tb :: "nat \<times> char"
    using assms by (simp add: in_time_def)
  have "prefix (takeWhile ?P xs) (takeWhile ?Q xs)" for xs
    by (induction xs) (use imp in auto)
  then have "prefix (map snd (takeWhile ?P (incoming c))) (map snd (takeWhile ?Q (incoming c)))"
    by (rule map_mono_prefix)
  then show ?thesis by (simp add: readable_def)
qed

lemma consume_consume: "consume j (consume k c) = consume (k + j) c"
proof -
  have "drop j (drop k (incoming c)) = drop (k + j) (incoming c)" by (simp add: add.commute)
  then show ?thesis by (simp add: consume_def take_add)
qed

lemma read_full_readable:
  assumes "readable (wconn w) = b @ rest"
  shows "read_full (length b) w = (Inr b, w\<lparr>wconn := consume (length b) (wconn w)\<rparr>)"
  using assms by (simp add: read_full_def ReadFull_def)

fun read_msgs ::
  "(('a) world_scheme \<Rightarrow> (goerr + 'm) \<times> ('a) world_scheme) \<Rightarrow> nat \<Rightarrow> ('a) world_scheme \<Rightarrow> 'm list \<times> ('a) world_scheme"
where
  "read_msgs rd 0 w = ([], w)"
| "read_msgs rd (Suc n) w =
    (case rd w of
       (Inl e, w1) \<Rightarrow> ([], w1)
     | (Inr m, w1) \<Rightarrow> (let (ms, w2) = read_msgs rd n w1 in (m # ms, w2)))"

text \<open>
  What a message reader promises: it undoes the encoding of a valid message and leaves exactly
  what follows it, and every message it returns has used up input. A bounded reader returns
  nothing but valid messages.
\<close>

locale framed_reader =
  fixes read :: "('a) world_scheme \<Rightarrow> (goerr + 'm) \<times> ('a) world_scheme"
    and encode :: "'m \<Rightarrow> bytes"
    and valid :: "'m \<Rightarrow> bool"
  assumes read_encode: "valid m \<Longrightarrow> readable (wconn w) = encode m @ rest \<Longrightarrow>
      read w = (Inr m, w\<lparr>wconn := consume (length (encode m)) (wconn w)\<rparr>)"
    and read_progress: "read w = (Inr m, w1) \<Longrightarrow> length (incoming (wconn w1)) < length (incoming (wconn w))"
    and read_evolves: "read w = (r, w1) \<Longrightarrow> evolves w w1"
begin

lemma read_stream:
  assumes "\<forall>m \<in> set ms. valid m" "readable (wconn w) = concat (map encode ms) @ rest"
  shows "fst (read_msgs read (length ms) w) = ms
    \<and> readable (wconn (snd (read_msgs read (length ms) w))) = rest"
  using assms
proof (induction ms arbitrary: w)
  case (Cons m ms)
  let ?w1 = "w\<lparr>wconn := consume (length (encode m)) (wconn w)\<rparr>"
  have r: "readable (wconn w) = encode m @ (concat (map encode ms) @ rest)" using Cons.prems by simp
  then have rd: "read w = (Inr m, ?w1)" using Cons.prems by (intro read_encode) auto
  have "readable (wconn ?w1) = concat (map encode ms) @ rest"
    using r by (simp add: readable_consume)
  from Cons.IH [OF _ this] Cons.prems rd show ?case by (simp add: split_beta)
qed simp

end

locale bounded_reader = framed_reader +
  assumes read_valid: "read w = (Inr m, w1) \<Longrightarrow> valid m"
begin

lemma read_msgs_valid: "m \<in> set (fst (read_msgs read n w)) \<Longrightarrow> valid m"
proof (induction n arbitrary: w)
  case (Suc n)
  obtain r w1 where r: "read w = (r, w1)" by fastforce
  then show ?case using Suc.prems Suc.IH [of w1] read_valid by (cases r) (auto simp: split_beta)
qed simp

lemma read_msgs_count: "length (fst (read_msgs read n w)) + length (incoming (wconn (snd (read_msgs read n w))))
    \<le> length (incoming (wconn w))"
proof (induction n arbitrary: w)
  case (Suc n)
  obtain r w1 where r: "read w = (r, w1)" by fastforce
  note e = evolves_incoming [OF read_evolves [OF r]]
  show ?case
  proof (cases r)
    case (Inl e)
    then show ?thesis using r e by simp
  next
    case (Inr m)
    then show ?thesis using r read_progress [of w m w1] Suc.IH [of w1] by (simp add: split_beta)
  qed
qed simp

end

end
