(* ===== verification/Fingerprint.thy ===== *)
theory Fingerprint
  imports Net
begin

text \<open>
  \<^verbatim>\<open>internal/fingerprint\<close>: the identifiers drawn from \<^verbatim>\<open>crypto/rand\<close>.

  The random source is the list of bytes it will deliver. A draw returns its value and the bytes
  left; \<^const>\<open>None\<close> is the panic on entropy failure, here a source that has run dry. Rejection
  sampling (\<^verbatim>\<open>rand.Int\<close>, the scramble bytes) consumes the source until it accepts, so with a
  source that never offers an acceptable value it ends in that panic too.
\<close>

type_synonym 'a draw = "bytes \<Rightarrow> ('a \<times> bytes) option"

definition mustRead :: "nat \<Rightarrow> bytes draw" where
  "mustRead n e = (if n \<le> length e then Some (take n e, drop n e) else None)"

fun BitLen :: "nat \<Rightarrow> nat" where
  "BitLen n = (if n = 0 then 0 else Suc (BitLen (n div 2)))"

declare BitLen.simps [simp del]

text \<open>\<^verbatim>\<open>rand.Int\<close> of \<^verbatim>\<open>crypto/rand\<close>: \<open>k\<close> bytes, the top byte cut to \<open>b\<close> bits, until the value is
  below the bound.\<close>

definition candidate :: "nat \<Rightarrow> bytes \<Rightarrow> nat" where
  "candidate b bs = (case bs of [] \<Rightarrow> 0 | x # xs \<Rightarrow> be_nat (char_of (of_char x mod 2 ^ b :: nat) # xs))"

function rand_Int_loop :: "nat \<Rightarrow> nat \<Rightarrow> nat \<Rightarrow> nat draw" where
  "rand_Int_loop mx k b e =
    (if k = 0 \<or> length e < k then None
     else if candidate b (take k e) < mx then Some (candidate b (take k e), drop k e)
     else rand_Int_loop mx k b (drop k e))"
  by pat_completeness auto
termination
  by (relation "measure (\<lambda>(mx, k, b, e). length e)") auto

declare rand_Int_loop.simps [simp del]

definition rand_Int :: "nat \<Rightarrow> nat draw" where
  "rand_Int mx e =
    (if mx = 0 then None
     else let bitLen = BitLen (mx - 1) in
       if bitLen = 0 then Some (0, e)
       else rand_Int_loop mx ((bitLen + 7) div 8) (if bitLen mod 8 = 0 then 8 else bitLen mod 8) e)"

definition randIntRange :: "int \<Rightarrow> int \<Rightarrow> int draw" where
  "randIntRange lo hi e =
    (if hi \<le> lo then Some (lo, e)
     else do { (n, e1) \<leftarrow> rand_Int (nat (hi - lo + 1)) e; Some (lo + int n, e1) })"

definition randHex :: "nat \<Rightarrow> bytes draw" where
  "randHex n e = do { (b, e1) \<leftarrow> mustRead n e; Some (hex_encode b, e1) }"

definition randUUIDv4 :: "bytes draw" where
  "randUUIDv4 e =
    do { (b, e1) \<leftarrow> mustRead 16 e;
         let b = b[6 := byte_or (byte_and (b ! 6) 0x0F) 0x40];
         let b = b[8 := byte_or (byte_and (b ! 8) 0x3F) 0x80];
         b0 \<leftarrow> go_slice b 0 4; b1 \<leftarrow> go_slice b 4 6; b2 \<leftarrow> go_slice b 6 8;
         b3 \<leftarrow> go_slice b 8 10; b4 \<leftarrow> go_slice b 10 16;
         Some (hex_encode b0 @ ''-'' @ hex_encode b1 @ ''-'' @ hex_encode b2 @ ''-''
               @ hex_encode b3 @ ''-'' @ hex_encode b4, e1) }"

definition node_chars :: string where
  "node_chars = ''ABCDEFGHIJKLMNOPQRSTUVWXYZabcdefghijklmnopqrstuvwxyz0123456789-_''"

fun randESNodeID_loop :: "nat \<Rightarrow> bytes draw" where
  "randESNodeID_loop 0 e = Some ([], e)"
| "randESNodeID_loop (Suc i) e =
    do { (n, e1) \<leftarrow> rand_Int (length node_chars) e;
         c \<leftarrow> go_index node_chars n;
         (cs, e2) \<leftarrow> randESNodeID_loop i e1;
         Some (c # cs, e2) }"

definition randESNodeID :: "bytes draw" where
  "randESNodeID = randESNodeID_loop 22"

definition randMAC :: "bytes draw" where
  "randMAC e =
    do { (b, e1) \<leftarrow> mustRead 6 e;
         let b = b[0 := byte_or (byte_and (b ! 0) 0xFE) 0x02];
         Some (hex_byte (b ! 0) @ '':'' @ hex_byte (b ! 1) @ '':'' @ hex_byte (b ! 2) @ '':''
               @ hex_byte (b ! 3) @ '':'' @ hex_byte (b ! 4) @ '':'' @ hex_byte (b ! 5), e1) }"

definition host_prefixes :: "string list" where
  "host_prefixes = [''node'', ''srv'', ''prod'', ''app'', ''db'', ''es'', ''cache'']"

definition randHostname :: "bytes draw" where
  "randHostname e =
    do { (suffix, e1) \<leftarrow> randIntRange 1 99 e;
         (idx, e2) \<leftarrow> randIntRange 0 (int (length host_prefixes) - 1) e1;
         p \<leftarrow> go_index host_prefixes (nat idx);
         Some (p @ pad 2 (nat suffix), e2) }"

definition PGSalt :: "bytes draw" where
  "PGSalt = mustRead 4"

definition PGPID :: "32 word draw" where
  "PGPID e = do { (n, e1) \<leftarrow> randIntRange 2000 65534 e; Some (word_of_int n, e1) }"

fun nonzero_byte :: "char draw" where
  "nonzero_byte [] = None"
| "nonzero_byte (v # e) = (if v \<noteq> NUL then Some (v, e) else nonzero_byte e)"

fun scramble_loop :: "nat \<Rightarrow> bytes draw" where
  "scramble_loop 0 e = Some ([], e)"
| "scramble_loop (Suc i) e =
    do { (v, e1) \<leftarrow> nonzero_byte e; (vs, e2) \<leftarrow> scramble_loop i e1; Some (v # vs, e2) }"

definition MySQLScramble :: "bytes draw" where
  "MySQLScramble = scramble_loop 20"

definition MySQLConnID :: "32 word draw" where
  "MySQLConnID e = do { (n, e1) \<leftarrow> randIntRange 1 (2 ^ 24 - 1) e; Some (word_of_int n, e1) }"

definition RandUint32 :: "32 word draw" where
  "RandUint32 e = do { (b, e1) \<leftarrow> mustRead 4 e; n \<leftarrow> le_uint32 b; Some (word_of_nat n, e1) }"

record FP =
  RedisRunID :: bytes
  RedisMasterReplID :: bytes
  RedisProcessID :: int
  RedisSaveEpoch :: int
  MySQLStartupTime :: nat
  MongoClusterID :: bytes
  MongoNodeID :: bytes
  MongoPID :: int
  ESNodeUUID :: bytes
  ESBuildHash :: bytes
  ESHostname :: bytes
  ESPID :: int
  ESMACAddress :: bytes
  StartTime :: nat

text \<open>\<open>t0\<close> and \<open>t1\<close> are the two readings of the clock.\<close>

definition FP_New :: "bytes \<Rightarrow> nat \<Rightarrow> nat \<Rightarrow> FP draw" where
  "FP_New esHostname t0 t1 e =
    do { (runid, e) \<leftarrow> randHex 20 e;
         (replid, e) \<leftarrow> randHex 20 e;
         (rpid, e) \<leftarrow> randIntRange 1000 65535 e;
         (off, e) \<leftarrow> randIntRange 300 86400 e;
         (cluster, e) \<leftarrow> randUUIDv4 e;
         (node, e) \<leftarrow> randUUIDv4 e;
         (mpid, e) \<leftarrow> randIntRange 1000 65535 e;
         (esnode, e) \<leftarrow> randESNodeID e;
         (hash, e) \<leftarrow> randHex 20 e;
         (espid, e) \<leftarrow> randIntRange 1000 65535 e;
         (mac, e) \<leftarrow> randMAC e;
         (host, e) \<leftarrow> (if esHostname = [] then randHostname e else Some (esHostname, e));
         Some (\<lparr>RedisRunID = runid, RedisMasterReplID = replid, RedisProcessID = rpid,
                RedisSaveEpoch = int (t0 div second) - off, MySQLStartupTime = t1,
                MongoClusterID = cluster, MongoNodeID = node, MongoPID = mpid, ESNodeUUID = esnode,
                ESBuildHash = hash, ESHostname = host, ESPID = espid, ESMACAddress = mac,
                StartTime = t0\<rparr>, e) }"

text \<open>The monotonic clock never reads less than \<open>StartTime\<close>.\<close>

definition UptimeSeconds :: "FP \<Rightarrow> nat \<Rightarrow> int" where
  "UptimeSeconds fp t = int ((t - StartTime fp) div second)"

section \<open>Random integers\<close>

lemma mustRead_Some:
  "mustRead n e = Some (b, e1) \<longleftrightarrow> n \<le> length e \<and> b = take n e \<and> e1 = drop n e"
  by (auto simp: mustRead_def)

lemma BitLen_bound: "n < 2 ^ BitLen n"
proof (induction n rule: BitLen.induct)
  case (1 n)
  show ?case
  proof (cases "n = 0")
    case False
    with "1.IH" have "n div 2 < 2 ^ BitLen (n div 2)" by simp
    then have "n < 2 * 2 ^ BitLen (n div 2)" by linarith
    then show ?thesis using False by (simp add: BitLen.simps [of n])
  qed (simp add: BitLen.simps)
qed

lemma BitLen_0: "BitLen n = 0 \<longleftrightarrow> n = 0"
  by (simp add: BitLen.simps [of n])

lemma rand_Int_loop_bound:
  "rand_Int_loop mx k b e = Some (n, e1) \<Longrightarrow> n < mx \<and> suffix e1 e"
proof (induction mx k b e rule: rand_Int_loop.induct)
  case (1 mx k b e)
  have "suffix (drop k e) e" by (rule suffix_drop)
  with 1 show ?case
    by (auto simp: rand_Int_loop.simps [of mx k b e] split: if_splits intro: suffix_order.trans)
qed

lemma rand_Int_bound: "rand_Int mx e = Some (n, e1) \<Longrightarrow> n < mx \<and> suffix e1 e"
  by (auto simp: rand_Int_def Let_def dest: rand_Int_loop_bound split: if_splits)

lemma randIntRange_bound:
  "lo \<le> hi \<Longrightarrow> randIntRange lo hi e = Some (n, e1) \<Longrightarrow> lo \<le> n \<and> n \<le> hi \<and> suffix e1 e"
  by (auto simp: randIntRange_def dest!: rand_Int_bound split: if_splits Option.bind_splits)

text \<open>Every value below the bound is the candidate of its own big-endian bytes.\<close>

lemma be_bytes_Suc: "be_bytes (Suc k) v = char_of (v div 256 ^ k) # be_bytes k v"
proof (induction k arbitrary: v)
  case (Suc k)
  have "be_bytes (Suc (Suc k)) v = be_bytes (Suc k) (v div 256) @ [char_of v]"
    by (simp add: be_bytes_def)
  also have "\<dots> = char_of (v div 256 div 256 ^ k) # be_bytes k (v div 256) @ [char_of v]"
    by (simp add: Suc.IH)
  also have "v div 256 div 256 ^ k = v div 256 ^ Suc k" by (simp add: div_mult2_eq)
  also have "be_bytes k (v div 256) @ [char_of v] = be_bytes (Suc k) v" by (simp add: be_bytes_def)
  finally show ?case .
qed (simp add: be_bytes_def)

lemma candidate_be_bytes:
  assumes "v < 2 ^ (8 * k + b)" "b \<le> 8"
  shows "candidate b (be_bytes (Suc k) v) = v"
proof -
  have "(2::nat) ^ (8 * k) = 256 ^ k" using power_mult [of "2::nat" 8 k] by simp
  then have "v < 2 ^ b * 256 ^ k" using assms(1) by (simp add: power_add mult.commute)
  then have "v div 256 ^ k < 2 ^ b" by (simp add: less_mult_imp_div_less)
  moreover have "(2::nat) ^ b \<le> 2 ^ 8" using assms(2) by (rule power_increasing) simp
  ultimately have q: "v div 256 ^ k < 2 ^ b" "v div 256 ^ k < 256" by simp_all
  then have "candidate b (be_bytes (Suc k) v) = be_nat (be_bytes (Suc k) v)"
    by (simp add: candidate_def be_bytes_Suc)
  also have "\<dots> = v" using assms(1) q
    by (subst be_nat_be_bytes_id) (auto simp: div_less_iff_less_mult)
  finally show ?thesis .
qed

lemma bits_split:
  assumes "0 < (n::nat)"
  shows "\<exists>k. (n + 7) div 8 = Suc k \<and> n = 8 * k + (if n mod 8 = 0 then 8 else n mod 8)
    \<and> (if n mod 8 = 0 then 8 else n mod 8) \<le> 8"
proof (cases "n mod 8 = 0")
  case True
  then obtain m where "n = 8 * m" by auto
  with assms show ?thesis by (intro exI [of _ "m - 1"]) auto
next
  case False
  define q r where "q = n div 8" and "r = n mod 8"
  have "n = 8 * q + r" "0 < r" "r < 8" using False by (auto simp: q_def r_def)
  then show ?thesis by (intro exI [of _ q]) auto
qed

lemma rand_Int_surj:
  assumes "v < mx"
  shows "\<exists>e. rand_Int mx e = Some (v, [])"
proof (cases "BitLen (mx - 1) = 0")
  case True
  then have "v = 0" using assms by (simp add: BitLen_0)
  with True assms have "rand_Int mx [] = Some (v, [])" by (simp add: rand_Int_def)
  then show ?thesis ..
next
  case False
  define bl where "bl = BitLen (mx - 1)"
  define b where "b = (if bl mod 8 = 0 then 8 else bl mod 8)"
  have nz: "0 < bl" using False by (simp add: bl_def)
  obtain k where k: "(bl + 7) div 8 = Suc k" "bl = 8 * k + b" "b \<le> 8"
    using bits_split [OF nz] unfolding b_def by blast
  have "v < 2 ^ bl" using assms BitLen_bound [of "mx - 1"] by (simp add: bl_def)
  then have "candidate b (be_bytes (Suc k) v) = v" using k candidate_be_bytes by simp
  then have "rand_Int_loop mx (Suc k) b (be_bytes (Suc k) v) = Some (v, [])"
    using assms by (simp add: rand_Int_loop.simps [of mx "Suc k" b])
  then have "rand_Int mx (be_bytes (Suc k) v) = Some (v, [])"
    unfolding rand_Int_def Let_def bl_def [symmetric] b_def [symmetric] k(1) using assms nz by simp
  then show ?thesis ..
qed

text \<open>A draw from a range is a value of the range, and every value of the range can be drawn.\<close>

theorem randIntRange_exact_range:
  assumes "lo \<le> hi"
  shows "(\<exists>e e1. randIntRange lo hi e = Some (n, e1)) \<longleftrightarrow> lo \<le> n \<and> n \<le> hi"
proof
  assume "\<exists>e e1. randIntRange lo hi e = Some (n, e1)"
  then show "lo \<le> n \<and> n \<le> hi" using randIntRange_bound [OF assms] by blast
next
  assume n: "lo \<le> n \<and> n \<le> hi"
  show "\<exists>e e1. randIntRange lo hi e = Some (n, e1)"
  proof (cases "lo = hi")
    case True
    with n have "randIntRange lo hi [] = Some (n, [])" by (simp add: randIntRange_def)
    then show ?thesis by blast
  next
    case False
    have "nat (n - lo) < nat (hi - lo + 1)" using n by simp
    then obtain e where "rand_Int (nat (hi - lo + 1)) e = Some (nat (n - lo), [])"
      using rand_Int_surj by blast
    then have "randIntRange lo hi e = Some (n, [])" using assms False n by (simp add: randIntRange_def)
    then show ?thesis by blast
  qed
qed

theorem randIntRange_exact_range_witness:
  "(\<exists>e e1. randIntRange 1000 65535 e = Some (4242, e1)) \<and> \<not> (\<exists>e e1. randIntRange 1000 65535 e = Some (999, e1))"
  using randIntRange_exact_range [of 1000 65535 4242] randIntRange_exact_range [of 1000 65535 999] by simp

section \<open>Identifiers\<close>

definition is_hex :: "char \<Rightarrow> bool" where
  "is_hex c \<longleftrightarrow> in_range 48 57 c \<or> in_range 97 102 c"

lemma is_hex_hex_digit: "d < 16 \<Longrightarrow> is_hex (hex_digit d)"
  by (auto simp: is_hex_def hex_digit_def in_range_def)

lemma hex_byte_hex: "list_all is_hex (hex_byte c)"
proof -
  have "(of_char c :: nat) div 16 < 16" using of_char_nat_bound [of c] by (simp del: of_char_nat_bound)
  then show ?thesis by (simp add: hex_byte_def is_hex_hex_digit)
qed

lemma hex_encode_hex: "list_all is_hex (hex_encode bs)"
  by (induction bs) (use hex_byte_hex in \<open>auto simp: hex_encode_def\<close>)

lemma length_hex_encode: "length (hex_encode bs) = 2 * length bs"
  by (induction bs) (auto simp: hex_encode_def hex_byte_def)

lemma randHex_Some:
  "randHex n e = Some (h, e1) \<Longrightarrow> length h = 2 * n \<and> list_all is_hex h \<and> suffix e1 e"
  by (auto simp: randHex_def mustRead_Some length_hex_encode hex_encode_hex suffix_drop split: Option.bind_splits)

text \<open>The shape of a version 4 UUID: five groups of lower-case hexadecimal digits, the version digit
  4 and the variant digit 8, 9, a or b.\<close>

definition uuid_v4 :: "bytes \<Rightarrow> bool" where
  "uuid_v4 u \<longleftrightarrow>
     length u = 36 \<and> u ! 8 = CHR ''-'' \<and> u ! 13 = CHR ''-'' \<and> u ! 18 = CHR ''-'' \<and> u ! 23 = CHR ''-''
     \<and> u ! 14 = CHR ''4'' \<and> u ! 19 \<in> {CHR ''8'', CHR ''9'', CHR ''a'', CHR ''b''}
     \<and> list_all is_hex (take 8 u @ take 4 (drop 9 u) @ take 4 (drop 14 u) @ take 4 (drop 19 u) @ drop 24 u)"

lemma hex_digit_4: "hex_digit 4 = CHR ''4''"
  by (simp add: hex_digit_def char_of_def bit_simps)

lemma hex_digit_variant: "8 \<le> d \<Longrightarrow> d < 12 \<Longrightarrow> hex_digit d \<in> {CHR ''8'', CHR ''9'', CHR ''a'', CHR ''b''}"
proof -
  assume "8 \<le> d" "d < 12"
  then have "d \<in> {8, 9, 10, 11}" by auto
  then show ?thesis by (auto simp: hex_digit_def char_of_eq_iff take_bit_eq_mod)
qed

lemma randUUIDv4_shape:
  assumes "length b = 16"
  shows "randUUIDv4 (b @ e) = Some
    (hex_encode (take 4 b) @ ''-'' @ hex_encode (take 2 (drop 4 b)) @ ''-''
     @ hex_encode [byte_or (byte_and (b ! 6) 0x0F) 0x40, b ! 7] @ ''-''
     @ hex_encode [byte_or (byte_and (b ! 8) 0x3F) 0x80, b ! 9] @ ''-'' @ hex_encode (drop 10 b), e)"
proof -
  obtain b0 b1 b2 b3 b4 b5 b6 b7 b8 b9 t where "b = [b0, b1, b2, b3, b4, b5, b6, b7, b8, b9] @ t" "length t = 6"
    using assms by (auto simp: numeral_eq_Suc length_Suc_conv)
  then show ?thesis
    by (simp add: randUUIDv4_def mustRead_def go_slice_def)
qed

lemma randUUIDv4_v4:
  "16 \<le> length e \<Longrightarrow> \<exists>u. randUUIDv4 e = Some (u, drop 16 e) \<and> uuid_v4 u"
proof -
  assume "16 \<le> length e"
  then obtain b where b: "b = take 16 e" "length b = 16" by simp
  have "(of_char (byte_or (byte_and (b ! 6) 0x0F) 0x40) :: nat) div 16 = 4"
    unfolding byte_or_and_low by simp
  then have v: "hex_byte (byte_or (byte_and (b ! 6) 0x0F) 0x40) ! 0 = CHR ''4''"
    by (simp add: hex_byte_def hex_digit_4)
  have "8 \<le> (of_char (byte_or (byte_and (b ! 8) 0x3F) 0x80) :: nat) div 16"
      "(of_char (byte_or (byte_and (b ! 8) 0x3F) 0x80) :: nat) div 16 < 12"
    unfolding byte_or_and_low by simp_all
  then have w: "hex_byte (byte_or (byte_and (b ! 8) 0x3F) 0x80) ! 0 \<in> {CHR ''8'', CHR ''9'', CHR ''a'', CHR ''b''}"
    by (simp add: hex_byte_def hex_digit_variant del: insert_iff)
  have len: "length (hex_encode (take 4 b)) = 8" "length (hex_encode (take 2 (drop 4 b))) = 4"
      "length (hex_encode [x, y]) = 4" "length (hex_encode (drop 10 b)) = 12" for x y
    using b by (simp_all add: length_hex_encode)
  define g0 g1 g4 where "g0 = hex_encode (take 4 b)" and "g1 = hex_encode (take 2 (drop 4 b))"
    and "g4 = hex_encode (drop 10 b)"
  define g2 g3 where "g2 = hex_encode [byte_or (byte_and (b ! 6) 0x0F) 0x40, b ! 7]"
    and "g3 = hex_encode [byte_or (byte_and (b ! 8) 0x3F) 0x80, b ! 9]"
  have g: "length g0 = 8" "length g1 = 4" "length g2 = 4" "length g3 = 4" "length g4 = 12"
    using len unfolding g0_def g1_def g2_def g3_def g4_def by simp_all
  have h: "list_all is_hex (g0 @ g1 @ g2 @ g3 @ g4)"
    unfolding g0_def g1_def g2_def g3_def g4_def by (simp add: hex_encode_hex)
  have d: "g2 ! 0 = CHR ''4''" "g3 ! 0 \<in> {CHR ''8'', CHR ''9'', CHR ''a'', CHR ''b''}"
    using v w by (simp_all add: g2_def g3_def hex_encode_def hex_byte_def del: insert_iff)
  have "uuid_v4 (g0 @ ''-'' @ g1 @ ''-'' @ g2 @ ''-'' @ g3 @ ''-'' @ g4)"
    using g h d by (simp add: uuid_v4_def nth_append nth_Cons')
  moreover have "randUUIDv4 e = Some (g0 @ ''-'' @ g1 @ ''-'' @ g2 @ ''-'' @ g3 @ ''-'' @ g4, drop 16 e)"
    using randUUIDv4_shape [OF b(2), of "drop 16 e"] b(1)
    unfolding g0_def g1_def g2_def g3_def g4_def by simp
  ultimately show ?thesis by blast
qed

text \<open>Sixteen random bytes give a well-formed version 4 UUID, and the draw uses up exactly those
  bytes.\<close>

theorem randUUIDv4_is_v4:
  "16 \<le> length e \<Longrightarrow> \<exists>u. randUUIDv4 e = Some (u, drop 16 e) \<and> uuid_v4 u"
  by (rule randUUIDv4_v4)

theorem randUUIDv4_is_v4_witness:
  "\<exists>u. randUUIDv4 (replicate 16 CHR 0xFF) = Some (u, []) \<and> uuid_v4 u"
  using randUUIDv4_is_v4 [of "replicate 16 CHR 0xFF"] by simp

lemma length_node_chars: "length node_chars = 64"
  by (simp add: node_chars_def)

lemma BitLen_63: "BitLen 63 = 6"
  by (simp add: BitLen.simps)

text \<open>The alphabet has 64 characters, so one random byte always gives one character.\<close>

lemma rand_Int_64: "rand_Int 64 (x # e) = Some (of_char x mod 64, e)"
proof -
  have "candidate 6 [x] = of_char x mod 64"
    by (simp add: candidate_def be_nat_def mod_less_divisor [THEN less_trans])
  then show ?thesis
    by (simp add: rand_Int_def Let_def BitLen_63 rand_Int_loop.simps [of 64 "Suc 0"])
qed

lemma rand_Int_64_Nil: "rand_Int 64 [] = None"
  by (simp add: rand_Int_def Let_def BitLen_63 rand_Int_loop.simps)

lemma randESNodeID_loop_eq:
  "randESNodeID_loop n e =
    (if n \<le> length e then Some (map (\<lambda>x. node_chars ! (of_char x mod 64)) (take n e), drop n e) else None)"
proof (induction n arbitrary: e)
  case (Suc n)
  show ?case
  proof (cases e)
    case Nil
    then show ?thesis by (simp add: length_node_chars rand_Int_64_Nil)
  next
    case (Cons x e')
    have "go_index node_chars (of_char x mod 64) = Some (node_chars ! (of_char x mod 64))"
      by (simp add: go_index_def length_node_chars)
    then show ?thesis using Cons Suc.IH [of e'] by (simp add: length_node_chars rand_Int_64)
  qed
qed simp

text \<open>A node identifier is 22 characters of the base64url alphabet, one for each of the next 22
  random bytes; the index never leaves the alphabet and no byte is rejected.\<close>

theorem randESNodeID_from_22_bytes:
  "randESNodeID e =
    (if 22 \<le> length e then Some (map (\<lambda>x. node_chars ! (of_char x mod 64)) (take 22 e), drop 22 e) else None)
   \<and> length node_chars = 64 \<and> distinct node_chars"
  by (simp add: randESNodeID_def randESNodeID_loop_eq length_node_chars) (simp add: node_chars_def)

lemma nonzero_byte_Some:
  "nonzero_byte e = Some (v, e1) \<Longrightarrow> v \<noteq> NUL \<and> filter (\<lambda>c. c \<noteq> NUL) e = v # filter (\<lambda>c. c \<noteq> NUL) e1 \<and> suffix e1 e"
  by (induction e rule: nonzero_byte.induct) (auto split: if_splits intro: suffix_ConsI)

lemma nonzero_byte_filter:
  "(nonzero_byte e = None) = (filter (\<lambda>c. c \<noteq> NUL) e = [])"
  by (induction e rule: nonzero_byte.induct) auto

lemma scramble_loop_Some:
  "scramble_loop n e = Some (b, e1) \<Longrightarrow> b = take n (filter (\<lambda>c. c \<noteq> NUL) e) \<and> length b = n \<and> suffix e1 e"
proof (induction n arbitrary: b e)
  case (Suc n)
  then obtain v e2 vs where *: "nonzero_byte e = Some (v, e2)" "scramble_loop n e2 = Some (vs, e1)" "b = v # vs"
    by (auto split: Option.bind_splits)
  from nonzero_byte_Some [OF *(1)] Suc.IH [OF *(2)] *(3) show ?case
    by (auto intro: suffix_order.trans)
qed simp

lemma scramble_loop_returns:
  "n \<le> length (filter (\<lambda>c. c \<noteq> NUL) e) \<Longrightarrow> \<exists>b e1. scramble_loop n e = Some (b, e1)"
proof (induction n arbitrary: e)
  case (Suc n)
  then have "nonzero_byte e \<noteq> None" unfolding nonzero_byte_filter by auto
  then obtain v e2 where v: "nonzero_byte e = Some (v, e2)" by auto
  with nonzero_byte_Some [OF v] Suc.prems have "n \<le> length (filter (\<lambda>c. c \<noteq> NUL) e2)" by simp
  from Suc.IH [OF this] v show ?case by auto
qed simp

text \<open>The MySQL challenge is the first twenty non-zero bytes of the random source: the
  rejection loop returns as soon as the source has delivered twenty of them, and the result has no
  null byte.\<close>

theorem MySQLScramble_first_nonzero_bytes:
  assumes "20 \<le> length (filter (\<lambda>c. c \<noteq> NUL) e)"
  shows "\<exists>b e1. MySQLScramble e = Some (b, e1) \<and> b = take 20 (filter (\<lambda>c. c \<noteq> NUL) e)
    \<and> length b = 20 \<and> NUL \<notin> set b \<and> suffix e1 e"
proof -
  obtain b e1 where s: "scramble_loop 20 e = Some (b, e1)"
    using scramble_loop_returns [OF assms] by blast
  moreover from scramble_loop_Some [OF s] have "NUL \<notin> set b"
    by (auto dest: in_set_takeD)
  ultimately show ?thesis using scramble_loop_Some [OF s] by (auto simp: MySQLScramble_def)
qed

theorem MySQLScramble_first_nonzero_bytes_witness:
  "\<exists>b e1. MySQLScramble (NUL # replicate 20 CHR 0xFF) = Some (b, e1) \<and> b = replicate 20 CHR 0xFF"
  using MySQLScramble_first_nonzero_bytes [of "NUL # replicate 20 CHR 0xFF"] by auto

lemma randMAC_Some:
  assumes "6 \<le> length e"
  shows "\<exists>m. randMAC e = Some (m, drop 6 e) \<and> length m = 17"
  using assms by (auto simp: randMAC_def mustRead_def hex_byte_def)

text \<open>The first octet of a generated MAC address has the group bit clear and the
  locally-administered bit set, and keeps the other six random bits.\<close>

theorem randMAC_unicast_local:
  assumes "6 \<le> length e"
  shows "\<exists>m o1. randMAC e = Some (m, drop 6 e) \<and> length m = 17 \<and> take 2 m = hex_byte o1
    \<and> (of_char o1 :: nat) mod 4 = 2 \<and> (of_char o1 :: nat) div 4 = of_char (e ! 0) div 4"
proof -
  obtain m where m: "randMAC e = Some (m, drop 6 e)" "length m = 17" using randMAC_Some [OF assms] by blast
  let ?o = "byte_or (byte_and (e ! 0) 0xFE) 0x02"
  have "take 2 m = hex_byte ?o" using m assms by (auto simp: randMAC_def mustRead_def hex_byte_def)
  moreover have "(of_char ?o :: nat) mod 4 = 2" "(of_char ?o :: nat) div 4 = of_char (e ! 0) div 4"
    unfolding byte_or_and_mac by presburger simp
  ultimately show ?thesis using m by blast
qed

theorem randMAC_unicast_local_witness:
  "\<exists>m o1. randMAC (replicate 6 CHR 0xFF) = Some (m, []) \<and> take 2 m = hex_byte o1 \<and> (of_char o1 :: nat) mod 4 = 2"
  using randMAC_unicast_local [of "replicate 6 CHR 0xFF"] by auto

section \<open>A fresh fingerprint\<close>

text \<open>The base64url alphabet, and MAC addresses: six octets in hexadecimal with colons between them, of which the
  first has the group bit clear and the locally-administered bit set.\<close>

definition is_base64url :: "char \<Rightarrow> bool" where
  "is_base64url c \<longleftrightarrow> in_range 65 90 c \<or> in_range 97 122 c \<or> in_range 48 57 c \<or> c = CHR ''-'' \<or> c = CHR ''_''"

definition mac_local_unicast :: "bytes \<Rightarrow> bool" where
  "mac_local_unicast m \<longleftrightarrow> length m = 17
     \<and> list_all (\<lambda>i. if i mod 3 = 2 then m ! i = CHR '':'' else is_hex (m ! i)) [0..<17]
     \<and> m ! 1 \<in> {CHR ''2'', CHR ''6'', CHR ''a'', CHR ''e''}"

definition FP_wf :: "FP \<Rightarrow> bool" where
  "FP_wf fp \<longleftrightarrow>
     length (RedisRunID fp) = 40 \<and> length (RedisMasterReplID fp) = 40 \<and> length (ESBuildHash fp) = 40
     \<and> list_all is_hex (RedisRunID fp @ RedisMasterReplID fp @ ESBuildHash fp)
     \<and> RedisProcessID fp \<in> {1000..65535} \<and> MongoPID fp \<in> {1000..65535} \<and> ESPID fp \<in> {1000..65535}
     \<and> uuid_v4 (MongoClusterID fp) \<and> uuid_v4 (MongoNodeID fp)
     \<and> length (ESNodeUUID fp) = 22 \<and> list_all is_base64url (ESNodeUUID fp)
     \<and> mac_local_unicast (ESMACAddress fp) \<and> ESHostname fp \<noteq> []
     \<and> int (StartTime fp div second) - 86400 \<le> RedisSaveEpoch fp
     \<and> RedisSaveEpoch fp \<le> int (StartTime fp div second) - 300"

lemma randUUIDv4_Some: "randUUIDv4 e = Some (u, e1) \<Longrightarrow> uuid_v4 u"
  using randUUIDv4_v4 [of e] by (fastforce simp: randUUIDv4_def mustRead_def split: if_splits)

lemma hex_digit_local: "d < 16 \<Longrightarrow> d mod 4 = 2 \<Longrightarrow> hex_digit d \<in> {CHR ''2'', CHR ''6'', CHR ''a'', CHR ''e''}"
proof -
  assume "d < 16" "d mod 4 = 2"
  then have "d = 2 \<or> d = 6 \<or> d = 10 \<or> d = 14" by presburger
  then show ?thesis by (auto simp: hex_digit_def char_of_eq_iff take_bit_eq_mod)
qed

lemma randMAC_local_unicast:
  assumes "randMAC e = Some (m, e1)"
  shows "mac_local_unicast m"
proof -
  have e: "6 \<le> length e" using assms by (auto simp: randMAC_def mustRead_def split: if_splits)
  obtain m' o1 where "randMAC e = Some (m', drop 6 e)" "take 2 m' = hex_byte o1" "(of_char o1 :: nat) mod 4 = 2"
    using randMAC_unicast_local [OF e] by blast
  then have t: "take 2 m = hex_byte o1" "(of_char o1 :: nat) mod 4 = 2" using assms by simp_all
  have mod4: "n mod 4 = 2 \<Longrightarrow> n mod 16 mod 4 = 2" "n mod 16 < 16" for n :: nat
    using mod_mod_cancel [of 4 16 n] by simp_all
  have l: "hex_byte o1 ! 1 \<in> {CHR ''2'', CHR ''6'', CHR ''a'', CHR ''e''}"
    using hex_digit_local [OF mod4(2) mod4(1) [OF t(2)]] by (simp add: hex_byte_def del: insert_iff)
  have "m ! 1 = take 2 m ! 1" by simp
  then have "m ! 1 \<in> {CHR ''2'', CHR ''6'', CHR ''a'', CHR ''e''}" using l t(1) by simp
  moreover have h: "is_hex (hex_digit (of_char c div 16))" "is_hex (hex_digit (of_char c mod 16))" for c :: char
    using hex_byte_hex [of c] by (simp_all add: hex_byte_def)
  have "length m = 17 \<and> list_all (\<lambda>i. if i mod 3 = 2 then m ! i = CHR '':'' else is_hex (m ! i)) [0..<17]"
    using assms e h by (auto simp: randMAC_def mustRead_def hex_byte_def upt_rec)
  ultimately show ?thesis by (simp add: mac_local_unicast_def)
qed

lemma node_chars_base64url: "list_all is_base64url node_chars"
  by (simp add: node_chars_def is_base64url_def in_range_def)

lemma randESNodeID_base64url:
  assumes "randESNodeID e = Some (m, e1)"
  shows "length m = 22" "list_all is_base64url m"
proof -
  have m: "22 \<le> length e" "m = map (\<lambda>x. node_chars ! (of_char x mod 64)) (take 22 e)"
    using assms by (simp_all add: randESNodeID_def randESNodeID_loop_eq split: if_splits)
  show "length m = 22" using m by simp
  have "is_base64url (node_chars ! (of_char x mod 64))" for x :: char
    using node_chars_base64url by (simp add: list_all_length length_node_chars)
  then show "list_all is_base64url m" by (simp add: m(2) list_all_iff)
qed

lemma randHostname_not_Nil: "randHostname e = Some (h, e1) \<Longrightarrow> h \<noteq> []"
  by (auto simp: randHostname_def pad_def split: Option.bind_splits)

text \<open>The index into the prefixes is always in range: the hostname draw only fails for lack of
  entropy.\<close>

lemma randHostname_index:
  "randIntRange 0 (int (length host_prefixes) - 1) e = Some (idx, e1) \<Longrightarrow> go_index host_prefixes (nat idx) \<noteq> None"
  using randIntRange_bound [of 0 6 e idx e1] by (auto simp: host_prefixes_def go_index_def)

lemma FP_New_wf:
  assumes "FP_New host t0 t1 e = Some (fp, e1)"
  shows "FP_wf fp"
proof -
  obtain e' a1 a2 a3 a4 a5 a6 a7 a8 a9 a10 a11 runid replid rpid off cluster node mpid esnode hash espid mac hn
    where d: "randHex 20 e = Some (runid, a1)" "randHex 20 a1 = Some (replid, a2)"
      "randIntRange 1000 65535 a2 = Some (rpid, a3)" "randIntRange 300 86400 a3 = Some (off, a4)"
      "randUUIDv4 a4 = Some (cluster, a5)" "randUUIDv4 a5 = Some (node, a6)"
      "randIntRange 1000 65535 a6 = Some (mpid, a7)" "randESNodeID a7 = Some (esnode, a8)"
      "randHex 20 a8 = Some (hash, a9)" "randIntRange 1000 65535 a9 = Some (espid, a10)"
      "randMAC a10 = Some (mac, a11)"
      "(if host = [] then randHostname a11 else Some (host, a11)) = Some (hn, e1)"
    and fp: "fp = \<lparr>RedisRunID = runid, RedisMasterReplID = replid, RedisProcessID = rpid,
                RedisSaveEpoch = int (t0 div second) - off, MySQLStartupTime = t1,
                MongoClusterID = cluster, MongoNodeID = node, MongoPID = mpid, ESNodeUUID = esnode,
                ESBuildHash = hash, ESHostname = hn, ESPID = espid, ESMACAddress = mac, StartTime = t0\<rparr>"
    using assms unfolding FP_New_def by (auto split: Option.bind_splits)
  have "hn \<noteq> []" using d(12) randHostname_not_Nil by (auto split: if_splits)
  moreover note randHex_Some [OF d(1)] randHex_Some [OF d(2)] randHex_Some [OF d(9)]
    randIntRange_bound [OF _ d(3)] randIntRange_bound [OF _ d(4)] randIntRange_bound [OF _ d(7)]
    randIntRange_bound [OF _ d(10)] randUUIDv4_Some [OF d(5)] randUUIDv4_Some [OF d(6)]
    randESNodeID_base64url [OF d(8)] randMAC_local_unicast [OF d(11)]
  ultimately show ?thesis by (simp add: FP_wf_def fp)
qed

text \<open>A source of zero bytes gives the lower end of each range.\<close>

lemma randIntRange_zeros:
  "randIntRange 1000 65535 (NUL # NUL # e) = Some (1000, e)"
  "randIntRange 300 86400 (NUL # NUL # NUL # e) = Some (300, e)"
  by (simp_all add: randIntRange_def rand_Int_def BitLen.simps Let_def rand_Int_loop.simps candidate_def be_nat_def)

lemma FP_New_zeros: "\<exists>fp. FP_New ''node-1'' 0 0 (replicate 129 NUL) = Some (fp, [])"
proof -
  have r: "randHex 20 (replicate (20 + n) NUL) = Some (hex_encode (replicate 20 NUL), replicate n NUL)"
    "randIntRange 1000 65535 (replicate (2 + n) NUL) = Some (1000, replicate n NUL)"
    "randIntRange 300 86400 (replicate (3 + n) NUL) = Some (300, replicate n NUL)" for n
    by (simp_all add: randHex_def mustRead_def numeral_eq_Suc randIntRange_zeros)
  have u: "\<exists>u. randUUIDv4 (replicate (16 + n) NUL) = Some (u, replicate n NUL)"
    "\<exists>m. randMAC (replicate (6 + n) NUL) = Some (m, replicate n NUL)"
    "\<exists>i. randESNodeID (replicate (22 + n) NUL) = Some (i, replicate n NUL)" for n
    using randUUIDv4_v4 [of "replicate (16 + n) NUL"] randMAC_Some [of "replicate (6 + n) NUL"]
    by (auto simp: randESNodeID_def randESNodeID_loop_eq)
  obtain u1 u2 m i where f: "randUUIDv4 (replicate 84 NUL) = Some (u1, replicate 68 NUL)"
      "randUUIDv4 (replicate 68 NUL) = Some (u2, replicate 52 NUL)"
      "randESNodeID (replicate 50 NUL) = Some (i, replicate 28 NUL)"
      "randMAC (replicate 6 NUL) = Some (m, [])"
    using u(1) [of 68] u(1) [of 52] u(3) [of 28] u(2) [of 0] by auto
  show ?thesis
    using r(1) [of 109] r(1) [of 89] r(2) [of 87] r(3) [of 84] r(2) [of 50] r(1) [of 8] r(2) [of 6] f
    by (simp add: FP_New_def)
qed

lemma FP_wf_exists: "\<exists>fp. FP_wf fp"
  using FP_New_zeros FP_New_wf by blast

text \<open>C37. Whenever a fingerprint is generated it is well formed, for every random source: run and replication
  id and build hash are forty hexadecimal digits, the process ids lie in their range, the MongoDB ids are version 4
  UUIDs, the node id is 22 characters of the base64url alphabet, the MAC address is unicast and locally
  administered, the save time lies between five minutes and a day before the start, and the host name is never
  empty and the configured one where there is one. In particular the slices \<^verbatim>\<open>RedisRunID[:16]\<close>,
  \<^verbatim>\<open>ESBuildHash[:8]\<close> and \<^verbatim>\<open>ESNodeUUID[:8]\<close> elsewhere are in range.\<close>

theorem FP_New_well_formed:
  assumes "FP_New host t0 t1 e = Some (fp, e1)"
  shows "FP_wf fp \<and> (host \<noteq> [] \<longrightarrow> ESHostname fp = host) \<and> StartTime fp = t0 \<and> MySQLStartupTime fp = t1"
  using assms FP_New_wf [OF assms] unfolding FP_New_def by (auto split: Option.bind_splits)

theorem FP_New_well_formed_witness:
  "\<exists>fp. FP_New ''node-1'' 0 0 (replicate 129 NUL) = Some (fp, []) \<and> FP_wf fp"
  using FP_New_zeros FP_New_well_formed by blast

end
