(* ===== verification/Http.thy ===== *)
theory Http
  imports Fingerprint JsonDecode
begin

text \<open>
  \<^verbatim>\<open>internal/proto/http\<close>: the Elasticsearch and CouchDB handlers and their routes, on top of what they
  use of \<^verbatim>\<open>net/http\<close> (the request multiplexer of Go 1.21, basic authentication) and
  \<^verbatim>\<open>encoding/base64\<close>.

  A request arrives parsed; \<open>Body\<close> is what can be read of its body before it ends or fails, and
  \<^const>\<open>None\<close> a body that is nil. A handler takes the time, the request and the store to the response and
  the store; \<^const>\<open>None\<close> is a panic. The text of a redirect is \<^verbatim>\<open>net/http\<close>'s and not modelled, its target
  is. \<open>Fingerprint\<close> brings the capture store along.
\<close>

section \<open>Requests and responses\<close>

record Request =
  Method :: bytes
  RequestURI :: bytes
  Path :: bytes
  RemoteAddr :: bytes
  Authorization :: bytes
  Body :: "bytes option"

record Response =
  Status :: nat
  Headers :: "(bytes \<times> bytes) list"
  Content :: bytes

type_synonym http_handler = "nat \<Rightarrow> Request \<Rightarrow> Store \<Rightarrow> (Response \<times> Store) option"

text \<open>\<^verbatim>\<open>json.NewEncoder(w).Encode(v)\<close> ends the value with a newline.\<close>

definition writeJSON :: "nat \<Rightarrow> jval \<Rightarrow> Response" where
  "writeJSON status v =
    \<lparr>Status = status,
     Headers = [(''Content-Type'', ''application/json; charset=UTF-8''), (''X-elastic-product'', ''Elasticsearch'')],
     Content = json_marshal v @ [LF]\<rparr>"

definition writeJSONWithContentType :: "nat \<Rightarrow> jval \<Rightarrow> Response" where
  "writeJSONWithContentType status v =
    \<lparr>Status = status,
     Headers = [(''Content-Type'', ''application/json; charset=utf-8''), (''Cache-Control'', ''must-revalidate'')],
     Content = json_marshal v @ [LF]\<rparr>"

section \<open>Helpers\<close>

definition path_rune :: "nat \<Rightarrow> nat" where
  "path_rune r =
    (if 97 \<le> r \<and> r \<le> 122 then r
     else if 65 \<le> r \<and> r \<le> 90 then r
     else if 48 \<le> r \<and> r \<le> 57 then r
     else if r = 47 \<or> r = 46 \<or> r = 45 \<or> r = 95 then r
     else 95)"

definition sanitizePath :: "bytes \<Rightarrow> bytes" where
  "sanitizePath s =
    (let s = (if 512 < length s then take 512 s else s) in strings_Map (\<lambda>r. Some (path_rune r)) s)"

text \<open>The data, and the request with the body that can be read again.\<close>

definition readLimitedBody :: "int \<Rightarrow> Request \<Rightarrow> bytes \<times> Request" where
  "readLimitedBody maxBytes r =
    (case Body r of
       None \<Rightarrow> ([], r)
     | Some b \<Rightarrow> (let data = take (nat maxBytes) b in (data, r\<lparr>Body := Some data\<rparr>)))"

definition logHTTPEvent :: "bytes \<Rightarrow> int \<Rightarrow> nat \<Rightarrow> Request \<Rightarrow> Store \<Rightarrow> Request \<times> Store" where
  "logHTTPEvent proto maxBodyBytes t r s =
    (let (ip, port) = remote_ip_port (RemoteAddr r);
         (body, r1) = readLimitedBody maxBodyBytes r
     in (r1, Log t (zero_Event\<lparr>Protocol := proto, SrcIP := ip, SrcPort := port,
                    Command := sanitizePath (Method r @ '' '' @ Path r), Payload := body\<rparr>) s))"

section \<open>Elasticsearch\<close>

record ESConfig =
  ESVersion :: bytes
  ESClusterName :: bytes
  ESNodeName :: bytes

definition es_build_date :: bytes where "es_build_date = ''2024-03-22T03:35:46.757803421Z''"

definition es_root_doc :: "FP \<Rightarrow> ESConfig \<Rightarrow> jval" where
  "es_root_doc fp cfg = JMap
    [(''name'', JStr (ESNodeName cfg)),
     (''cluster_name'', JStr (ESClusterName cfg)),
     (''cluster_uuid'', JStr (ESNodeUUID fp)),
     (''version'', JMap
        [(''number'', JStr (ESVersion cfg)),
         (''build_flavor'', JStr ''default''),
         (''build_type'', JStr ''tar''),
         (''build_hash'', JStr (ESBuildHash fp)),
         (''build_date'', JStr es_build_date),
         (''build_snapshot'', JBool False),
         (''lucene_version'', JStr ''9.10.0''),
         (''minimum_wire_compatibility_version'', JStr ''7.17.0''),
         (''minimum_index_compatibility_version'', JStr ''7.0.0'')]),
     (''tagline'', JStr ''You Know, for Search'')]"

definition es_not_found_doc :: "bytes \<Rightarrow> jval" where
  "es_not_found_doc safePath = JMap
    [(''error'', JMap
        [(''root_cause'', JArr
            [JMap [(''type'', JStr ''index_not_found_exception''), (''reason'', JStr ''no such index''),
                   (''index'', JStr safePath)]]),
         (''type'', JStr ''index_not_found_exception''),
         (''reason'', JStr ''no such index'')]),
     (''status'', JInt 404)]"

definition esCatchAllHandler :: "int \<Rightarrow> http_handler" where
  "esCatchAllHandler maxBodyBytes t r s =
    (let (r, s) = logHTTPEvent ProtoElasticsearch maxBodyBytes t r s; safePath = sanitizePath (Path r)
     in Some (writeJSON 404 (es_not_found_doc safePath), s))"

definition esRootHandler :: "FP \<Rightarrow> ESConfig \<Rightarrow> int \<Rightarrow> http_handler" where
  "esRootHandler fp cfg maxBodyBytes t r s =
    (if Path r \<noteq> ''/'' then esCatchAllHandler maxBodyBytes t r s
     else Some (writeJSON 200 (es_root_doc fp cfg), s))"

definition esNodesHandler :: "FP \<Rightarrow> ESConfig \<Rightarrow> http_handler" where
  "esNodesHandler fp cfg t r s = Some (writeJSON 200 (JMap
    [(''_nodes'', JMap [(''total'', JInt 1), (''successful'', JInt 1), (''failed'', JInt 0)]),
     (''cluster_name'', JStr (ESClusterName cfg)),
     (''nodes'', JMap
        [(ESNodeUUID fp, JMap
            [(''name'', JStr (ESNodeName cfg)),
             (''transport_address'', JStr (ESHostname fp @ '':9300'')),
             (''host'', JStr (ESHostname fp)),
             (''ip'', JStr (ESHostname fp)),
             (''version'', JStr (ESVersion cfg)),
             (''build_hash'', JStr (ESBuildHash fp)),
             (''roles'', JArr [JStr ''master'', JStr ''data'', JStr ''ingest'']),
             (''os'', JMap [(''name'', JStr ''Linux''), (''arch'', JStr ''amd64''), (''version'', JStr ''5.15.0''),
                (''available_processors'', JInt 4)]),
             (''process'', JMap [(''id'', JInt (ESPID fp)), (''mlockall'', JBool False)]),
             (''network'', JMap [(''primary_interface'', JMap [(''address'', JStr (ESHostname fp)), (''name'', JStr ''eth0''),
                (''mac_address'', JStr (ESMACAddress fp))])])])])]), s)"

definition esClusterHealthHandler :: "ESConfig \<Rightarrow> http_handler" where
  "esClusterHealthHandler cfg t r s = Some (writeJSON 200 (JMap
    [(''cluster_name'', JStr (ESClusterName cfg)),
     (''status'', JStr ''green''),
     (''timed_out'', JBool False),
     (''number_of_nodes'', JInt 1),
     (''number_of_data_nodes'', JInt 1),
     (''active_primary_shards'', JInt 0),
     (''active_shards'', JInt 0),
     (''relocating_shards'', JInt 0),
     (''initializing_shards'', JInt 0),
     (''unassigned_shards'', JInt 0),
     (''delayed_unassigned_shards'', JInt 0),
     (''number_of_pending_tasks'', JInt 0),
     (''number_of_in_flight_fetch'', JInt 0),
     (''task_max_waiting_in_queue_millis'', JInt 0),
     (''active_shards_percent_as_number'', JInt 100)]), s)"

definition esClusterStatsHandler :: "FP \<Rightarrow> ESConfig \<Rightarrow> http_handler" where
  "esClusterStatsHandler fp cfg t r s = Some (writeJSON 200 (JMap
    [(''cluster_uuid'', JStr (ESNodeUUID fp)),
     (''cluster_name'', JStr (ESClusterName cfg)),
     (''status'', JStr ''green''),
     (''nodes'', JMap [(''count'', JMap [(''total'', JInt 1)])]),
     (''indices'', JMap [(''count'', JInt 0), (''docs'', JMap [(''count'', JInt 0)])])]), s)"

definition esCatHandler :: "int \<Rightarrow> http_handler" where
  "esCatHandler maxBodyBytes t r s =
    (let (r, s) = logHTTPEvent ProtoElasticsearch maxBodyBytes t r s
     in Some (\<lparr>Status = 200, Headers = [(''Content-Type'', ''text/plain; charset=UTF-8'')], Content = []\<rparr>, s))"

definition esSearchHandler :: "int \<Rightarrow> http_handler" where
  "esSearchHandler maxBodyBytes t r s =
    (let (r, s) = logHTTPEvent ProtoElasticsearch maxBodyBytes t r s
     in Some (writeJSON 200 (JMap
       [(''took'', JInt 1),
        (''timed_out'', JBool False),
        (''_shards'', JMap [(''total'', JInt 0), (''successful'', JInt 0), (''failed'', JInt 0)]),
        (''hits'', JMap
           [(''total'', JMap [(''value'', JInt 0), (''relation'', JStr ''eq'')]),
            (''max_score'', JNull),
            (''hits'', JArr [])])]), s))"

definition esXpackHandler :: "FP \<Rightarrow> http_handler" where
  "esXpackHandler fp t r s = Some (writeJSON 200 (JMap
    [(''build'', JMap [(''date'', JStr es_build_date), (''hash'', JStr (ESBuildHash fp))]),
     (''license'', JMap [(''status'', JStr ''active''), (''type'', JStr ''basic'')])]), s)"

section \<open>Basic authentication\<close>

definition b64_val :: "char \<Rightarrow> nat option" where
  "b64_val c =
    (let n = of_char c in
     if 65 \<le> n \<and> n \<le> 90 then Some (n - 65)
     else if 97 \<le> n \<and> n \<le> 122 then Some (n - 71)
     else if 48 \<le> n \<and> n \<le> 57 then Some (n + 4)
     else if n = 43 then Some 62
     else if n = 47 then Some 63
     else None)"

text \<open>The quanta of a text without line breaks; padding only at the end, and required there.\<close>

fun b64_quanta :: "bytes \<Rightarrow> bytes option" where
  "b64_quanta [] = Some []"
| "b64_quanta (a # b # c # d # rest) =
    do { x \<leftarrow> b64_val a;
         y \<leftarrow> b64_val b;
         if c = CHR ''='' then
           (if d = CHR ''='' \<and> rest = [] then Some [char_of (4 * x + y div 16)] else None)
         else do {
           z \<leftarrow> b64_val c;
           if d = CHR ''='' then
             (if rest = [] then Some [char_of (4 * x + y div 16), char_of (16 * (y mod 16) + z div 4)] else None)
           else do {
             w \<leftarrow> b64_val d;
             bs \<leftarrow> b64_quanta rest;
             Some ([char_of (4 * x + y div 16), char_of (16 * (y mod 16) + z div 4), char_of (64 * (z mod 4) + w)] @ bs) } } }"
| "b64_quanta _ = None"

definition b64_DecodeString :: "bytes \<Rightarrow> bytes option" where
  "b64_DecodeString s = b64_quanta (filter (\<lambda>c. c \<noteq> CR \<and> c \<noteq> LF) s)"

definition ascii_lower :: "char \<Rightarrow> char" where
  "ascii_lower c = (if 65 \<le> (of_char c :: nat) \<and> (of_char c :: nat) \<le> 90 then char_of (of_char c + 32 :: nat) else c)"

definition BasicAuth :: "Request \<Rightarrow> (bytes \<times> bytes) option" where
  "BasicAuth r =
    (let auth = Authorization r in
     if length auth < 6 \<or> map ascii_lower (take 6 auth) \<noteq> ''basic '' then None
     else do {
       cs \<leftarrow> b64_DecodeString (drop 6 auth);
       case indexByte cs CHR '':'' of
         None \<Rightarrow> None
       | Some i \<Rightarrow> Some (take i cs, drop (i + 1) cs) })"

section \<open>CouchDB\<close>

definition creds_fields :: "(bytes \<times> bytes) jfield list" where
  "creds_fields =
    [(''name'', assign_string (\<lambda>x c. (x, snd c))),
     (''password'', assign_string (\<lambda>x c. (fst c, x)))]"

definition unmarshal_creds :: "bytes \<Rightarrow> (bytes \<times> bytes) option" where
  "unmarshal_creds body = do { v \<leftarrow> json_parse body; assign_struct False creds_fields v ([], []) }"

definition session_creds :: "bytes \<Rightarrow> Request \<Rightarrow> bytes \<times> bytes" where
  "session_creds body r =
    (case unmarshal_creds body of
       Some c \<Rightarrow> c
     | None \<Rightarrow> (case BasicAuth r of Some c \<Rightarrow> c | None \<Rightarrow> ([], [])))"

definition couchSessionHandler :: "int \<Rightarrow> http_handler" where
  "couchSessionHandler maxBodyBytes t r s =
    (let (ip, port) = remote_ip_port (RemoteAddr r) in
     if Method r = ''POST'' then
       (let (body, r) = readLimitedBody maxBodyBytes r;
            (username, password) = session_creds body r;
            s = (if username \<noteq> [] \<or> password \<noteq> [] then
                   Log t (zero_Event\<lparr>Protocol := ProtoCouchDB, SrcIP := ip, SrcPort := port, Username := username,
                          Password := password, Command := ''SESSION''\<rparr>) s
                 else s)
        in Some (writeJSONWithContentType 200 (JMap
             [(''ok'', JBool True), (''name'', JStr username), (''roles'', JArr [JStr ''_admin''])]), s))
     else Some (writeJSONWithContentType 200 (JMap
       [(''ok'', JBool True),
        (''info'', JMap [(''authentication_db'', JStr ''_users'')]),
        (''userCtx'', JMap [(''name'', JNull), (''roles'', JArr [])])]), s))"

definition couchFutonHandler :: http_handler where
  "couchFutonHandler t r s =
    Some (\<lparr>Status = 200, Headers = [(''Content-Type'', ''text/html; charset=UTF-8'')],
           Content = ''<html><body><h1>CouchDB Fauxton</h1></body></html>''\<rparr>, s)"

definition couchDBHandler :: "int \<Rightarrow> http_handler" where
  "couchDBHandler maxBodyBytes t r s =
    (let (r, s) = logHTTPEvent ProtoCouchDB maxBodyBytes t r s;
         db = sanitizePath (takeWhile (\<lambda>c. c \<noteq> CHR ''/'') (TrimPrefix (Path r) ''/''))
     in if Method r = ''GET'' then
          Some (writeJSONWithContentType 200 (JMap
            [(''db_name'', JStr db),
             (''doc_count'', JInt 0),
             (''doc_del_count'', JInt 0),
             (''update_seq'', JInt 0),
             (''purge_seq'', JInt 0),
             (''compact_running'', JBool False),
             (''disk_size'', JInt 0),
             (''data_size'', JInt 0),
             (''instance_start_time'', JStr ''0''),
             (''disk_format_version'', JInt 6),
             (''committed_update_seq'', JInt 0)]), s)
        else if Method r = ''PUT'' then Some (writeJSONWithContentType 201 (JMap [(''ok'', JBool True)]), s)
        else Some (writeJSONWithContentType 405 (JMap
            [(''error'', JStr ''method_not_allowed''), (''reason'', JStr ''Only GET, PUT supported'')]), s))"

definition couchRootHandler :: "FP \<Rightarrow> bytes \<Rightarrow> int \<Rightarrow> http_handler" where
  "couchRootHandler fp version maxBodyBytes t r s =
    (if Path r \<noteq> ''/'' then couchDBHandler maxBodyBytes t r s
     else do {
       sha \<leftarrow> go_slice (ESBuildHash fp) 0 8;
       Some (writeJSONWithContentType 200 (JMap
         [(''couchdb'', JStr ''Welcome''),
          (''version'', JStr version),
          (''git_sha'', JStr sha),
          (''features'', JArr [JStr ''access-ready'', JStr ''partitioned'', JStr ''pluggable-storage-engines'', JStr ''reshard'']),
          (''vendor'', JMap [(''name'', JStr ''The Apache Software Foundation'')])]), s) })"


section \<open>The request multiplexer\<close>

fun split_slash :: "bytes \<Rightarrow> bytes list" where
  "split_slash [] = [[]]"
| "split_slash (c # s) =
    (if c = CHR ''/'' then [] # split_slash s
     else case split_slash s of e # es \<Rightarrow> (c # e) # es | [] \<Rightarrow> [[c]])"

text \<open>\<^verbatim>\<open>path.Clean\<close> of a rooted path: no empty and no dot elements, and a double dot takes back the
  element before it.\<close>

fun clean_elems :: "bytes list \<Rightarrow> bytes list \<Rightarrow> bytes list" where
  "clean_elems done [] = rev done"
| "clean_elems done (e # es) =
    (if e = [] \<or> e = ''.'' then clean_elems done es
     else if e = ''..'' then clean_elems (tl done) es
     else clean_elems (e # done) es)"

definition path_Clean :: "bytes \<Rightarrow> bytes" where
  "path_Clean p =
    (let es = clean_elems [] (split_slash p) in
     if es = [] then ''/'' else concat (map (\<lambda>e. CHR ''/'' # e) es))"

definition cleanPath :: "bytes \<Rightarrow> bytes" where
  "cleanPath p =
    (if p = [] then ''/''
     else let p = (if hd p \<noteq> CHR ''/'' then CHR ''/'' # p else p); np = path_Clean p in
       if last p = CHR ''/'' \<and> np \<noteq> ''/'' then np @ ''/'' else np)"

type_synonym mux = "(bytes \<times> http_handler) list"

text \<open>An exact pattern, or else the longest pattern that ends in a slash and begins the path.\<close>

definition mux_match :: "mux \<Rightarrow> bytes \<Rightarrow> http_handler option" where
  "mux_match m path =
    (case map_of m path of
       Some h \<Rightarrow> Some h
     | None \<Rightarrow>
         (let es = filter (\<lambda>ph. HasSuffix (fst ph) ''/'' \<and> HasPrefix path (fst ph)) m in
          map_option snd (find (\<lambda>ph. \<forall>q \<in> set es. length (fst q) \<le> length (fst ph)) es)))"

definition shouldRedirect :: "mux \<Rightarrow> bytes \<Rightarrow> bool" where
  "shouldRedirect m path \<longleftrightarrow>
     map_of m path = None \<and> path \<noteq> [] \<and> map_of m (path @ ''/'') \<noteq> None \<and> last path \<noteq> CHR ''/''"

datatype http_outcome =
    Served Response
  | MovedPermanently bytes
  | BadRequest
  | NotFound

definition mux_ServeHTTP :: "mux \<Rightarrow> nat \<Rightarrow> Request \<Rightarrow> Store \<Rightarrow> (http_outcome \<times> Store) option" where
  "mux_ServeHTTP m t r s =
    (let serve = (case mux_match m (Path r) of
                    None \<Rightarrow> Some (NotFound, s)
                  | Some h \<Rightarrow> map_option (apfst Served) (h t r s))
     in if RequestURI r = ''*'' then Some (BadRequest, s)
        else if Method r = ''CONNECT'' then
          (if shouldRedirect m (Path r) then Some (MovedPermanently (Path r @ ''/''), s) else serve)
        else let path = cleanPath (Path r) in
          if shouldRedirect m path then Some (MovedPermanently (path @ ''/''), s)
          else if path \<noteq> Path r then Some (MovedPermanently path, s)
          else serve)"

section \<open>The two servers\<close>

record http_server =
  Addr :: bytes
  Handler :: mux
  ReadTimeout :: nat
  WriteTimeout :: nat
  IdleTimeout :: nat
  ReadHeaderTimeout :: nat

definition es_mux :: "FP \<Rightarrow> ESConfig \<Rightarrow> int \<Rightarrow> mux" where
  "es_mux fp cfg maxBodyBytes =
    [(''/_nodes'', esNodesHandler fp cfg),
     (''/_nodes/'', esNodesHandler fp cfg),
     (''/_cluster/health'', esClusterHealthHandler cfg),
     (''/_cluster/stats'', esClusterStatsHandler fp cfg),
     (''/_cat/'', esCatHandler maxBodyBytes),
     (''/_search'', esSearchHandler maxBodyBytes),
     (''/_xpack'', esXpackHandler fp),
     (''/'', esRootHandler fp cfg maxBodyBytes)]"

definition couch_mux :: "FP \<Rightarrow> bytes \<Rightarrow> int \<Rightarrow> mux" where
  "couch_mux fp version maxBodyBytes =
    [(''/_session'', couchSessionHandler maxBodyBytes),
     (''/_utils/'', couchFutonHandler),
     (''/'', couchRootHandler fp version maxBodyBytes)]"

definition new_http_server :: "bytes \<Rightarrow> mux \<Rightarrow> http_server" where
  "new_http_server addr m = \<lparr>Addr = addr, Handler = m, ReadTimeout = 30 * second, WriteTimeout = 30 * second,
     IdleTimeout = 60 * second, ReadHeaderTimeout = 10 * second\<rparr>"

text \<open>What \<^verbatim>\<open>ListenAndServe\<close> returned decides the result; \<open>ErrServerClosed\<close> is the one that follows a
  shutdown.\<close>

definition ErrServerClosed :: goerr where
  "ErrServerClosed = ErrorS ''http: Server closed''"

definition ServeElasticsearch ::
  "(http_server \<Rightarrow> goerr) \<Rightarrow> bytes \<Rightarrow> FP \<Rightarrow> ESConfig \<Rightarrow> int \<Rightarrow> goerr option \<times> bytes list" where
  "ServeElasticsearch listenAndServe addr fp cfg maxBodyBytes =
    (let err = listenAndServe (new_http_server addr (es_mux fp cfg maxBodyBytes))
     in (if err \<noteq> ErrServerClosed then Some err else None, [''http: elasticsearch listening on '' @ addr]))"

definition ServeCouchDB ::
  "(http_server \<Rightarrow> goerr) \<Rightarrow> bytes \<Rightarrow> FP \<Rightarrow> bytes \<Rightarrow> int \<Rightarrow> goerr option \<times> bytes list" where
  "ServeCouchDB listenAndServe addr fp version maxBodyBytes =
    (let err = listenAndServe (new_http_server addr (couch_mux fp version maxBodyBytes))
     in (if err \<noteq> ErrServerClosed then Some err else None, [''http: couchdb listening on '' @ addr]))"

section \<open>Sanitised paths\<close>

definition safe_char :: "char \<Rightarrow> bool" where
  "safe_char c \<longleftrightarrow> (let n = of_char c :: nat in 97 \<le> n \<and> n \<le> 122 \<or> 65 \<le> n \<and> n \<le> 90 \<or> 48 \<le> n \<and> n \<le> 57
     \<or> n \<in> {45, 46, 47, 95})"

lemma path_rune_small: "path_rune r < 0x80"
  by (simp add: path_rune_def)

lemma safe_path_rune: "safe_char (char_of (path_rune r))"
  by (auto simp: path_rune_def safe_char_def Let_def)

lemma sanitizePath_chars: "sanitizePath s = map (\<lambda>r. char_of (path_rune r)) (runes (take 512 s))"
proof -
  have "List.map_filter (\<lambda>r. Some (path_rune r)) rs = map path_rune rs" for rs
    by (induction rs) (simp_all add: List.map_filter_def)
  moreover have "encode_rune (path_rune r) = [char_of (path_rune r)]" for r
    using path_rune_small [of r] by (simp add: encode_rune_def)
  ultimately show ?thesis
    by (simp add: sanitizePath_def strings_Map_def runes_to_string_def Let_def comp_def)
qed

lemma length_runes: "length (runes s) \<le> length s"
proof (induction s rule: segs.induct)
  case (2 b bs)
  have "1 \<le> snd (decode_rune (b # bs))" using decode_rune_width [of "b # bs"] by blast
  then show ?case using "2.IH" by (simp add: runes_def del: decode_rune.simps)
qed simp

text \<open>C31. What is reflected or logged of a path is at most 512 bytes long and has nothing but letters,
  digits, and the characters dash, dot, slash and underscore, and a path that has only these is kept as it is.\<close>

theorem sanitizePath_safe:
  "length (sanitizePath s) \<le> 512 \<and> list_all safe_char (sanitizePath s)
    \<and> (length s \<le> 512 \<and> list_all safe_char s \<longrightarrow> sanitizePath s = s)"
proof (intro conjI impI)
  show "length (sanitizePath s) \<le> 512"
    unfolding sanitizePath_chars using length_runes [of "take 512 s"] by simp
  show "list_all safe_char (sanitizePath s)"
    by (simp add: sanitizePath_chars list_all_iff safe_path_rune)
  assume s: "length s \<le> 512 \<and> list_all safe_char s"
  have "char_of (path_rune (of_char c)) = c" if "safe_char c" for c
    using that by (auto simp: safe_char_def path_rune_def Let_def)
  moreover have "runes s = map of_char s"
    using s by (intro runes_ascii) (auto simp: list_all_iff safe_char_def Let_def)
  ultimately show "sanitizePath s = s"
    using s by (simp add: sanitizePath_chars list_all_iff map_idI)
qed


theorem sanitizePath_safe_witness: "sanitizePath ''/a-b/_search'' = ''/a-b/_search''"
proof -
  have "length ''/a-b/_search'' \<le> 512 \<and> list_all safe_char ''/a-b/_search''" by (simp add: safe_char_def Let_def)
  then show ?thesis using sanitizePath_safe [of "''/a-b/_search''"] by blast
qed

section \<open>Routing\<close>

text \<open>The routes as a table, in the order in which a reader would look them up.\<close>

definition es_route :: "FP \<Rightarrow> ESConfig \<Rightarrow> int \<Rightarrow> bytes \<Rightarrow> http_handler" where
  "es_route fp cfg maxBodyBytes path =
    (if path = ''/_nodes'' \<or> HasPrefix path ''/_nodes/'' then esNodesHandler fp cfg
     else if path = ''/_cluster/health'' then esClusterHealthHandler cfg
     else if path = ''/_cluster/stats'' then esClusterStatsHandler fp cfg
     else if HasPrefix path ''/_cat/'' then esCatHandler maxBodyBytes
     else if path = ''/_search'' then esSearchHandler maxBodyBytes
     else if path = ''/_xpack'' then esXpackHandler fp
     else esRootHandler fp cfg maxBodyBytes)"

definition couch_route :: "FP \<Rightarrow> bytes \<Rightarrow> int \<Rightarrow> bytes \<Rightarrow> http_handler" where
  "couch_route fp version maxBodyBytes path =
    (if path = ''/_session'' then couchSessionHandler maxBodyBytes
     else if HasPrefix path ''/_utils/'' then couchFutonHandler
     else couchRootHandler fp version maxBodyBytes)"

lemma es_match:
  assumes "HasPrefix path ''/''"
  shows "mux_match (es_mux fp cfg mb) path = Some (es_route fp cfg mb path)"
proof -
  have ex: "\<not> (HasPrefix path ''/_nodes/'' \<and> HasPrefix path ''/_cat/'')"
  proof
    assume a: "HasPrefix path ''/_nodes/'' \<and> HasPrefix path ''/_cat/''"
    have "take 3 (take 8 path) = take 3 (take 6 path)" by simp
    then show False using a by (simp add: HasPrefix_def numeral_eq_Suc del: take_take)
  qed
  have s: "HasSuffix ''/_nodes/'' ''/''" "HasSuffix ''/_cat/'' ''/''" "HasSuffix ''/'' ''/''" "\<not> HasSuffix ''/_nodes'' ''/''"
      "\<not> HasSuffix ''/_cluster/health'' ''/''" "\<not> HasSuffix ''/_cluster/stats'' ''/''" "\<not> HasSuffix ''/_search'' ''/''"
      "\<not> HasSuffix ''/_xpack'' ''/''"
    by (simp_all add: HasSuffix_def)
  have self: "HasPrefix ''/_nodes/'' ''/_nodes/''" "HasPrefix ''/_cat/'' ''/_cat/''" by (simp_all add: HasPrefix_def)
  have exact: "path \<notin> {''/_nodes'', ''/_cluster/health'', ''/_cluster/stats'', ''/_search'', ''/_xpack'', ''/''}"
    if "HasPrefix path ''/_nodes/'' \<or> HasPrefix path ''/_cat/''"
    using that by (auto simp: HasPrefix_def)
  consider (nodes) "HasPrefix path ''/_nodes/''" | (cat) "HasPrefix path ''/_cat/''"
    | (other) "\<not> HasPrefix path ''/_nodes/''" "\<not> HasPrefix path ''/_cat/''" by blast
  then show ?thesis
  proof cases
    case nodes
    then have n: "\<not> HasPrefix path ''/_cat/''" "path \<noteq> ''/_cat/''" using ex self by auto
    show ?thesis using exact nodes
      by (simp add: mux_match_def es_mux_def es_route_def s n assms)
  next
    case cat
    then have n: "\<not> HasPrefix path ''/_nodes/''" "path \<noteq> ''/_nodes/''" using ex self by auto
    show ?thesis using exact cat
      by (simp add: mux_match_def es_mux_def es_route_def s n assms)
  next
    case other
    then have n: "path \<noteq> ''/_nodes/''" "path \<noteq> ''/_cat/''" using self by auto
    show ?thesis by (simp add: mux_match_def es_mux_def es_route_def s n other assms)
  qed
qed

lemma couch_match:
  assumes "HasPrefix path ''/''"
  shows "mux_match (couch_mux fp version mb) path = Some (couch_route fp version mb path)"
proof -
  have s: "HasSuffix ''/_utils/'' ''/''" "HasSuffix ''/'' ''/''" "\<not> HasSuffix ''/_session'' ''/''"
    by (simp_all add: HasSuffix_def)
  have self: "HasPrefix ''/_utils/'' ''/_utils/''" by (simp add: HasPrefix_def)
  show ?thesis
  proof (cases "HasPrefix path ''/_utils/''")
    case True
    then have "path \<noteq> ''/_session''" "path \<noteq> ''/''" by (auto simp: HasPrefix_def)
    then show ?thesis using True by (simp add: mux_match_def couch_mux_def couch_route_def s assms)
  next
    case False
    then have "path \<noteq> ''/_utils/''" using self by auto
    then show ?thesis using False by (simp add: mux_match_def couch_mux_def couch_route_def s assms)
  qed
qed


section \<open>Redirects\<close>

definition plain_elem :: "bytes \<Rightarrow> bool" where
  "plain_elem e \<longleftrightarrow> e \<noteq> [] \<and> e \<noteq> ''.'' \<and> e \<noteq> ''..'' \<and> CHR ''/'' \<notin> set e"

definition join_slash :: "bytes list \<Rightarrow> bytes" where
  "join_slash es = concat (map (\<lambda>e. CHR ''/'' # e) es)"

lemma split_slash_not_Nil [simp]: "split_slash p \<noteq> []"
  by (cases p) (auto split: list.splits)

lemma split_slash_no_slash: "e \<in> set (split_slash p) \<Longrightarrow> CHR ''/'' \<notin> set e"
  by (induction p arbitrary: e rule: split_slash.induct) (auto split: if_splits list.splits)

lemma clean_elems_plain:
  "\<lbrakk>\<forall>e \<in> set stack. plain_elem e; \<forall>e \<in> set es. CHR ''/'' \<notin> set e\<rbrakk> \<Longrightarrow> \<forall>e \<in> set (clean_elems stack es). plain_elem e"
proof (induction stack es rule: clean_elems.induct)
  case (2 stack e es)
  have tl: "\<forall>x \<in> set (tl stack). plain_elem x" using "2.prems"(1) by (cases stack) auto
  have es: "\<forall>e \<in> set es. CHR ''/'' \<notin> set e" using "2.prems"(2) by simp
  consider (skip) "e = [] \<or> e = ''.''" | (up) "\<not> (e = [] \<or> e = ''.'')" "e = ''..''" | (keep) "\<not> (e = [] \<or> e = ''.'')" "e \<noteq> ''..''"
    by blast
  then show ?case
  proof cases
    case skip
    from "2.IH"(1) [OF this "2.prems"(1) es] skip show ?thesis by simp
  next
    case up
    from "2.IH"(2) [OF this tl es] up show ?thesis by simp
  next
    case keep
    then have "\<forall>x \<in> set (e # stack). plain_elem x" using "2.prems" unfolding plain_elem_def by simp
    from "2.IH"(3) [OF keep this es] keep show ?thesis by simp
  qed
qed simp

lemma clean_elems_keep: "\<forall>e \<in> set es. plain_elem e \<Longrightarrow> clean_elems stack (es @ r) = clean_elems (rev es @ stack) r"
  by (induction es arbitrary: stack) (simp_all add: plain_elem_def)

lemma split_slash_Cons: "CHR ''/'' \<notin> set e \<Longrightarrow> split_slash (e @ CHR ''/'' # s) = e # split_slash s"
  by (induction e) auto

lemma split_slash_plain: "CHR ''/'' \<notin> set e \<Longrightarrow> split_slash e = [e]"
  by (induction e) auto

lemma split_join:
  "\<lbrakk>\<forall>e \<in> set es. plain_elem e; es \<noteq> []\<rbrakk> \<Longrightarrow> split_slash (join_slash es) = [] # es"
proof (induction es)
  case (Cons e es)
  have "split_slash (e @ join_slash es) = e # es"
  proof (cases es)
    case Nil
    then show ?thesis using Cons.prems by (simp add: join_slash_def split_slash_plain plain_elem_def)
  next
    case (Cons e2 es2)
    have "split_slash (join_slash es) = [] # es" using Cons.IH Cons.prems Cons by simp
    moreover have "join_slash es = CHR ''/'' # e2 @ join_slash es2" using Cons by (simp add: join_slash_def)
    ultimately show ?thesis using Cons.prems split_slash_Cons [of e "e2 @ join_slash es2"]
      by (simp add: plain_elem_def)
  qed
  then show ?case by (simp add: join_slash_def)
qed simp

lemma split_join_slash:
  "\<lbrakk>\<forall>e \<in> set es. plain_elem e; es \<noteq> []\<rbrakk> \<Longrightarrow> split_slash (join_slash es @ ''/'') = [] # es @ [[]]"
proof -
  assume a: "\<forall>e \<in> set es. plain_elem e" "es \<noteq> []"
  have gen: "split_slash (p @ ''/'') = split_slash p @ [[]]" for p
    by (induction p rule: split_slash.induct) (auto split: list.splits)
  show ?thesis by (simp add: gen split_join [OF a])
qed

lemma path_Clean_join:
  assumes "\<forall>e \<in> set es. plain_elem e" "es \<noteq> []"
  shows "path_Clean (join_slash es) = join_slash es" "path_Clean (join_slash es @ ''/'') = join_slash es"
proof -
  have "clean_elems [] es = es" using clean_elems_keep [OF assms(1), of "[]" "[]"] by simp
  then show "path_Clean (join_slash es) = join_slash es"
    using assms by (simp add: path_Clean_def split_join join_slash_def [symmetric])
  have "clean_elems [] (es @ [[]]) = es" using clean_elems_keep [OF assms(1), of "[]" "[[]]"] by simp
  then show "path_Clean (join_slash es @ ''/'') = join_slash es"
    using assms by (simp add: path_Clean_def split_join_slash join_slash_def [symmetric])
qed

lemma path_Clean_form:
  "path_Clean p = ''/'' \<or> (\<exists>es. es \<noteq> [] \<and> (\<forall>e \<in> set es. plain_elem e) \<and> path_Clean p = join_slash es)"
proof -
  have "\<forall>e \<in> set (clean_elems [] (split_slash p)). plain_elem e"
    using split_slash_no_slash by (intro clean_elems_plain) auto
  then show ?thesis by (auto simp: path_Clean_def join_slash_def Let_def)
qed

lemma join_slash_ends:
  assumes "\<forall>e \<in> set es. plain_elem e" "es \<noteq> []"
  shows "join_slash es \<noteq> []" "hd (join_slash es) = CHR ''/''" "last (join_slash es) \<noteq> CHR ''/''" "join_slash es \<noteq> ''/''"
proof -
  obtain init e where es: "es = init @ [e]" using assms(2) by (cases es rule: rev_cases) auto
  have e: "e \<noteq> []" "CHR ''/'' \<notin> set e" using assms(1) es by (auto simp: plain_elem_def)
  have j: "join_slash es = join_slash init @ CHR ''/'' # e" by (simp add: es join_slash_def)
  show "join_slash es \<noteq> []" using j by simp
  show "last (join_slash es) \<noteq> CHR ''/''" using e j by (metis last_appendR last_ConsR last_in_set list.distinct(1))
  show "hd (join_slash es) = CHR ''/''" using assms(2) by (cases es) (simp_all add: join_slash_def)
  show "join_slash es \<noteq> ''/''" using e j by (cases init) (auto simp: join_slash_def)
qed

lemma cleanPath_form:
  "cleanPath p = ''/'' \<or> (\<exists>es. es \<noteq> [] \<and> (\<forall>e \<in> set es. plain_elem e)
     \<and> (cleanPath p = join_slash es \<or> cleanPath p = join_slash es @ ''/''))"
  using path_Clean_form by (auto simp: cleanPath_def Let_def)

lemma cleanPath_join:
  assumes "\<forall>e \<in> set es. plain_elem e" "es \<noteq> []"
  shows "cleanPath (join_slash es) = join_slash es" "cleanPath (join_slash es @ ''/'') = join_slash es @ ''/''"
  using join_slash_ends [OF assms] path_Clean_join [OF assms] by (simp_all add: cleanPath_def Let_def)

lemma cleanPath_root: "cleanPath ''/'' = ''/''"
  by (simp add: cleanPath_def path_Clean_def)

lemma cleanPath_idem: "cleanPath (cleanPath p) = cleanPath p"
  using cleanPath_form [of p] cleanPath_join cleanPath_root by auto

lemma cleanPath_slash: "last (cleanPath p) \<noteq> CHR ''/'' \<Longrightarrow> cleanPath (cleanPath p @ ''/'') = cleanPath p @ ''/''"
  using cleanPath_form [of p] cleanPath_join by auto

lemma cleanPath_rooted: "HasPrefix (cleanPath p) ''/''"
proof -
  have "HasPrefix q ''/''" if "q \<noteq> []" "hd q = CHR ''/''" for q
    using that by (cases q) (simp_all add: HasPrefix_def)
  moreover have "cleanPath p \<noteq> [] \<and> hd (cleanPath p) = CHR ''/''"
    using cleanPath_form [of p]
  proof
    assume "\<exists>es. es \<noteq> [] \<and> (\<forall>e \<in> set es. plain_elem e) \<and> (cleanPath p = join_slash es \<or> cleanPath p = join_slash es @ ''/'')"
    then obtain es where es: "es \<noteq> []" "\<forall>e \<in> set es. plain_elem e" "cleanPath p = join_slash es \<or> cleanPath p = join_slash es @ ''/''"
      by blast
    from join_slash_ends(1,2) [OF es(2,1)] es(3) show ?thesis by auto
  qed simp
  ultimately show ?thesis by blast
qed

lemma mux_redirect_once:
  assumes "mux_ServeHTTP m t r s = Some (MovedPermanently p, s1)" "Method r \<noteq> ''CONNECT''"
  shows "mux_ServeHTTP m t' (r\<lparr>Path := p\<rparr>) s' \<noteq> Some (MovedPermanently q, s2)"
proof -
  let ?c = "cleanPath (Path r)"
  have served: "map_option (apfst Served) (h t'' r' s'') \<noteq> Some (MovedPermanently q, s2)"
    for h :: http_handler and t'' r' s'' by (cases "h t'' r' s''") auto
  have "RequestURI r \<noteq> ''*''" using assms(1) by (auto simp: mux_ServeHTTP_def)
  then consider (slash) "shouldRedirect m ?c" "p = ?c @ ''/''" | (clean) "\<not> shouldRedirect m ?c" "p = ?c"
    using assms by (auto simp: mux_ServeHTTP_def Let_def split: if_splits option.splits)
  then have "\<not> shouldRedirect m (cleanPath p)" "cleanPath p = p"
  proof (atomize (full), cases)
    case slash
    then have "last ?c \<noteq> CHR ''/''" "map_of m p \<noteq> None" by (simp_all add: shouldRedirect_def)
    then show "\<not> shouldRedirect m (cleanPath p) \<and> cleanPath p = p"
      using slash cleanPath_slash by (simp add: shouldRedirect_def)
  next
    case clean
    then show "\<not> shouldRedirect m (cleanPath p) \<and> cleanPath p = p" by (simp add: cleanPath_idem)
  qed
  then show ?thesis using assms(2) served by (auto simp: mux_ServeHTTP_def Let_def split: option.splits)
qed


definition sample_request :: "bytes \<Rightarrow> bytes \<Rightarrow> Request" where
  "sample_request meth path = \<lparr>Method = meth, RequestURI = path, Path = path, RemoteAddr = ''10.0.0.1:4000'', Authorization = [],
     Body = None\<rparr>"

definition sample_store :: Store where
  "sample_store = \<lparr>logf = [], file_open = True, disk_space = None, webhook = None, deliveries = [], diag = []\<rparr>"

section \<open>Every request\<close>

lemma shouldRedirect_es: "shouldRedirect (es_mux fp cfg mb) path \<longleftrightarrow> path = ''/_cat''"
proof -
  have "path = butlast (path @ ''/'')" by simp
  then show ?thesis by (auto simp: shouldRedirect_def es_mux_def split: if_splits)
qed

lemma shouldRedirect_couch: "shouldRedirect (couch_mux fp version mb) path \<longleftrightarrow> path = ''/_utils''"
  by (auto simp: shouldRedirect_def couch_mux_def split: if_splits)


text \<open>C13. The multiplexer's longest-prefix search over the registered patterns is the plain table of
  routes: a request for a path that is not in canonical form, or for a directory without its slash, is
  redirected, and every other one goes to the handler the table names.\<close>

theorem http_routing_equivalence:
  assumes "Method r \<noteq> ''CONNECT''" "RequestURI r \<noteq> ''*''"
  shows "mux_ServeHTTP (es_mux fp cfg mb) t r s =
      (let p = cleanPath (Path r) in
       if p = ''/_cat'' then Some (MovedPermanently ''/_cat/'', s)
       else if p \<noteq> Path r then Some (MovedPermanently p, s)
       else map_option (apfst Served) (es_route fp cfg mb p t r s))
    \<and> mux_ServeHTTP (couch_mux fp version mb) t r s =
      (let p = cleanPath (Path r) in
       if p = ''/_utils'' then Some (MovedPermanently ''/_utils/'', s)
       else if p \<noteq> Path r then Some (MovedPermanently p, s)
       else map_option (apfst Served) (couch_route fp version mb p t r s))"
proof -
  have p: "HasPrefix (cleanPath (Path r)) ''/''" by (rule cleanPath_rooted)
  have e: "mux_match (es_mux fp cfg mb) (Path r) = Some (es_route fp cfg mb (Path r))"
      "mux_match (couch_mux fp version mb) (Path r) = Some (couch_route fp version mb (Path r))"
    if "cleanPath (Path r) = Path r"
    using p that by (simp_all add: es_match couch_match)
  show ?thesis
    using assms e by (auto simp: mux_ServeHTTP_def shouldRedirect_es shouldRedirect_couch Let_def)
qed

theorem http_routing_equivalence_witness:
  "\<exists>fp. mux_ServeHTTP (couch_mux fp ''3.3.3'' 10) 0 (sample_request ''GET'' ''/_utils'') sample_store
    = Some (MovedPermanently ''/_utils/'', sample_store)"
proof -
  let ?r = "sample_request ''GET'' ''/_utils''"
  have r: "Method ?r \<noteq> ''CONNECT''" "RequestURI ?r \<noteq> ''*''" "cleanPath (Path ?r) = ''/_utils''"
    by (simp_all add: sample_request_def cleanPath_def path_Clean_def)
  from http_routing_equivalence [OF r(1,2), THEN conjunct2] show ?thesis unfolding r(3) Let_def by simp
qed

text \<open>Redirects never loop: a client of either service that follows one, with the same method, is not
  redirected again.\<close>

theorem redirect_once:
  assumes "m \<in> {es_mux fp cfg mb, couch_mux fp version mb}" "Method r \<noteq> ''CONNECT''"
    and "mux_ServeHTTP m t r s = Some (MovedPermanently p, s1)"
  shows "mux_ServeHTTP m t' (r\<lparr>Path := p\<rparr>) s' \<noteq> Some (MovedPermanently q, s2)"
  using mux_redirect_once [OF assms(3,2)] .

theorem redirect_once_witness:
  "\<exists>fp. mux_ServeHTTP (couch_mux fp ''3.3.3'' 10) 0 ((sample_request ''GET'' ''/_utils'')\<lparr>Path := ''/_utils/''\<rparr>) sample_store
      \<noteq> Some (MovedPermanently ''/_utils/'', sample_store)"
proof -
  let ?r = "sample_request ''GET'' ''/_utils''"
  have r: "cleanPath ''/_utils'' = ''/_utils''" by (simp add: cleanPath_def path_Clean_def)
  have m: "mux_ServeHTTP (couch_mux fp ''3.3.3'' 10) 0 ?r sample_store = Some (MovedPermanently ''/_utils/'', sample_store)" for fp
    by (simp add: mux_ServeHTTP_def shouldRedirect_couch sample_request_def r)
  have g: "Method ?r \<noteq> ''CONNECT''" by (simp add: sample_request_def)
  from redirect_once [OF _ g m] show ?thesis by blast
qed

lemma HasPrefix_trans: "HasPrefix s (c # p) \<Longrightarrow> HasPrefix s [c]"
  by (cases s) (auto simp: HasPrefix_def)

lemma find_in_set: "find P xs = Some x \<Longrightarrow> x \<in> set xs"
  by (induction xs) (auto split: if_splits)

lemma mux_match_rooted:
  assumes "mux_match m path = Some h" "set (map fst m) \<subseteq> {p. HasPrefix p ''/''}"
  shows "HasPrefix path ''/''"
proof (cases "map_of m path")
  case (Some x)
  then show ?thesis using assms(2) map_of_SomeD [OF Some] by force
next
  case None
  then obtain ph where "ph \<in> set m" "HasPrefix path (fst ph)"
    using assms(1) by (auto simp: mux_match_def Let_def dest!: find_in_set)
  moreover from this obtain p where "fst ph = CHR ''/'' # p" using assms(2) by (cases "fst ph") (auto simp: HasPrefix_def)
  ultimately show ?thesis using HasPrefix_trans by metis
qed

lemma logHTTPEvent_extends: "logHTTPEvent proto mb t r s = (r1, s1) \<Longrightarrow> utf8_valid proto \<Longrightarrow> log_extends s s1"
  by (auto simp: logHTTPEvent_def Let_def loggable_def intro: log_extends_Log split: prod.splits)

lemma es_route_answers: "\<exists>resp s1. es_route fp cfg mb path t r s = Some (resp, s1) \<and> log_extends s s1"
proof -
  have "\<exists>resp s1. esCatchAllHandler mb t r s = Some (resp, s1) \<and> log_extends s s1"
    "\<exists>resp s1. esCatHandler mb t r s = Some (resp, s1) \<and> log_extends s s1"
    "\<exists>resp s1. esSearchHandler mb t r s = Some (resp, s1) \<and> log_extends s s1"
    by (auto simp: esCatchAllHandler_def esCatHandler_def esSearchHandler_def Let_def dest: logHTTPEvent_extends
        split: prod.splits)
  then show ?thesis
    by (simp add: es_route_def esNodesHandler_def esClusterHealthHandler_def esClusterStatsHandler_def esXpackHandler_def
        esRootHandler_def)
qed

lemma couch_route_answers:
  assumes "FP_wf fp"
  shows "\<exists>resp s1. couch_route fp version mb path t r s = Some (resp, s1) \<and> log_extends s s1"
proof -
  have "\<exists>resp s1. couchDBHandler mb t r s = Some (resp, s1) \<and> log_extends s s1"
    by (auto simp: couchDBHandler_def Let_def dest: logHTTPEvent_extends split: prod.splits)
  moreover have "go_slice (ESBuildHash fp) 0 8 = Some (take 8 (ESBuildHash fp))"
    using assms by (simp add: go_slice_def FP_wf_def)
  moreover have "\<exists>resp s1. couchSessionHandler mb t r s = Some (resp, s1) \<and> log_extends s s1"
    by (auto simp: couchSessionHandler_def Let_def loggable_def intro: log_extends_Log split: prod.splits)
  ultimately show ?thesis
    by (simp add: couch_route_def couchFutonHandler_def couchRootHandler_def)
qed

lemma mux_answers:
  assumes h: "\<And>h. mux_match m (Path r) = Some h \<Longrightarrow> \<exists>resp s1. h t r s = Some (resp, s1) \<and> log_extends s s1"
    and all: "HasPrefix (Path r) ''/'' \<Longrightarrow> mux_match m (Path r) \<noteq> None"
  shows "\<exists>out s1. mux_ServeHTTP m t r s = Some (out, s1) \<and> log_extends s s1 \<and> (out = NotFound \<longrightarrow> Method r = ''CONNECT'')"
proof (cases "mux_match m (Path r)")
  case None
  then have "cleanPath (Path r) \<noteq> Path r" using all cleanPath_rooted [of "Path r"] by auto
  then show ?thesis using None by (auto simp: mux_ServeHTTP_def Let_def)
next
  case (Some h)
  then obtain resp s1 where "h t r s = Some (resp, s1)" "log_extends s s1" using h by blast
  then show ?thesis using Some by (auto simp: mux_ServeHTTP_def Let_def)
qed

lemma es_mux_answers:
  "\<exists>out s1. mux_ServeHTTP (es_mux fp cfg mb) t r s = Some (out, s1) \<and> log_extends s s1
    \<and> (out = NotFound \<longrightarrow> Method r = ''CONNECT'')"
proof (rule mux_answers)
  have key: "set (map fst (es_mux fp cfg mb)) \<subseteq> {p. HasPrefix p ''/''}" by (simp add: es_mux_def HasPrefix_def)
  fix h assume "mux_match (es_mux fp cfg mb) (Path r) = Some h"
  then have "h = es_route fp cfg mb (Path r)" using es_match mux_match_rooted [OF _ key] by force
  then show "\<exists>resp s1. h t r s = Some (resp, s1) \<and> log_extends s s1" using es_route_answers by simp
qed (simp add: es_match)

lemma couch_mux_answers:
  assumes "FP_wf fp"
  shows "\<exists>out s1. mux_ServeHTTP (couch_mux fp version mb) t r s = Some (out, s1) \<and> log_extends s s1
    \<and> (out = NotFound \<longrightarrow> Method r = ''CONNECT'')"
proof (rule mux_answers)
  have key: "set (map fst (couch_mux fp version mb)) \<subseteq> {p. HasPrefix p ''/''}" by (simp add: couch_mux_def HasPrefix_def)
  fix h assume "mux_match (couch_mux fp version mb) (Path r) = Some h"
  then have "h = couch_route fp version mb (Path r)" using couch_match mux_match_rooted [OF _ key] by force
  then show "\<exists>resp s1. h t r s = Some (resp, s1) \<and> log_extends s s1" using couch_route_answers [OF assms] by simp
qed (simp add: couch_match)

text \<open>C25. No HTTP request makes a handler panic or go unanswered: with a fingerprint as it is
  generated, each one is answered by a handler, a redirect or, for a request that names no path, an error,
  and nothing in the log is lost.\<close>

theorem http_requests_answered:
  assumes "FP_wf fp"
  shows "(\<exists>out s1. mux_ServeHTTP (es_mux fp cfg mb) t r s = Some (out, s1) \<and> log_extends s s1
        \<and> (out = NotFound \<longrightarrow> Method r = ''CONNECT''))
    \<and> (\<exists>out s1. mux_ServeHTTP (couch_mux fp version mb) t r s = Some (out, s1) \<and> log_extends s s1
        \<and> (out = NotFound \<longrightarrow> Method r = ''CONNECT''))"
  using es_mux_answers couch_mux_answers [OF assms] by blast

theorem http_requests_answered_witness:
  "\<exists>fp out s1. mux_ServeHTTP (couch_mux fp ''3.3.3'' 10) 0 (sample_request ''GET'' ''/'') sample_store = Some (out, s1)"
proof -
  obtain fp where "FP_wf fp" using FP_wf_exists by blast
  from http_requests_answered [OF this, of _ 10 0 "sample_request ''GET'' ''/''" sample_store "''3.3.3''", THEN conjunct2]
  show ?thesis by blast
qed


section \<open>Credentials\<close>

definition b64_char :: "nat \<Rightarrow> char" where
  "b64_char n = (if n < 26 then char_of (n + 65) else if n < 52 then char_of (n + 71) else if n < 62 then char_of (n - 4)
     else if n = 62 then CHR ''+'' else CHR ''/'')"

text \<open>The encoding a client sends.\<close>

fun b64_encode :: "bytes \<Rightarrow> bytes" where
  "b64_encode [] = []"
| "b64_encode [a] = (let x = of_char a in [b64_char (x div 4), b64_char (16 * (x mod 4)), CHR ''='', CHR ''=''])"
| "b64_encode [a, b] = (let x = of_char a; y = of_char b in
    [b64_char (x div 4), b64_char (16 * (x mod 4) + y div 16), b64_char (4 * (y mod 16)), CHR ''=''])"
| "b64_encode (a # b # c # rest) = (let x = of_char a; y = of_char b; z = of_char c in
    [b64_char (x div 4), b64_char (16 * (x mod 4) + y div 16), b64_char (4 * (y mod 16) + z div 64), b64_char (z mod 64)]
    @ b64_encode rest)"

lemma b64_val_char: "n < 64 \<Longrightarrow> b64_val (b64_char n) = Some n"
proof -
  assume "n < 64"
  then consider "n < 26" | "26 \<le> n" "n < 52" | "52 \<le> n" "n < 62" | "n = 62" | "n = 63" by linarith
  then show ?thesis by cases (auto simp: b64_val_def b64_char_def Let_def)
qed

lemma b64_char_neq: "n < 64 \<Longrightarrow> b64_char n \<noteq> CHR ''='' \<and> b64_char n \<noteq> CR \<and> b64_char n \<noteq> LF"
proof -
  assume "n < 64"
  then have "b64_val (b64_char n) = Some n" by (rule b64_val_char)
  moreover have "b64_val CHR ''='' = None" "b64_val CR = None" "b64_val LF = None" by (simp_all add: b64_val_def)
  ultimately show ?thesis by (metis option.distinct(1))
qed

lemma b64_split:
  fixes x y z :: nat
  assumes "x < 256" "y < 256" "z < 256"
  shows "x div 4 < 64" "16 * (x mod 4) + y div 16 < 64" "4 * (y mod 16) + z div 64 < 64" "z mod 64 < 64"
    "4 * (x div 4) + (16 * (x mod 4) + y div 16) div 16 = x"
    "16 * ((16 * (x mod 4) + y div 16) mod 16) + (4 * (y mod 16) + z div 64) div 4 = y"
    "64 * ((4 * (y mod 16) + z div 64) mod 4) + z mod 64 = z"
proof -
  have q: "y div 16 < 16" "z div 64 < 4" using assms by simp_all
  show "x div 4 < 64" "z mod 64 < 64" using assms by simp_all
  show "16 * (x mod 4) + y div 16 < 64" using q(1) mod_less_divisor [of 4 x] by linarith
  show "4 * (y mod 16) + z div 64 < 64" using q(2) mod_less_divisor [of 16 y] by linarith
  have "(16 * (x mod 4) + y div 16) div 16 = x mod 4" "(16 * (x mod 4) + y div 16) mod 16 = y div 16"
    using q(1) by (simp_all add: div_add1_eq)
  moreover have "(4 * (y mod 16) + z div 64) div 4 = y mod 16" "(4 * (y mod 16) + z div 64) mod 4 = z div 64"
    using q(2) by (simp_all add: div_add1_eq)
  ultimately show "4 * (x div 4) + (16 * (x mod 4) + y div 16) div 16 = x"
    "16 * ((16 * (x mod 4) + y div 16) mod 16) + (4 * (y mod 16) + z div 64) div 4 = y"
    "64 * ((4 * (y mod 16) + z div 64) mod 4) + z mod 64 = z"
    by simp_all
qed

lemma b64_quanta_encode: "b64_quanta (b64_encode s) = Some s"
proof (induction s rule: b64_encode.induct)
  case (2 a)
  note b = b64_split [of "of_char a" 0 0]
  show ?case using b(1,2,5) by (simp add: b64_val_char Let_def)
next
  case (3 a b)
  note s = b64_split [of "of_char a" "of_char b" 0]
  show ?case using s(1,2,3,5,6) b64_char_neq [of "4 * (of_char b mod 16)"] by (simp add: b64_val_char Let_def)
next
  case (4 a b c rest)
  note s = b64_split [of "of_char a" "of_char b" "of_char c"]
  have "char_of (16 * ((16 * (of_char a mod 4) + of_char b div 16) mod 16) + (4 * (of_char b mod 16) + of_char c div 64) div 4 :: nat) = b"
    by (simp only: s(6) of_char_nat_bound char_of_char)
  then show ?case using s 4 b64_char_neq [OF s(3)] b64_char_neq [OF s(4)]
    by (simp add: b64_val_char Let_def)
qed simp

lemma b64_encode_no_breaks: "filter (\<lambda>c. c \<noteq> CR \<and> c \<noteq> LF) (b64_encode s) = b64_encode s"
proof (induction s rule: b64_encode.induct)
  case (2 a)
  note b = b64_split [of "of_char a" 0 0]
  show ?case using b64_char_neq [OF b(1)] b64_char_neq [OF b(2)] by (simp add: Let_def)
next
  case (3 a b)
  note s = b64_split [of "of_char a" "of_char b" 0]
  show ?case using b64_char_neq [OF s(1)] b64_char_neq [OF s(2)] b64_char_neq [OF s(3)] by (simp add: Let_def)
next
  case (4 a b c rest)
  note s = b64_split [of "of_char a" "of_char b" "of_char c"]
  show ?case using b64_char_neq [OF s(1)] b64_char_neq [OF s(2)] b64_char_neq [OF s(3)] b64_char_neq [OF s(4)] 4
    by (simp add: Let_def)
qed simp

lemma BasicAuth_encode:
  assumes "Authorization r = ''Basic '' @ b64_encode (user @ '':'' @ pass)" "CHR '':'' \<notin> set user"
  shows "BasicAuth r = Some (user, pass)"
proof -
  have "map ascii_lower ''Basic '' = ''basic ''" by code_simp
  then show ?thesis using assms by (simp add: BasicAuth_def b64_DecodeString_def b64_encode_no_breaks b64_quanta_encode)
qed


lemma clean_session: "cleanPath ''/_session'' = ''/_session''" "cleanPath ''/_search'' = ''/_search''"
  by (simp_all add: cleanPath_def path_Clean_def)

lemma session_served:
  assumes "Method r = ''POST''" "Path r = ''/_session''" "RequestURI r \<noteq> ''*''"
  shows "mux_ServeHTTP (couch_mux fp version mb) t r s = map_option (apfst Served) (couchSessionHandler mb t r s)"
  using assms couch_match [of "''/_session''" fp version mb]
  by (simp add: mux_ServeHTTP_def shouldRedirect_couch clean_session couch_route_def HasPrefix_def)

definition session_event :: "bytes \<Rightarrow> bytes \<Rightarrow> bytes \<Rightarrow> Event" where
  "session_event addr user pass = zero_Event\<lparr>Protocol := ProtoCouchDB, SrcIP := fst (remote_ip_port addr),
     SrcPort := snd (remote_ip_port addr), Username := user, Password := pass, Command := ''SESSION''\<rparr>"

lemma session_logged:
  assumes "Method r = ''POST''" "session_creds (fst (readLimitedBody mb r)) (snd (readLimitedBody mb r)) = (user, pass)"
    and "user \<noteq> [] \<or> pass \<noteq> []"
  shows "\<exists>resp. couchSessionHandler mb t r s = Some (resp, Log t (session_event (RemoteAddr r) user pass) s) \<and> Status resp = 200"
  using assms
  by (cases "remote_ip_port (RemoteAddr r)"; cases "readLimitedBody mb r")
    (auto simp: couchSessionHandler_def session_event_def writeJSONWithContentType_def)

lemma unmarshal_creds_written:
  assumes "utf8_valid user" "utf8_valid pass"
  shows "unmarshal_creds (json_marshal (JObj [(''name'', JStr user), (''password'', JStr pass)])) = Some (user, pass)"
proof -
  let ?v = "JObj [(''name'', JStr user), (''password'', JStr pass)]"
  have "json_parse (json_marshal ?v) = Some (tree_of ?v)"
    by (rule json_parse_marshal) (simp add: maxNestingDepth_def)
  moreover have "clean ''name'' = ''name''" "clean ''password'' = ''password''"
    by (rule clean_valid, rule utf8_valid_ascii, simp)+
  ultimately show ?thesis using assms
    by (simp add: unmarshal_creds_def assign_struct_def creds_fields_def find_field_def assign_string_def)
qed

text \<open>A login at CouchDB is captured: a session request whose body is the JSON object of a name and a
  password, or whose body is no such JSON and that carries basic authentication, is logged with exactly
  that user name and password.\<close>

theorem couch_session_captured:
  assumes "Method r = ''POST''" "Path r = ''/_session''" "RequestURI r \<noteq> ''*''" "user \<noteq> [] \<or> pass \<noteq> []"
    and "(\<exists>body. Body r = Some body \<and> int (length body) \<le> mb \<and> utf8_valid user \<and> utf8_valid pass
          \<and> body = json_marshal (JObj [(''name'', JStr user), (''password'', JStr pass)]))
      \<or> (unmarshal_creds (fst (readLimitedBody mb r)) = None \<and> CHR '':'' \<notin> set user
          \<and> Authorization r = ''Basic '' @ b64_encode (user @ '':'' @ pass))"
  shows "\<exists>resp. mux_ServeHTTP (couch_mux fp version mb) t r s
      = Some (Served resp, Log t (session_event (RemoteAddr r) user pass) s) \<and> Status resp = 200"
proof -
  have "session_creds (fst (readLimitedBody mb r)) (snd (readLimitedBody mb r)) = (user, pass)"
    using assms(5)
  proof
    assume "\<exists>body. Body r = Some body \<and> int (length body) \<le> mb \<and> utf8_valid user \<and> utf8_valid pass
          \<and> body = json_marshal (JObj [(''name'', JStr user), (''password'', JStr pass)])"
    then obtain body where b: "Body r = Some body" "int (length body) \<le> mb" "utf8_valid user" "utf8_valid pass"
      "body = json_marshal (JObj [(''name'', JStr user), (''password'', JStr pass)])" by blast
    have "fst (readLimitedBody mb r) = body" using b(1,2) by (simp add: readLimitedBody_def)
    then show ?thesis using unmarshal_creds_written [OF b(3,4)] unfolding b(5) by (simp only: session_creds_def option.case)
  next
    assume a: "unmarshal_creds (fst (readLimitedBody mb r)) = None \<and> CHR '':'' \<notin> set user
          \<and> Authorization r = ''Basic '' @ b64_encode (user @ '':'' @ pass)"
    then have "BasicAuth (snd (readLimitedBody mb r)) = Some (user, pass)"
      by (intro BasicAuth_encode) (auto simp: readLimitedBody_def Let_def split: option.split)
    then show ?thesis using a by (simp add: session_creds_def)
  qed
  from session_logged [OF assms(1) this assms(4), of t s] show ?thesis
    unfolding session_served [OF assms(1-3)] by auto
qed

theorem couch_session_captured_witness:
  "\<exists>fp resp. mux_ServeHTTP (couch_mux fp ''3.3.3'' 100) 0 ((sample_request ''POST'' ''/_session'')\<lparr>Authorization :=
        ''Basic '' @ b64_encode ''admin:secret''\<rparr>) sample_store
      = Some (Served resp, Log 0 (session_event ''10.0.0.1:4000'' ''admin'' ''secret'') sample_store)"
proof -
  let ?r = "(sample_request ''POST'' ''/_session'')\<lparr>Authorization := ''Basic '' @ b64_encode ''admin:secret''\<rparr>"
  have "json_value maxNestingDepth [] = None" by (subst json_value.simps) (simp add: skip_ws_def)
  then have "unmarshal_creds [] = None" by (simp add: unmarshal_creds_def json_parse_def)
  then have b: "unmarshal_creds (fst (readLimitedBody 100 ?r)) = None" by (simp add: readLimitedBody_def sample_request_def)
  have "\<exists>resp. mux_ServeHTTP (couch_mux fp ''3.3.3'' 100) 0 ?r sample_store
      = Some (Served resp, Log 0 (session_event (RemoteAddr ?r) ''admin'' ''secret'') sample_store) \<and> Status resp = 200" for fp
    by (rule couch_session_captured) (use b in \<open>simp_all add: sample_request_def del: b64_encode.simps\<close>)
  moreover have "RemoteAddr ?r = ''10.0.0.1:4000''" by (simp add: sample_request_def)
  ultimately show ?thesis by metis
qed

text \<open>The other side of this order: a body that is JSON without a name and a password hides the basic
  authentication of the same request.\<close>

lemma couch_session_basic_ignored:
  assumes "Method r = ''POST''" "unmarshal_creds (fst (readLimitedBody mb r)) = Some ([], [])"
  shows "\<exists>resp. couchSessionHandler mb t r s = Some (resp, s)"
  using assms by (auto simp: couchSessionHandler_def session_creds_def split: prod.splits)

abbreviation no_hits :: bytes where
  "no_hits \<equiv> ''{\"_shards\":{\"failed\":0,\"successful\":0,\"total\":0},\"hits\":{\"hits\":[],\"max_score\":null,\"total\":{\"relation\":\"eq\",\"value\":0}},\"timed_out\":false,\"took\":1}'' @ [LF]"

text \<open>C32. A search is captured: the request is logged with the client's address, its method and path joined
  by an underscore (\<^verbatim>\<open>README.md\<close> shows a space there), and the first \<open>max_request_body_bytes\<close> bytes of its body.
  It is answered, with status 200 and as JSON, by a result without a hit.\<close>

theorem es_search_logged:
  assumes "Method r = ''POST''" "Path r = ''/_search''" "RequestURI r \<noteq> ''*''" "Body r = Some body"
  shows "\<exists>resp. mux_ServeHTTP (es_mux fp cfg mb) t r s
      = Some (Served resp, Log t (zero_Event\<lparr>Protocol := ProtoElasticsearch, SrcIP := fst (remote_ip_port (RemoteAddr r)),
          SrcPort := snd (remote_ip_port (RemoteAddr r)), Command := ''POST_/_search'', Payload := take (nat mb) body\<rparr>) s)
      \<and> Status resp = 200 \<and> Content resp = no_hits
      \<and> map_of (Headers resp) ''Content-Type'' = Some ''application/json; charset=UTF-8''"
proof -
  have p: "sanitizePath ''POST /_search'' = ''POST_/_search''" by code_simp
  have h: "json_marshal (JMap [(''took'', JInt 1), (''timed_out'', JBool False),
      (''_shards'', JMap [(''total'', JInt 0), (''successful'', JInt 0), (''failed'', JInt 0)]),
      (''hits'', JMap [(''total'', JMap [(''value'', JInt 0), (''relation'', JStr ''eq'')]), (''max_score'', JNull),
         (''hits'', JArr [])])]) @ [LF] = no_hits" by code_simp
  have m: "mux_match (es_mux fp cfg mb) ''/_search'' = Some (esSearchHandler mb)"
    using es_match [of "''/_search''" fp cfg mb] by (simp add: es_route_def HasPrefix_def)
  have "logHTTPEvent ProtoElasticsearch mb t r s = (r\<lparr>Body := Some (take (nat mb) body)\<rparr>,
      Log t (zero_Event\<lparr>Protocol := ProtoElasticsearch, SrcIP := fst (remote_ip_port (RemoteAddr r)),
          SrcPort := snd (remote_ip_port (RemoteAddr r)), Command := ''POST_/_search'', Payload := take (nat mb) body\<rparr>) s)"
    using assms p by (simp add: logHTTPEvent_def readLimitedBody_def Let_def split_beta)
  then have "esSearchHandler mb t r s = Some (\<lparr>Status = 200, Headers = [(''Content-Type'', ''application/json; charset=UTF-8''),
        (''X-elastic-product'', ''Elasticsearch'')], Content = no_hits\<rparr>,
      Log t (zero_Event\<lparr>Protocol := ProtoElasticsearch, SrcIP := fst (remote_ip_port (RemoteAddr r)),
          SrcPort := snd (remote_ip_port (RemoteAddr r)), Command := ''POST_/_search'', Payload := take (nat mb) body\<rparr>) s)"
    by (simp only: esSearchHandler_def Let_def prod.case writeJSON_def h)
  then show ?thesis using assms(1-3) by (simp add: mux_ServeHTTP_def shouldRedirect_es clean_session m)
qed

theorem es_search_logged_witness:
  "\<exists>fp cfg resp. mux_ServeHTTP (es_mux fp cfg 2) 0 ((sample_request ''POST'' ''/_search'')\<lparr>Body := Some ''{x}''\<rparr>) sample_store
      = Some (Served resp, Log 0 (zero_Event\<lparr>Protocol := ProtoElasticsearch, SrcIP := fst (remote_ip_port ''10.0.0.1:4000''),
          SrcPort := snd (remote_ip_port ''10.0.0.1:4000''), Command := ''POST_/_search'', Payload := ''{x''\<rparr>) sample_store)"
proof -
  let ?r = "(sample_request ''POST'' ''/_search'')\<lparr>Body := Some ''{x}''\<rparr>"
  have r: "Method ?r = ''POST''" "Path ?r = ''/_search''" "RequestURI ?r \<noteq> ''*''" "Body ?r = Some ''{x}''"
      "RemoteAddr ?r = ''10.0.0.1:4000''"
    by (simp_all add: sample_request_def)
  have t: "take (nat 2) ''{x}'' = ''{x''" by (simp add: numeral_2_eq_2)
  from es_search_logged [OF r(1-4), of _ _ 2 0 sample_store] show ?thesis unfolding r(5) t by blast
qed

end
