(* ===== verification/LogReader.thy ===== *)
theory LogReader
  imports Capture JsonDecode
begin

text \<open>
  The log seen from its reader: what the file promises is a sequence of events. The abstract store is
  that sequence, the abstract operation appends the sanitised, time-stamped event, and reading the
  file - splitting it at line feeds and decoding each line into the fields of the \<open>Event\<close> struct with
  the decoder of \<open>JsonDecode\<close> - is the abstraction function. The code's \<open>Log\<close> refines the append.
\<close>

section \<open>Reading a log\<close>

text \<open>The lines of a text whose last line is complete.\<close>

function split_lines :: "bytes \<Rightarrow> bytes list option" where
  "split_lines s =
    (if s = [] then Some []
     else case indexByte s LF of
       None \<Rightarrow> None
     | Some i \<Rightarrow> map_option (Cons (take i s)) (split_lines (drop (i + 1) s)))"
  by pat_completeness auto
termination
  by (relation "measure length") auto

declare split_lines.simps [simp del]

definition read_with :: "(bytes \<Rightarrow> 'r option) \<Rightarrow> bytes \<Rightarrow> 'r list option" where
  "read_with decode s = do { ls \<leftarrow> split_lines s; those (map decode ls) }"

lemma split_lines_Nil [simp]: "split_lines [] = Some []"
  by (simp add: split_lines.simps)

lemma split_lines_line:
  "LF \<notin> set l \<Longrightarrow> split_lines (l @ LF # s) = map_option (Cons l) (split_lines s)"
  by (subst split_lines.simps) simp

lemma split_lines_append:
  "split_lines s = Some ls \<Longrightarrow> split_lines (s @ t) = map_option (append ls) (split_lines t)"
proof (induction s arbitrary: ls rule: split_lines.induct)
  case (1 s)
  show ?case
  proof (cases "s = []")
    case True
    then show ?thesis using "1.prems" by (cases "split_lines t") auto
  next
    case False
    then obtain i ls' where i: "indexByte s LF = Some i" "split_lines (drop (i + 1) s) = Some ls'" "ls = take i s # ls'"
      using "1.prems" by (subst (asm) split_lines.simps) (auto split: option.splits)
    then have b: "i < length s" "s ! i = LF" "LF \<notin> set (take i s)" by (auto simp: indexByte_Some)
    have "s = take i s @ LF # drop (i + 1) s" using b(1,2) by (metis id_take_nth_drop Suc_eq_plus1)
    then obtain u v where uv: "s = u @ LF # v" "u = take i s" "v = drop (i + 1) s" by blast
    have "split_lines (s @ t) = split_lines (u @ LF # (v @ t))" by (simp add: uv(1))
    also have "\<dots> = map_option (Cons u) (map_option (append ls') (split_lines t))"
      using "1.IH" [OF False i(1,2)] b(3) unfolding uv(2,3) [symmetric] by (simp add: split_lines_line)
    finally show ?thesis using i(3) uv(2) by (cases "split_lines t") auto
  qed
qed

lemma those_append: "those (xs @ ys) = do { a \<leftarrow> those xs; b \<leftarrow> those ys; Some (a @ b) }"
proof (induction xs)
  case Nil
  then show ?case by (cases "those ys") auto
next
  case (Cons x xs)
  then show ?case by (cases x; cases "those xs"; cases "those ys") auto
qed

lemma read_with_append:
  assumes "read_with decode s = Some rs"
  shows "read_with decode (s @ t) = map_option (append rs) (read_with decode t)"
proof -
  obtain ls where "split_lines s = Some ls" "those (map decode ls) = Some rs"
    using assms by (auto simp: read_with_def split: Option.bind_splits)
  then show ?thesis
    by (cases "split_lines t"; cases "those (map decode (the (split_lines t)))")
      (auto simp: read_with_def split_lines_append those_append)
qed

lemma read_with_line:
  "LF \<notin> set l \<Longrightarrow> decode l = Some r \<Longrightarrow> read_with decode (l @ [LF]) = Some [r]"
  by (simp add: read_with_def split_lines_line)

text \<open>
  A line log whose lines a reader decodes. \<open>meaning t e\<close> is the entry a call stands for; the
  specification of the log is the list of entries, and logging appends one.
\<close>

locale decodable_log = line_log +
  fixes decode :: "bytes \<Rightarrow> 'r option"
    and meaning :: "nat \<Rightarrow> 'a \<Rightarrow> 'r"
    and loggable :: "'a \<Rightarrow> bool"
  assumes decode_line: "loggable e \<Longrightarrow> line t e = l @ [LF] \<Longrightarrow> decode l = Some (meaning t e)"
begin

lemma log_refines:
  assumes "ready s" "loggable e" "read_with decode (content s) = Some rs"
  shows "read_with decode (content (log t e s)) = Some (rs @ [meaning t e])"
proof -
  obtain l where l: "line t e = l @ [LF]" "LF \<notin> set l" using line_framed by blast
  then have "read_with decode (line t e) = Some [meaning t e]"
    using decode_line [OF assms(2) l(1)] by (simp add: read_with_line)
  then show ?thesis using assms by (simp add: log_content read_with_append)
qed

lemma log_all_refines:
  assumes "ready s" "\<forall>(t, e) \<in> set es. loggable e" "read_with decode (content s) = Some rs"
  shows "read_with decode (content (fold (\<lambda>(t, e). log t e) es s)) = Some (rs @ map (\<lambda>(t, e). meaning t e) es)"
  using assms
proof (induction es arbitrary: s rs)
  case (Cons x es)
  obtain t e where x: "x = (t, e)" by fastforce
  have "read_with decode (content (log t e s)) = Some (rs @ [meaning t e])"
    using Cons.prems x by (intro log_refines) auto
  from Cons.IH [OF log_ready [OF Cons.prems(1)] _ this] Cons.prems x show ?case by simp
qed simp

end

section \<open>The events of the capture store\<close>

definition event_fields :: "Event jfield list" where
  "event_fields =
    [(''ts'', assign_string (\<lambda>x e. e\<lparr>Timestamp := x\<rparr>)),
     (''proto'', assign_string (\<lambda>x e. e\<lparr>Protocol := x\<rparr>)),
     (''src_ip'', assign_string (\<lambda>x e. e\<lparr>SrcIP := x\<rparr>)),
     (''src_port'', assign_int (\<lambda>x e. e\<lparr>SrcPort := word_of_int x\<rparr>)),
     (''username'', assign_string (\<lambda>x e. e\<lparr>Username := x\<rparr>)),
     (''password'', assign_string (\<lambda>x e. e\<lparr>Password := x\<rparr>)),
     (''database'', assign_string (\<lambda>x e. e\<lparr>Database := x\<rparr>)),
     (''auth_hash'', assign_string (\<lambda>x e. e\<lparr>AuthHash := x\<rparr>)),
     (''command'', assign_string (\<lambda>x e. e\<lparr>Command := x\<rparr>)),
     (''payload'', assign_string (\<lambda>x e. e\<lparr>Payload := x\<rparr>))]"

definition decode_event :: "bytes \<Rightarrow> Event option" where
  "decode_event l = do { v \<leftarrow> json_parse l; assign_struct True event_fields v zero_Event }"

definition recorded :: "nat \<Rightarrow> Event \<Rightarrow> Event" where
  "recorded t e = sanitize (e\<lparr>Timestamp := rfc3339nano t\<rparr>)"

lemma dec_nat_ascii: "c \<in> set (dec_nat n) \<Longrightarrow> (of_char c :: nat) < 0x80"
  using dec_nat_digits [of n] by (auto simp: list_all_iff is_digit_def in_range_def)

lemma rfc3339nano_ascii: "c \<in> set (rfc3339nano t) \<Longrightarrow> (of_char c :: nat) < 0x80"
proof -
  have p: "(of_char c :: nat) < 0x80" if "c \<in> set (pad w n)" for w n c
    using that dec_nat_ascii by (auto simp: pad_def)
  have z: "(of_char c :: nat) < 0x80" if "c \<in> set (trim_zeros (pad w n))" for w n c
    using that p [of c w n] by (auto simp: trim_zeros_def dest: set_dropWhileD)
  assume "c \<in> set (rfc3339nano t)"
  then show ?thesis by (auto simp: rfc3339nano_def Let_def dest: p z split: prod.splits if_splits)
qed

lemma assign_members_append:
  "assign_members D fs (xs @ ys) s = Option.bind (assign_members D fs xs s) (assign_members D fs ys)"
  by (induction xs arbitrary: s) (auto split: option.splits Option.bind_split)

lemma assign_omitempty:
  assumes "find_field fs (clean k) = Some (assign_string upd)" "v = [] \<Longrightarrow> upd v s = s" "utf8_valid v"
  shows "assign_members D fs (map (\<lambda>kv. (clean (fst kv), tree_of (snd kv))) (omitempty k v) @ rest) s
    = assign_members D fs rest (upd v s)"
  using assms by (simp add: omitempty_def assign_string_def)

lemma clean_ascii: "\<forall>c \<in> set s. (of_char c :: nat) < 0x80 \<Longrightarrow> clean s = s"
  by (simp add: utf8_valid_ascii)

lemma find_event_field:
  "find_field event_fields ''ts'' = Some (assign_string (\<lambda>x e. e\<lparr>Timestamp := x\<rparr>))"
  "find_field event_fields ''proto'' = Some (assign_string (\<lambda>x e. e\<lparr>Protocol := x\<rparr>))"
  "find_field event_fields ''src_ip'' = Some (assign_string (\<lambda>x e. e\<lparr>SrcIP := x\<rparr>))"
  "find_field event_fields ''src_port'' = Some (assign_int (\<lambda>x e. e\<lparr>SrcPort := word_of_int x\<rparr>))"
  "find_field event_fields ''username'' = Some (assign_string (\<lambda>x e. e\<lparr>Username := x\<rparr>))"
  "find_field event_fields ''password'' = Some (assign_string (\<lambda>x e. e\<lparr>Password := x\<rparr>))"
  "find_field event_fields ''database'' = Some (assign_string (\<lambda>x e. e\<lparr>Database := x\<rparr>))"
  "find_field event_fields ''auth_hash'' = Some (assign_string (\<lambda>x e. e\<lparr>AuthHash := x\<rparr>))"
  "find_field event_fields ''command'' = Some (assign_string (\<lambda>x e. e\<lparr>Command := x\<rparr>))"
  "find_field event_fields ''payload'' = Some (assign_string (\<lambda>x e. e\<lparr>Payload := x\<rparr>))"
  by (simp_all add: find_field_def event_fields_def)

definition printable_event :: "Event \<Rightarrow> bool" where
  "printable_event e \<longleftrightarrow> (\<forall>s \<in> {Timestamp e, Protocol e, SrcIP e, Username e, Password e, Database e, AuthHash e,
     Command e, Payload e}. utf8_valid s)"

lemma recorded_printable: "loggable e \<Longrightarrow> printable_event (recorded t e)"
  using utf8_valid_ascii rfc3339nano_ascii
  by (simp add: printable_event_def recorded_def sanitize_def loggable_def utf8_valid_sanitizeStr)

lemma decode_event_json:
  assumes "printable_event e"
  shows "decode_event (json_marshal (event_json e)) = Some e"
proof -
  let ?m = "map (\<lambda>kv. (clean (fst kv), tree_of (snd kv)))"
  let ?head = "[(''ts'', JStr (Timestamp e)), (''proto'', JStr (Protocol e)), (''src_ip'', JStr (SrcIP e)), (''src_port'', JInt (sint (SrcPort e)))]"
  let ?opt = "?m (omitempty ''username'' (Username e)) @ ?m (omitempty ''password'' (Password e))
    @ ?m (omitempty ''database'' (Database e)) @ ?m (omitempty ''auth_hash'' (AuthHash e))
    @ ?m (omitempty ''command'' (Command e)) @ ?m (omitempty ''payload'' (Payload e)) @ []"
  let ?e1 = "zero_Event\<lparr>Timestamp := Timestamp e, Protocol := Protocol e, SrcIP := SrcIP e, SrcPort := SrcPort e\<rparr>"
  have v: "utf8_valid (Timestamp e)" "utf8_valid (Protocol e)" "utf8_valid (SrcIP e)" "utf8_valid (Username e)"
      "utf8_valid (Password e)" "utf8_valid (Database e)" "utf8_valid (AuthHash e)" "utf8_valid (Command e)"
      "utf8_valid (Payload e)" "Atoi (dec_int (sint (SrcPort e))) = Some (sint (SrcPort e))"
    using assms sint_greater_eq [of "SrcPort e"] sint_less [of "SrcPort e"]
    by (simp_all add: printable_event_def Atoi_dec_int)
  have k: "clean ''ts'' = ''ts''" "clean ''proto'' = ''proto''" "clean ''src_ip'' = ''src_ip''" "clean ''src_port'' = ''src_port''"
      "clean ''username'' = ''username''" "clean ''password'' = ''password''" "clean ''database'' = ''database''"
      "clean ''auth_hash'' = ''auth_hash''" "clean ''command'' = ''command''" "clean ''payload'' = ''payload''"
    by (rule clean_ascii; simp)+
  have d: "jdepth (event_json e) \<le> maxNestingDepth"
    by (simp add: event_json_def omitempty_def maxNestingDepth_def)
  have t: "tree_of (event_json e) = TObj (?m ?head @ ?opt)" by (simp add: event_json_def)
  have h: "assign_members True event_fields (?m ?head) zero_Event = Some ?e1"
    using v by (simp add: k find_event_field assign_string_def assign_int_def)
  have o: "assign_members True event_fields ?opt ?e1 = Some e"
    by (subst assign_omitempty, simp add: k find_event_field, simp add: zero_Event_def, rule v)+
      (cases e, simp add: zero_Event_def)
  have "assign_members True event_fields (?m ?head @ ?opt) zero_Event = Some e"
    unfolding assign_members_append [of True event_fields "?m ?head"] h bind.bind_lunit by (rule o)
  then show ?thesis
    unfolding decode_event_def json_parse_marshal [OF d] bind.bind_lunit t assign_struct_def by simp
qed

interpretation store_reader: decodable_log Log log_line logf store_ready decode_event recorded loggable
proof unfold_locales
  fix e t l
  assume e: "loggable e" and l: "log_line t e = l @ [LF]"
  have "l = json_marshal (event_json (recorded t e))" using l by (simp add: log_line_def recorded_def)
  then show "decode_event l = Some (recorded t e)"
    using decode_event_json [OF recorded_printable [OF e]] by simp
qed

text \<open>C2. The log file refines a list of events: if reading it gives some entries, then after any sequence
  of \<^verbatim>\<open>Log\<close> calls reading it gives those entries followed by exactly the sanitised, time-stamped
  events, in order, field by field, whatever bytes the events carry.\<close>

theorem Log_refines_event_list:
  assumes "store_ready s" "\<forall>(t, e) \<in> set es. loggable e" "read_with decode_event (logf s) = Some old"
  shows "read_with decode_event (logf (fold (\<lambda>(t, e). Log t e) es s)) = Some (old @ map (\<lambda>(t, e). recorded t e) es)"
  by (rule store_reader.log_all_refines [OF assms])

theorem Log_refines_event_list_witness:
  "\<exists>s0. New (Inr []) None None = Inr s0
    \<and> read_with decode_event (logf (fold (\<lambda>(t, e). Log t e)
        [(0, zero_Event\<lparr>Protocol := ProtoRedis, Username := [LF, QUOTE, CHR 0xFF]\<rparr>)] s0)) =
      Some [recorded 0 (zero_Event\<lparr>Protocol := ProtoRedis, Username := [LF, QUOTE, CHR 0xFF]\<rparr>)]"
proof -
  define s0 :: Store where "s0 = \<lparr>logf = [], file_open = True, disk_space = None, webhook = None,
      deliveries = [], diag = []\<rparr>"
  let ?e = "zero_Event\<lparr>Protocol := ProtoRedis, Username := [LF, QUOTE, CHR 0xFF]\<rparr>"
  have "New (Inr []) None None = Inr s0" by (simp add: New_def s0_def)
  moreover have "store_ready s0" "read_with decode_event (logf s0) = Some []"
    by (simp_all add: store_ready_def s0_def read_with_def)
  moreover have "loggable ?e" by (simp add: loggable_def)
  ultimately show ?thesis using Log_refines_event_list [of s0 "[(0, ?e)]" "[]"] by auto
qed

end
