(* ===== verification/Bson.thy ===== *)
theory Bson
  imports Capture "HOL-Library.Multiset"
begin

text \<open>
  The BSON codec of \<^verbatim>\<open>internal/proto/mongodb\<close>.

  A Go document is a list of entries in the order in which they were stored; of two entries with
  the same key the later one counts (\<open>doc_lookup\<close>). Go visits the entries of a map in an order
  that is not determined: \<open>order\<close>, an argument of the encoder, is that order, applied to the
  encoded elements of each document. \<open>GFloat\<close> is a \<^verbatim>\<open>float64\<close> that is an integer of 32 bits, for which alone
  the language determines what the encoder's conversion gives; \<open>GOther\<close> is a value of any other type, by its
  JSON, which is all the encoder looks at. No document of the program has either.

  The parser is in the option monad, \<^const>\<open>None\<close> being an access out of range.
\<close>

datatype gval =
    GString bytes
  | GInt int
  | GInt32 "32 word"
  | GInt64 "64 word"
  | GBool bool
  | GMap "(bytes \<times> gval) list"
  | GSlice "gval list"
  | GStrings "bytes list"
  | GInts "int list"
  | GFloat int
  | GOther jval

type_synonym gdoc = "(bytes \<times> gval) list"

definition doc_lookup :: "gdoc \<Rightarrow> bytes \<Rightarrow> gval option" where
  "doc_lookup doc k = map_of (rev doc) k"

definition maxBSONDoc :: nat where "maxBSONDoc = 16 * 1024 * 1024"

section \<open>Encoding\<close>

definition bson_elem :: "char \<Rightarrow> bytes \<Rightarrow> bytes \<Rightarrow> bytes" where
  "bson_elem t key payload = [t] @ key @ [NUL] @ payload"

definition bson_wrap :: "bytes list \<Rightarrow> bytes" where
  "bson_wrap elems = (let e = concat elems @ [NUL] in le_bytes 4 (4 + length e) @ e)"

fun bson_type :: "gval \<Rightarrow> char" where
  "bson_type (GString s) = CHR 0x02"
| "bson_type (GInt i) = CHR 0x10"
| "bson_type (GInt32 w) = CHR 0x10"
| "bson_type (GInt64 w) = CHR 0x12"
| "bson_type (GBool b) = CHR 0x08"
| "bson_type (GMap d) = CHR 0x03"
| "bson_type (GSlice vs) = CHR 0x04"
| "bson_type (GStrings ss) = CHR 0x04"
| "bson_type (GInts is) = CHR 0x04"
| "bson_type (GFloat i) = CHR 0x10"
| "bson_type (GOther v) = CHR 0x02"

definition bson_string :: "bytes \<Rightarrow> bytes" where
  "bson_string s = le_bytes 4 (length s + 1) @ s @ [NUL]"

text \<open>The elements of an array are the entries of a map from decimal indices.\<close>

definition bson_array :: "(bytes list \<Rightarrow> bytes list) \<Rightarrow> (char \<times> bytes) list \<Rightarrow> bytes" where
  "bson_array order tps =
    bson_wrap (order (map (\<lambda>(i, t, p). bson_elem t (dec_nat i) p) (enumerate 0 tps)))"

fun bson_payload :: "(bytes list \<Rightarrow> bytes list) \<Rightarrow> gval \<Rightarrow> bytes" where
  "bson_payload order (GString s) = bson_string s"
| "bson_payload order (GInt i) = le_bytes 4 (unat (word_of_int i :: 32 word))"
| "bson_payload order (GInt32 w) = le_bytes 4 (unat w)"
| "bson_payload order (GInt64 w) = le_bytes 8 (unat w)"
| "bson_payload order (GBool b) = [if b then CHR 0x01 else NUL]"
| "bson_payload order (GMap d) =
    bson_wrap (order (map (\<lambda>kv. bson_elem (bson_type (snd kv)) (fst kv) (bson_payload order (snd kv))) d))"
| "bson_payload order (GSlice vs) = bson_array order (map (\<lambda>v. (bson_type v, bson_payload order v)) vs)"
| "bson_payload order (GStrings ss) = bson_array order (map (\<lambda>s. (CHR 0x02, bson_string s)) ss)"
| "bson_payload order (GInts is) =
    bson_array order (map (\<lambda>i. (CHR 0x10, le_bytes 4 (unat (word_of_int i :: 32 word)))) is)"
| "bson_payload order (GFloat i) = le_bytes 4 (unat (word_of_int i :: 32 word))"
| "bson_payload order (GOther v) = bson_string (json_marshal v)"

definition encodeBSON :: "(bytes list \<Rightarrow> bytes list) \<Rightarrow> gdoc \<Rightarrow> bytes" where
  "encodeBSON order doc = bson_payload order (GMap doc)"

definition minimalBSON :: bytes where
  "minimalBSON = [CHR 0x05, NUL, NUL, NUL, NUL]"

section \<open>Parsing\<close>

text \<open>The value of one element: nothing when the loop is left, otherwise the value that is stored, if
  any, and the position after it.\<close>

definition bson_value :: "bytes \<Rightarrow> nat \<Rightarrow> nat \<Rightarrow> char \<Rightarrow> (gval option \<times> nat) option option" where
  "bson_value data docLen pos elemType =
    (if elemType = CHR 0x02 then
       (if pos + 4 > docLen \<or> pos + 4 > length data then Some None
        else do {
          strLen \<leftarrow> Option.bind (go_from data pos) le_uint32;
          let pos = pos + 4;
          if strLen < 1 \<or> pos + strLen > docLen \<or> pos + strLen > length data then Some None
          else do { s \<leftarrow> go_slice data pos (pos + strLen - 1); Some (Some (Some (GString s), pos + strLen)) } })
     else if elemType = CHR 0x10 then
       (if pos + 4 > docLen \<or> pos + 4 > length data then Some None
        else do { n \<leftarrow> Option.bind (go_from data pos) le_uint32; Some (Some (Some (GInt32 (word_of_nat n)), pos + 4)) })
     else if elemType = CHR 0x12 then
       (if pos + 8 > docLen \<or> pos + 8 > length data then Some None
        else do { n \<leftarrow> Option.bind (go_from data pos) le_uint64; Some (Some (Some (GInt64 (word_of_nat n)), pos + 8)) })
     else if elemType = CHR 0x08 then
       (if pos \<ge> docLen \<or> pos \<ge> length data then Some None
        else do { b \<leftarrow> go_index data pos; Some (Some (Some (GBool (b \<noteq> NUL)), pos + 1)) })
     else if elemType = CHR 0x01 then
       (if pos + 8 > length data then Some None else Some (Some (None, pos + 8)))
     else if elemType = CHR 0x03 \<or> elemType = CHR 0x04 then
       (if pos + 4 > length data then Some None
        else do {
          subLen \<leftarrow> Option.bind (go_from data pos) le_uint32;
          if subLen < 5 \<or> pos + subLen > length data then Some None else Some (Some (None, pos + subLen)) })
     else if elemType = CHR 0x05 then
       (if pos + 4 > length data then Some None
        else do {
          binLen \<leftarrow> Option.bind (go_from data pos) le_uint32;
          if pos + 5 + binLen > length data then Some None else Some (Some (None, pos + 5 + binLen)) })
     else if elemType = CHR 0x07 then
       (if pos + 12 > length data then Some None else Some (Some (None, pos + 12)))
     else if elemType = CHR 0x09 then
       (if pos + 8 > length data then Some None else Some (Some (None, pos + 8)))
     else if elemType = CHR 0x0A then Some (Some (None, pos))
     else Some None)"

lemma bson_value_moves: "bson_value data docLen pos t = Some (Some (v, pos')) \<Longrightarrow> pos \<le> pos' \<and> pos' \<le> length data \<or> pos' = pos"
  by (auto simp: bson_value_def Let_def split: if_splits Option.bind_splits)

function bson_loop :: "bytes \<Rightarrow> nat \<Rightarrow> nat \<Rightarrow> gdoc \<Rightarrow> gdoc option" where
  "bson_loop data docLen pos doc =
    (if \<not> pos < docLen - 1 \<or> pos \<ge> length data then Some doc
     else do {
       elemType \<leftarrow> go_index data pos;
       rest \<leftarrow> go_from data (pos + 1);
       case indexByte rest NUL of
         None \<Rightarrow> Some doc
       | Some keyEnd \<Rightarrow>
           if pos + 1 + keyEnd \<ge> docLen then Some doc
           else do {
             key \<leftarrow> go_slice data (pos + 1) (pos + 1 + keyEnd);
             r \<leftarrow> bson_value data docLen (pos + 1 + keyEnd + 1) elemType;
             case r of
               None \<Rightarrow> Some doc
             | Some (v, pos') \<Rightarrow>
                 bson_loop data docLen pos' (case v of None \<Rightarrow> doc | Some x \<Rightarrow> doc @ [(key, x)]) } })"
  by pat_completeness auto
termination
  by (relation "measure (\<lambda>(data, docLen, pos, doc). docLen - pos)") (auto dest!: bson_value_moves)

declare bson_loop.simps [simp del]

text \<open>\<^verbatim>\<open>nil, -1\<close> is the inner \<^const>\<open>None\<close>.\<close>

definition parseBSONDoc :: "bytes \<Rightarrow> (gdoc \<times> nat) option option" where
  "parseBSONDoc data =
    (if length data < 5 then Some None
     else do {
       docLen \<leftarrow> le_uint32 data;
       if docLen < 5 \<or> docLen > maxBSONDoc \<or> docLen > length data then Some None
       else do { doc \<leftarrow> bson_loop data docLen 4 []; Some (Some (doc, docLen)) } })"

definition bsonFirstKey :: "unicode_tables \<Rightarrow> bytes \<Rightarrow> bytes option" where
  "bsonFirstKey U data =
    (if length data < 5 then Some []
     else do {
       docLen \<leftarrow> le_uint32 data;
       if docLen < 5 \<or> docLen > length data then Some []
       else if 4 \<ge> docLen then Some []
       else do {
         rest \<leftarrow> go_from data 5;
         case indexByte rest NUL of
           None \<Rightarrow> Some []
         | Some e \<Rightarrow>
             if 5 + e \<ge> docLen then Some []
             else do { k \<leftarrow> go_slice data 5 (5 + e); Some (ToLower U k) } } })"

text \<open>\<^verbatim>\<open>json.Marshal\<close> of a parsed document; \<^verbatim>\<open>nil\<close> is null.\<close>

fun gval_json :: "gval \<Rightarrow> jval" where
  "gval_json (GString s) = JStr s"
| "gval_json (GInt i) = JInt i"
| "gval_json (GInt32 w) = JInt (sint w)"
| "gval_json (GInt64 w) = JInt (sint w)"
| "gval_json (GBool b) = JBool b"
| "gval_json (GMap d) = JMap (map (\<lambda>kv. (fst kv, gval_json (snd kv))) d)"
| "gval_json (GSlice vs) = JArr (map gval_json vs)"
| "gval_json (GStrings ss) = JArr (map JStr ss)"
| "gval_json (GInts is) = JArr (map JInt is)"
| "gval_json (GFloat i) = JInt i"
| "gval_json (GOther v) = v"

definition mongo_jsonMarshal :: "gdoc option \<Rightarrow> bytes" where
  "mongo_jsonMarshal doc = json_marshal (case doc of None \<Rightarrow> JNull | Some d \<Rightarrow> gval_json (GMap d))"

definition extractString :: "gdoc option \<Rightarrow> bytes \<Rightarrow> bytes option" where
  "extractString doc key =
    (case doc of
       None \<Rightarrow> None
     | Some d \<Rightarrow> (case doc_lookup d key of Some (GString s) \<Rightarrow> Some s | _ \<Rightarrow> None))"

section \<open>The parser never leaves its input\<close>

lemma le_uint_at:
  "pos + 4 \<le> length data \<Longrightarrow> Option.bind (go_from data pos) le_uint32 = Some (le_nat (take 4 (drop pos data)))"
  "pos + 8 \<le> length data \<Longrightarrow> Option.bind (go_from data pos) le_uint64 = Some (le_nat (take 8 (drop pos data)))"
  by (simp_all add: go_from_def le_uint32_def le_uint64_def)

lemma bson_value_total: "\<exists>r. bson_value data docLen pos t = Some r"
  by (auto simp: bson_value_def Let_def le_uint_at go_slice_def go_index_def)

lemma bson_loop_total: "\<exists>d. bson_loop data docLen pos doc = Some d"
proof (induction data docLen pos doc rule: bson_loop.induct)
  case (1 data docLen pos doc)
  show ?case
  proof (cases "\<not> pos < docLen - 1 \<or> pos \<ge> length data")
    case True
    then show ?thesis by (subst bson_loop.simps) simp
  next
    case False
    let ?rest = "drop (pos + 1) data"
    have i: "go_index data pos = Some (data ! pos)" "go_from data (pos + 1) = Some ?rest"
      using False by (simp_all add: go_index_def go_from_def)
    show ?thesis
    proof (cases "indexByte ?rest NUL")
      case None
      then show ?thesis using False i by (subst bson_loop.simps) simp
    next
      case (Some e)
      show ?thesis
      proof (cases "pos + 1 + e \<ge> docLen")
        case True
        then show ?thesis using False i Some by (subst bson_loop.simps) simp
      next
        case small: False
        let ?key = "take e (drop (pos + 1) data)"
        have k: "go_slice data (pos + 1) (pos + 1 + e) = Some ?key"
          using indexByte_less [OF Some] by (simp add: go_slice_def)
        obtain r where r: "bson_value data docLen (pos + 1 + e + 1) (data ! pos) = Some r"
          using bson_value_total by blast
        show ?thesis
        proof (cases r)
          case None
          then show ?thesis using False i Some small k r by (subst bson_loop.simps) simp
        next
          case (Some x)
          obtain v p where x: "x = (v, p)" by fastforce
          note eqs = False i \<open>indexByte ?rest NUL = Some e\<close> small k
          have "\<exists>d. bson_loop data docLen p (case v of None \<Rightarrow> doc | Some y \<Rightarrow> doc @ [(?key, y)]) = Some d"
            using "1.IH" [OF eqs r Some x [symmetric]] .
          then show ?thesis using eqs r Some x by (subst bson_loop.simps) (cases v; simp)
        qed
      qed
    qed
  qed
qed

lemma parseBSONDoc_total: "\<exists>r. parseBSONDoc data = Some r"
proof (cases "length data < 5")
  case True
  then show ?thesis by (simp add: parseBSONDoc_def)
next
  case False
  then obtain n where n: "le_uint32 data = Some n" by (auto simp: le_uint32_def)
  obtain d where "bson_loop data n 4 [] = Some d" using bson_loop_total by blast
  then show ?thesis using False n by (simp add: parseBSONDoc_def)
qed

lemma parseBSONDoc_bounds:
  "parseBSONDoc data = Some (Some (doc, n)) \<Longrightarrow> 5 \<le> n \<and> n \<le> length data \<and> n \<le> maxBSONDoc"
  by (auto simp: parseBSONDoc_def split: if_splits Option.bind_splits)

lemma bsonFirstKey_total: "\<exists>k. bsonFirstKey U data = Some k"
proof (cases "length data < 5")
  case True
  then show ?thesis by (simp add: bsonFirstKey_def)
next
  case False
  then obtain n where n: "le_uint32 data = Some n" by (auto simp: le_uint32_def)
  have s: "go_from data 5 = Some (drop 5 data)" using False by (simp add: go_from_def)
  show ?thesis
  proof (cases "indexByte (drop 5 data) NUL")
    case None
    then show ?thesis using False n s by (simp add: bsonFirstKey_def)
  next
    case (Some e)
    then have "go_slice data 5 (5 + e) = Some (take e (drop 5 data))"
      using indexByte_less [OF Some] by (simp add: go_slice_def)
    then show ?thesis using False n s Some by (simp add: bsonFirstKey_def)
  qed
qed

section \<open>Round trip\<close>

text \<open>What a reader of the encoding gets back: integers as 32 bits, other types as their JSON, and nothing for documents and
  arrays, which the parser skips.\<close>

fun gval_read :: "gval \<Rightarrow> gval option" where
  "gval_read (GString s) = Some (GString s)"
| "gval_read (GInt i) = Some (GInt32 (word_of_int i))"
| "gval_read (GInt32 w) = Some (GInt32 w)"
| "gval_read (GInt64 w) = Some (GInt64 w)"
| "gval_read (GBool b) = Some (GBool b)"
| "gval_read (GFloat i) = Some (GInt32 (word_of_int i))"
| "gval_read (GOther v) = Some (GString (json_marshal v))"
| "gval_read _ = None"

definition entry_read :: "bytes \<times> gval \<Rightarrow> gdoc" where
  "entry_read kv = (case gval_read (snd kv) of None \<Rightarrow> [] | Some v \<Rightarrow> [(fst kv, v)])"

lemma bson_wrap_length: "length (bson_wrap es) = 5 + length (concat es)"
  by (simp add: bson_wrap_def Let_def)

lemma bson_wrap_head: "length (bson_wrap es) < 2 ^ 32 \<Longrightarrow> le_nat (take 4 (bson_wrap es @ r)) = length (bson_wrap es)"
  unfolding bson_wrap_length by (simp add: bson_wrap_def Let_def)

lemma bson_sub:
  assumes "bson_type v = CHR 0x03 \<or> bson_type v = CHR 0x04"
  shows "\<exists>es. bson_payload order v = bson_wrap es" "gval_read v = None"
  using assms by (cases v; simp add: bson_array_def; blast)+

lemma bson_value_payload:
  assumes "data = pre @ bson_payload order v @ suf" "length pre + length (bson_payload order v) \<le> docLen"
    and "docLen \<le> length data" "docLen < 2 ^ 32"
  shows "bson_value data docLen (length pre) (bson_type v) = Some (Some (gval_read v, length pre + length (bson_payload order v)))"
proof (cases "bson_type v = CHR 0x03 \<or> bson_type v = CHR 0x04")
  case True
  obtain es where es: "bson_payload order v = bson_wrap es" using bson_sub(1) [OF True] by blast
  have l: "length (bson_wrap es) < 2 ^ 32" using assms(2,4) es by simp
  have "Option.bind (go_from data (length pre)) le_uint32 = Some (length (bson_wrap es))"
    using bson_wrap_head [OF l, of suf] assms(1) es
    by (simp add: go_from_def le_uint32_def bson_wrap_length)
  then show ?thesis using True bson_sub(2) [OF True] es assms(1)
    by (auto simp: bson_value_def bson_wrap_length)
next
  case False
  have lb: "le_nat (le_bytes 4 (unat (w :: 32 word))) = unat w" "le_nat (le_bytes 8 (unat (x :: 64 word))) = unat x" for w x
    using unsigned_less [of w, where ?'a = nat] unsigned_less [of x, where ?'a = nat] by (simp_all add: le_nat_le_bytes)
  show ?thesis
    using False assms
    by (cases v)
      (auto simp: bson_value_def Let_def bson_string_def go_from_def go_index_def go_slice_def le_uint32_def le_uint64_def
        lb nth_append)
qed


text \<open>One element, and all the elements of a document.\<close>

abbreviation (input) bson_entry :: "(bytes list \<Rightarrow> bytes list) \<Rightarrow> bytes \<times> gval \<Rightarrow> bytes" where
  "bson_entry order kv \<equiv> bson_elem (bson_type (snd kv)) (fst kv) (bson_payload order (snd kv))"

lemma bson_loop_elem:
  assumes d: "data = pre @ bson_entry order (k, v) @ suf" and k: "NUL \<notin> set k"
    and l: "length pre + length (bson_entry order (k, v)) < docLen" "docLen \<le> length data" "docLen < 2 ^ 32"
  shows "bson_loop data docLen (length pre) doc
    = bson_loop data docLen (length (pre @ bson_entry order (k, v))) (doc @ entry_read (k, v))"
proof -
  let ?t = "bson_type v" and ?p = "bson_payload order v"
  have d1: "data = pre @ ?t # k @ NUL # ?p @ suf" using d by (simp add: bson_elem_def)
  have n: "length pre + 1 + length k + 1 + length ?p < docLen" using l(1) by (simp add: bson_elem_def)
  have "bson_value data docLen (length (pre @ [?t] @ k @ [NUL])) ?t
      = Some (Some (gval_read v, length (pre @ [?t] @ k @ [NUL]) + length ?p))"
    using d1 n l(2,3) by (intro bson_value_payload) simp_all
  then have v: "bson_value data docLen (Suc (Suc (length pre + length k))) ?t
      = Some (Some (gval_read v, Suc (Suc (length pre + length k)) + length ?p))"
    by simp
  have a: "go_index data (length pre) = Some ?t" "go_from data (Suc (length pre)) = Some (k @ NUL # ?p @ suf)"
      "go_slice data (Suc (length pre)) (Suc (length pre + length k)) = Some k"
    using d1 by (simp_all add: go_index_def go_from_def go_slice_def)
  have i: "indexByte (k @ NUL # ?p @ suf) NUL = Some (length k)" using k by simp
  have len: "length (pre @ bson_entry order (k, v)) = Suc (Suc (length pre + length k)) + length ?p"
    by (simp add: bson_elem_def)
  have b: "length pre < docLen - 1" "length pre < length data" "Suc (length pre + length k) < docLen"
    using n d1 by simp_all
  show ?thesis unfolding len
    by (subst bson_loop.simps, cases "gval_read v") (use a i b v in \<open>simp_all add: entry_read_def\<close>)
qed

lemma bson_loop_elems:
  assumes "data = pre @ concat (map (bson_entry order) kvs) @ suf" "\<forall>kv \<in> set kvs. NUL \<notin> set (fst kv)"
    and "docLen = length pre + length (concat (map (bson_entry order) kvs)) + 1" "docLen \<le> length data" "docLen < 2 ^ 32"
  shows "bson_loop data docLen (length pre) doc = Some (doc @ concat (map entry_read kvs))"
  using assms
proof (induction kvs arbitrary: pre doc)
  case Nil
  then show ?case by (subst bson_loop.simps) simp
next
  case (Cons kv kvs)
  obtain k v where kv: "kv = (k, v)" by fastforce
  let ?pre = "pre @ bson_entry order (k, v)"
  have d: "data = ?pre @ concat (map (bson_entry order) kvs) @ suf" using Cons.prems(1) by (simp add: kv)
  have "bson_loop data docLen (length pre) doc = bson_loop data docLen (length ?pre) (doc @ entry_read (k, v))"
    using Cons.prems d by (intro bson_loop_elem [of _ _ _ _ _ "concat (map (bson_entry order) kvs) @ suf"]) (simp_all add: kv)
  also have "\<dots> = Some ((doc @ entry_read (k, v)) @ concat (map entry_read kvs))"
    by (rule Cons.IH [OF d]) (use Cons.prems in \<open>simp_all add: kv\<close>)
  finally show ?case by (simp add: kv)
qed

lemma mset_map_preimage:
  "mset ys = mset (map f xs) \<Longrightarrow> \<exists>xs'. mset xs' = mset xs \<and> ys = map f xs'"
proof (induction ys arbitrary: xs)
  case (Cons y ys)
  have "y \<in> set (map f xs)" using Cons.prems by (metis list.set_intros(1) set_mset_mset)
  then obtain x where x: "x \<in> set xs" "y = f x" by auto
  then have m: "mset xs = add_mset x (mset (remove1 x xs))" by simp
  then have "mset ys = mset (map f (remove1 x xs))"
  proof -
    have "add_mset y (mset ys) = image_mset f (mset xs)" using Cons.prems by simp
    also have "\<dots> = add_mset y (image_mset f (mset (remove1 x xs)))" unfolding m x(2) by (rule image_mset_add_mset)
    finally show ?thesis by (simp only: add_mset_add_mset_same_iff mset_map)
  qed
  then obtain zs where zs: "mset zs = mset (remove1 x xs)" "ys = map f zs" using Cons.IH by blast
  have "mset (x # zs) = mset xs" by (simp only: mset.simps zs(1) m [symmetric])
  then show ?case using zs(2) x(2) by (intro exI [of _ "x # zs"]) simp
qed simp

text \<open>An order in which Go may visit a map.\<close>

definition visits_all :: "(bytes list \<Rightarrow> bytes list) \<Rightarrow> bool" where
  "visits_all order \<longleftrightarrow> (\<forall>es. mset (order es) = mset es)"

lemma visits_all_id [simp]: "visits_all id" "visits_all rev"
  by (simp_all add: visits_all_def)

definition doc_keys_ok :: "gdoc \<Rightarrow> bool" where
  "doc_keys_ok doc \<longleftrightarrow> distinct (map fst doc) \<and> list_all (\<lambda>kv. NUL \<notin> set (fst kv)) doc"

lemma bson_wrap_split: "bson_wrap es = le_bytes 4 (5 + length (concat es)) @ concat es @ [NUL]"
  by (simp add: bson_wrap_def Let_def)

lemma parseBSONDoc_wrap:
  assumes "\<forall>kv \<in> set kvs. NUL \<notin> set (fst kv)" "length (bson_wrap (map (bson_entry order) kvs)) \<le> maxBSONDoc"
  shows "parseBSONDoc (bson_wrap (map (bson_entry order) kvs) @ rest)
    = Some (Some (concat (map entry_read kvs), length (bson_wrap (map (bson_entry order) kvs))))"
proof -
  let ?es = "map (bson_entry order) kvs" and ?n = "5 + length (concat (map (bson_entry order) kvs))"
  let ?data = "bson_wrap ?es @ rest"
  have n: "?n \<le> maxBSONDoc" "?n < 2 ^ 32" using assms(2) by (simp_all add: bson_wrap_length maxBSONDoc_def)
  have d: "?data = le_bytes 4 ?n @ concat ?es @ ([NUL] @ rest)" by (simp add: bson_wrap_split)
  have "le_uint32 ?data = Some ?n" unfolding d using n(2) by (rule le_uint32_le_bytes)
  moreover have "bson_loop ?data ?n 4 [] = Some ([] @ concat (map entry_read kvs))"
    using bson_loop_elems [OF d assms(1), of ?n "[]"] n(2) by (simp add: bson_wrap_length)
  ultimately show ?thesis using n(1) by (simp add: parseBSONDoc_def bson_wrap_length)
qed

lemma map_of_entry_read:
  "distinct (map fst kvs) \<Longrightarrow> map_of (concat (map entry_read kvs)) k = Option.bind (map_of kvs k) gval_read"
proof (induction kvs)
  case (Cons kv kvs)
  then have "map_of kvs (fst kv) = None" "distinct (map fst kvs)" by (auto simp: map_of_eq_None_iff)
  then show ?case using Cons.IH by (cases "gval_read (snd kv)") (auto simp: entry_read_def)
qed simp

lemma distinct_entry_read: "distinct (map fst kvs) \<Longrightarrow> distinct (map fst (concat (map entry_read kvs)))"
proof (induction kvs)
  case (Cons kv kvs)
  have "fst ` set (concat (map entry_read kvs)) \<subseteq> fst ` set kvs"
    by (force simp: entry_read_def split: option.splits)
  then show ?case using Cons by (auto simp: entry_read_def split: option.splits)
qed simp

lemma map_of_mset: "mset xs = mset ys \<Longrightarrow> distinct (map fst xs) \<Longrightarrow> map_of xs = map_of ys"
  by (metis distinct_map mset_eq_imp_distinct_iff mset_map map_of_inject_set mset_eq_setD)

lemma encodeBSON_entries:
  assumes "visits_all order"
  shows "\<exists>kvs. mset kvs = mset doc \<and> encodeBSON order doc = bson_wrap (map (bson_entry order) kvs)"
proof -
  have "mset (order (map (bson_entry order) doc)) = mset (map (bson_entry order) doc)"
    using assms unfolding visits_all_def by blast
  from mset_map_preimage [OF this] show ?thesis by (auto simp: encodeBSON_def)
qed

lemma doc_keys_ok_mset: "mset doc = mset kvs \<Longrightarrow> doc_keys_ok doc \<Longrightarrow> doc_keys_ok kvs"
  using mset_eq_imp_distinct_iff [of "map fst doc" "map fst kvs"] mset_eq_setD [of doc kvs]
  by (simp add: doc_keys_ok_def list_all_iff)

lemma parsed_lookup:
  "distinct (map fst kvs) \<Longrightarrow> doc_lookup (concat (map entry_read kvs)) k = Option.bind (map_of kvs k) gval_read"
  using map_of_entry_read [of kvs k] distinct_entry_read [of kvs]
    map_of_mset [of "rev (concat (map entry_read kvs))" "concat (map entry_read kvs)"]
  by (simp add: doc_lookup_def rev_map [symmetric])

text \<open>C19. What the encoder writes the parser reads back, in whatever order Go visits the map and whatever
  follows: strings, booleans and 64-bit integers come back as they were, an \<^verbatim>\<open>int\<close> as its low 32 bits,
  nested documents and arrays are skipped over without losing the place.\<close>

theorem BSON_roundtrip:
  assumes "visits_all order" "doc_keys_ok doc" "length (encodeBSON order doc) \<le> maxBSONDoc"
  shows "\<exists>doc'. parseBSONDoc (encodeBSON order doc @ rest) = Some (Some (doc', length (encodeBSON order doc)))
    \<and> (\<forall>k. doc_lookup doc' k = Option.bind (map_of doc k) gval_read)"
proof -
  obtain kvs where kvs: "mset kvs = mset doc" "encodeBSON order doc = bson_wrap (map (bson_entry order) kvs)"
    using encodeBSON_entries [OF assms(1)] by blast
  note ok = doc_keys_ok_mset [OF kvs(1) [symmetric] assms(2)]
  then have "\<forall>kv \<in> set kvs. NUL \<notin> set (fst kv)" unfolding doc_keys_ok_def list_all_iff by blast
  from parseBSONDoc_wrap [OF this assms(3) [unfolded kvs(2)], of rest]
  show ?thesis unfolding kvs(2) using ok map_of_mset [OF kvs(1)] by (simp add: parsed_lookup doc_keys_ok_def)
qed

theorem BSON_roundtrip_witness:
  "\<exists>doc'. parseBSONDoc (encodeBSON rev [(''ok'', GInt 1), (''tags'', GStrings [''a'']), (''who'', GString ''me'')] @ ''x'')
      = Some (Some (doc', 45))
    \<and> doc_lookup doc' ''who'' = Some (GString ''me'') \<and> doc_lookup doc' ''tags'' = None"
proof -
  let ?d = "[(''ok'', GInt 1), (''tags'', GStrings [''a'']), (''who'', GString ''me'')]"
  have l: "length (encodeBSON rev ?d) = 45"
    by (simp add: encodeBSON_def bson_wrap_length bson_elem_def bson_string_def bson_array_def dec_nat.simps)
  have "doc_keys_ok ?d" "length (encodeBSON rev ?d) \<le> maxBSONDoc"
    by (simp_all add: doc_keys_ok_def l maxBSONDoc_def)
  from BSON_roundtrip [OF visits_all_id(2) this, of "''x''"] show ?thesis unfolding l by fastforce
qed

end
