(* ===== verification/Progress.thy ===== *)
theory Progress
  imports Main
begin

text \<open>
  What the listener and the whole program have to show about coming to an end, as two contracts on a step
  relation with an invariant, a measure of the work that is left and a final state. \<open>can_finish\<close>: from
  every state some step brings the end closer, so the end can be reached. \<open>must_finish\<close>: every step brings it
  closer, so it is reached whatever happens.
\<close>

locale can_finish =
  fixes step :: "'s \<Rightarrow> 's \<Rightarrow> bool"
    and inv :: "'s \<Rightarrow> bool"
    and left :: "'s \<Rightarrow> nat"
    and final :: "'s \<Rightarrow> bool"
  assumes inv_step: "step s s' \<Longrightarrow> inv s \<Longrightarrow> inv s'"
    and progress: "inv s \<Longrightarrow> \<not> final s \<Longrightarrow> \<exists>s'. step s s' \<and> left s' < left s"
begin

lemma run_to_end: "inv s \<Longrightarrow> \<exists>n s'. n \<le> left s \<and> (step ^^ n) s s' \<and> final s' \<and> inv s'"
proof (induction "left s" arbitrary: s rule: less_induct)
  case less
  show ?case
  proof (cases "final s")
    case True
    then show ?thesis using less.prems by (intro exI [of _ 0]) auto
  next
    case False
    obtain u where u: "step s u" "left u < left s" using progress [OF less.prems False] by blast
    obtain n s' where n: "n \<le> left u" "(step ^^ n) u s'" "final s'" "inv s'"
      using less.hyps [OF u(2) inv_step [OF u(1) less.prems]] by blast
    have "(step ^^ Suc n) s s'" using u(1) n(2) by (rule relpowp_Suc_I2)
    then show ?thesis using n u(2) by (intro exI [of _ "Suc n"] exI [of _ s']) auto
  qed
qed

end

text \<open>A run of steps that all keep to a preorder.\<close>

lemma relpowp_keeps:
  assumes "((\<lambda>a b. step a b \<and> R a b) ^^ n) s s'" "\<And>a. R a a" "\<And>a b c. R a b \<Longrightarrow> R b c \<Longrightarrow> R a c"
  shows "(step ^^ n) s s' \<and> R s s'"
  using assms(1)
proof (induction n arbitrary: s')
  case 0
  then show ?case using assms(2) by simp
next
  case (Suc n)
  obtain u where u: "((\<lambda>a b. step a b \<and> R a b) ^^ n) s u" "step u s' \<and> R u s'" using Suc.prems by (rule relpowp_Suc_E)
  have "(step ^^ n) s u \<and> R s u" by (rule Suc.IH [OF u(1)])
  then show ?case using u(2) assms(3) relpowp_Suc_I [of n step s u s'] by blast
qed

locale must_finish =
  fixes step :: "'s \<Rightarrow> 's \<Rightarrow> bool"
    and inv :: "'s \<Rightarrow> bool"
    and left :: "'s \<Rightarrow> nat"
    and final :: "'s \<Rightarrow> bool"
  assumes keeps: "step s s' \<Longrightarrow> inv s \<Longrightarrow> inv s'"
    and decreases: "step s s' \<Longrightarrow> inv s \<Longrightarrow> left s' < left s"
    and not_stuck: "inv s \<Longrightarrow> \<not> final s \<Longrightarrow> \<exists>s'. step s s'"
begin

lemma run_bounded:
  assumes "(step ^^ n) s s'" "inv s"
  shows "n + left s' \<le> left s \<and> inv s'"
  using assms
proof (induction n arbitrary: s)
  case (Suc n)
  obtain u where u: "step s u" "(step ^^ n) u s'" using Suc.prems(1) by (rule relpowp_Suc_E2)
  show ?case using Suc.IH [OF u(2) keeps [OF u(1) Suc.prems(2)]] decreases [OF u(1) Suc.prems(2)] by simp
qed simp

lemma ends:
  assumes "(step ^^ n) s s'" "inv s"
  shows "n \<le> left s" "(\<exists>s''. step s' s'') \<or> final s'"
  using run_bounded [OF assms] not_stuck by auto

end

sublocale must_finish \<subseteq> can_finish step inv left final
  by unfold_locales (use keeps decreases not_stuck in blast)+

end
