(* ===== verification/Server.thy ===== *)
theory Server
  imports Net Progress
begin

text \<open>
  \<^verbatim>\<open>internal/server\<close>: the bounded TCP listener.

  \<open>Server\<close> is the struct; \<open>sem_used\<close> is the number of values in the semaphore channel, whose
  capacity is \<open>maxConns\<close>, and \<open>wg\<close> the counter of the wait group. \<open>sys\<close> adds what runs
  concurrently with it: the accept loop's position, one entry per goroutine it has spawned, the
  state of the context and of the listening socket, the number of accepted sockets not yet
  closed, and the position of a caller of \<^verbatim>\<open>Stop\<close>. Each rule of \<open>server_step\<close> is one atomic action of the accept loop or of one connection
  goroutine, so that every interleaving is a path of the relation. A connection goroutine is first in its
  handler, which may come back or may wait for something that never comes (\<open>Blocked\<close>, for which no rule leads
  on). If it comes back, the deferred calls run in reverse order: close the socket, free the semaphore slot,
  give back the per-IP count, tell the wait group.
\<close>

section \<open>The server and its operations\<close>

record Server =
  maxConns :: int
  connTimeout :: int
  sem_used :: nat
  totalConns :: "64 word"
  totalCmds :: "64 word"
  ipCounts :: "bytes \<rightharpoonup> int"
  done_closed :: bool
  wg :: nat

definition Server_New :: "int \<Rightarrow> int \<Rightarrow> Server" where
  "Server_New maxc timeout =
    \<lparr>maxConns = (if maxc \<le> 0 then 500 else maxc), connTimeout = timeout, sem_used = 0, totalConns = 0,
     totalCmds = 0, ipCounts = Map.empty, done_closed = False, wg = 0\<rparr>"

text \<open>Reading a missing key of a Go map gives zero.\<close>

definition ip_count :: "Server \<Rightarrow> bytes \<Rightarrow> int" where
  "ip_count s ip = (case ipCounts s ip of None \<Rightarrow> 0 | Some n \<Rightarrow> n)"

definition acquireIP :: "bytes \<Rightarrow> Server \<Rightarrow> bool \<times> Server" where
  "acquireIP ip s =
    (if ip_count s ip \<ge> 20 then (False, s)
     else (True, s\<lparr>ipCounts := (ipCounts s)(ip \<mapsto> ip_count s ip + 1)\<rparr>))"

definition releaseIP :: "bytes \<Rightarrow> Server \<Rightarrow> Server" where
  "releaseIP ip s =
    (let s1 = s\<lparr>ipCounts := (ipCounts s)(ip \<mapsto> ip_count s ip - 1)\<rparr> in
     if ip_count s1 ip \<le> 0 then s1\<lparr>ipCounts := (ipCounts s1)(ip := None)\<rparr> else s1)"

text \<open>The channel operations: a send that would block is refused, a receive from an empty channel
  blocks.\<close>

definition sem_try_send :: "Server \<Rightarrow> Server option" where
  "sem_try_send s = (if int (sem_used s) < maxConns s then Some (s\<lparr>sem_used := sem_used s + 1\<rparr>) else None)"

definition sem_receive :: "Server \<Rightarrow> Server option" where
  "sem_receive s = (if 0 < sem_used s then Some (s\<lparr>sem_used := sem_used s - 1\<rparr>) else None)"

definition Stop :: "Server \<Rightarrow> Server" where
  "Stop s = s\<lparr>done_closed := True\<rparr>"

definition TotalConnections :: "Server \<Rightarrow> 64 word" where
  "TotalConnections s = totalConns s"

definition IncrCommands :: "Server \<Rightarrow> 64 word \<times> Server" where
  "IncrCommands s = (totalCmds s + 1, s\<lparr>totalCmds := totalCmds s + 1\<rparr>)"

definition TotalCommands :: "Server \<Rightarrow> 64 word" where
  "TotalCommands s = totalCmds s"

text \<open>What a connection goroutine does before it runs its deferred calls; \<^const>\<open>None\<close> is a panic in
  the handler, which takes the process down.\<close>

definition with_deadline :: "int \<Rightarrow> ('a) world_scheme \<Rightarrow> ('a) world_scheme" where
  "with_deadline timeout w = (if timeout > 0 then w\<lparr>wconn := SetDeadline (now w + nat timeout) (wconn w)\<rparr> else w)"

definition serve_conn :: "int \<Rightarrow> (('a) world_scheme \<Rightarrow> ('a) world_scheme option) \<Rightarrow> ('a) world_scheme \<Rightarrow> ('a) world_scheme option" where
  "serve_conn timeout handler w = handler (with_deadline timeout w)"

lemma with_deadline_simps [simp]:
  "wstore (with_deadline timeout w) = wstore w" "out (wconn (with_deadline timeout w)) = out (wconn w)"
  "entropy (with_deadline timeout w) = entropy w" "cancelled_at (with_deadline timeout w) = cancelled_at w"
  "now (with_deadline timeout w) = now w"
  by (simp_all add: with_deadline_def SetDeadline_def now_def)

text \<open>The sample peer behind the listener, with the deadline that this sets.\<close>

lemma accepted_quiet [simp]:
  "peer (with_deadline timeout w) = peer w" "ctx_Done (with_deadline timeout w) = ctx_Done w"
  "0 < timeout \<Longrightarrow> readable (wconn (with_deadline timeout (quiet_world ent b))) = b"
  "0 < n \<Longrightarrow> readable (wconn (set_read_deadline n (with_deadline timeout (quiet_world ent b)))) = b"
  "0 < timeout \<Longrightarrow> wr_open (consume k (wconn (with_deadline timeout (quiet_world ent b))))"
proof -
  show "peer (with_deadline timeout w) = peer w" "ctx_Done (with_deadline timeout w) = ctx_Done w"
    by (simp_all add: with_deadline_def peer_def ctx_Done_def SetDeadline_def now_def split: option.split)
  have "fold max (map fst (take k (map (\<lambda>c. (0, c)) b))) 0 = (0 :: nat)"
    by (intro antisym fold_max_le) (auto dest: in_set_takeD)
  then show "0 < timeout \<Longrightarrow> wr_open (consume k (wconn (with_deadline timeout (quiet_world ent b))))"
    by (simp add: wr_open_def with_deadline_def SetDeadline_def consume_def quiet_world_def quiet_conn_def now_def)
  have all: "takeWhile P (map (\<lambda>c. (0, c)) b) = map (\<lambda>c. (0, c)) b" if "\<And>c. P (0, c)" for P :: "nat \<times> char \<Rightarrow> bool"
    using that by (simp only: takeWhile_eq_all_conv) auto
  show "0 < timeout \<Longrightarrow> readable (wconn (with_deadline timeout (quiet_world ent b))) = b"
    by (simp add: readable_def with_deadline_def SetDeadline_def quiet_world_def quiet_conn_def now_def in_time_def all comp_def)
  show "0 < n \<Longrightarrow> readable (wconn (set_read_deadline n (with_deadline timeout (quiet_world ent b)))) = b"
    by (simp add: readable_def with_deadline_def set_read_deadline_def SetReadDeadline_def SetDeadline_def quiet_world_def quiet_conn_def
        now_def in_time_def second_def all comp_def)
qed

text \<open>For a client that takes what it is sent the connection timeout does not matter here; for one that stalls
  it has to end within sixty seconds of \<open>T\<close>.\<close>

lemma settled_with_deadline:
  assumes "settled T w"
    and "wr_stalls (wconn w) \<Longrightarrow> 0 < timeout \<and> now w + nat timeout \<le> T + 60 * second"
  shows "settled T (with_deadline timeout w)"
  using assms
  by (auto simp: settled_def settled_conn_def with_deadline_def SetDeadline_def cancelled_by_def stall_ends_def silent_from_def
      split: option.splits)

text \<open>
  In terms of the connection timeout alone: the client's last byte has arrived by \<open>T\<close>, or the context is cancelled
  by then (\<open>quiet_by\<close>). The session is then over sixty seconds later; only a client that does not take what it is
  sent can hold it until the connection timeout, counted from the start, is over (\<open>over_by\<close>).
\<close>

definition quiet_by :: "nat \<Rightarrow> ('a) world_scheme \<Rightarrow> bool" where
  "quiet_by T w \<longleftrightarrow> \<not> hung (wconn w) \<and> now w \<le> T \<and> (silent_from T (wconn w) \<or> cancelled_by T w)"

definition over_by :: "int \<Rightarrow> nat \<Rightarrow> ('a) world_scheme \<Rightarrow> nat" where
  "over_by timeout T w =
    (if wr_stalls (wconn w) then max (T + 60 * second) (now w + nat timeout) else T + 60 * second)"

lemma quiet_by_mono: "quiet_by T w \<Longrightarrow> T \<le> T' \<Longrightarrow> quiet_by T' w"
  by (fastforce simp: quiet_by_def silent_from_def cancelled_by_def split: option.splits)

lemma quiet_by_exists: "\<not> hung (wconn w) \<Longrightarrow> \<exists>T. quiet_by T w"
proof -
  assume "\<not> hung (wconn w)"
  moreover have "clock (wconn w) \<le> Max (insert (clock (wconn w)) (fst ` set (incoming (wconn w))))"
    and "\<forall>tb \<in> set (incoming (wconn w)). fst tb \<le> Max (insert (clock (wconn w)) (fst ` set (incoming (wconn w))))"
    by (auto intro: Max_ge)
  ultimately show ?thesis unfolding quiet_by_def silent_from_def now_def by blast
qed

lemma settled_quiet_by:
  assumes "quiet_by T w" "0 < timeout"
  shows "\<exists>T'. settled T' (with_deadline timeout w) \<and> T' + 60 * second = over_by timeout T w"
proof -
  define T' where "T' = (if wr_stalls (wconn w) then max T (now w + nat timeout - 60 * second) else T)"
  have "quiet_by T' w" using assms(1) by (rule quiet_by_mono) (simp add: T'_def)
  moreover have "wr_stalls (wconn w) \<longrightarrow> now w + nat timeout \<le> T' + 60 * second" by (auto simp: T'_def)
  ultimately have "settled T' (with_deadline timeout w)" using assms(2)
    by (auto simp: quiet_by_def settled_def settled_conn_def with_deadline_def SetDeadline_def cancelled_by_def
        stall_ends_def silent_from_def now_def)
  moreover have "T' + 60 * second = over_by timeout T w" by (auto simp: over_by_def T'_def max_def)
  ultimately show ?thesis by blast
qed

text \<open>
  What a protocol handler promises the listener, given what it needs from the random source
  (\<open>supplied\<close>): it comes back without a panic, never rewrites what was logged or sent, and does
  not outlive a silent client, or the cancellation of its context, by more than sixty seconds.
\<close>

locale protocol_handler =
  fixes handler :: "('a) world_scheme \<Rightarrow> ('a) world_scheme option"
    and supplied :: "('a) world_scheme \<Rightarrow> bool"
  assumes finishes: "supplied w \<Longrightarrow> \<exists>w'. handler w = Some w' \<and> evolves w w' \<and> (settled T w \<longrightarrow> expired T w')"
    and supplied_conn: "supplied (w\<lparr>wconn := c\<rparr>) = supplied w"
begin

lemma served:
  assumes "supplied w" "settled T (with_deadline timeout w)"
  shows "\<exists>w'. serve_conn timeout handler w = Some w' \<and> log_extends (wstore w) (wstore w')
    \<and> prefix (out (wconn w)) (out (wconn w')) \<and> now w' \<le> T + 60 * second \<and> \<not> hung (wconn w')"
proof -
  have "supplied (with_deadline timeout w)" using assms(1) by (simp add: with_deadline_def supplied_conn)
  then obtain w' where "handler (with_deadline timeout w) = Some w'" "evolves (with_deadline timeout w) w'"
      "expired T w'"
    using finishes assms(2) by blast
  then show ?thesis by (simp add: serve_conn_def evolves_def expired_def)
qed

lemma served_quiet:
  assumes "supplied w" "quiet_by T w" "0 < timeout"
  shows "\<exists>w'. serve_conn timeout handler w = Some w' \<and> log_extends (wstore w) (wstore w')
    \<and> prefix (out (wconn w)) (out (wconn w')) \<and> now w' \<le> over_by timeout T w \<and> \<not> hung (wconn w')"
  using settled_quiet_by [OF assms(2,3)] served [OF assms(1), of _ timeout] by metis

end

section \<open>Concurrent behaviour\<close>

datatype phase = Running | Blocked | ConnClosed | SemFreed | IPReleased | Finished

datatype acceptor =
    Accepting
  | GotConn bytes
  | HaveSlot bytes
  | RefusedIP
  | Admitted bytes
  | Draining
  | Returned

datatype stop_call = NotCalled | StopWaiting | StopReturned

record sys =
  srv :: Server
  acc :: acceptor
  gs :: "(bytes \<times> phase) list"
  ctx_done :: bool
  ln_open :: bool
  open_socks :: nat
  stop_at :: stop_call

text \<open>\<^verbatim>\<open>Serve\<close> up to its loop: the address cannot be listened on, or the loop starts.\<close>

definition serving :: "Server \<Rightarrow> sys" where
  "serving sv = \<lparr>srv = sv, acc = Accepting, gs = [], ctx_done = False, ln_open = True, open_socks = 0, stop_at = NotCalled\<rparr>"

definition Serve_start :: "bytes \<Rightarrow> Server \<Rightarrow> bytes option \<Rightarrow> goerr + sys" where
  "Serve_start addr sv listen_error =
    (case listen_error of
       Some e \<Rightarrow> Inl (ErrorS (''listen '' @ addr @ '': '' @ e))
     | None \<Rightarrow> Inr (serving sv))"

definition sys_init :: "int \<Rightarrow> int \<Rightarrow> sys" where
  "sys_init maxc timeout = serving (Server_New maxc timeout)"

inductive server_step :: "sys \<Rightarrow> sys \<Rightarrow> bool" where
  cancel: "server_step s (s\<lparr>ctx_done := True\<rparr>)"
| stop: "server_step s (s\<lparr>srv := Stop (srv s), stop_at := StopWaiting\<rparr>)"
| stop_returns: "stop_at s = StopWaiting \<Longrightarrow> wg (srv s) = 0 \<Longrightarrow> server_step s (s\<lparr>stop_at := StopReturned\<rparr>)"
| close_listener: "ctx_done s \<or> done_closed (srv s) \<Longrightarrow> server_step s (s\<lparr>ln_open := False\<rparr>)"
| accept: "acc s = Accepting \<Longrightarrow> ln_open s \<Longrightarrow>
    server_step s (s\<lparr>acc := GotConn ip, open_socks := open_socks s + 1\<rparr>)"
| accept_error: "acc s = Accepting \<Longrightarrow> \<not> (ctx_done s \<or> done_closed (srv s)) \<Longrightarrow> server_step s s"
| accept_closed: "acc s = Accepting \<Longrightarrow> ctx_done s \<or> done_closed (srv s) \<Longrightarrow> server_step s (s\<lparr>acc := Draining\<rparr>)"
| slot: "acc s = GotConn ip \<Longrightarrow> sem_try_send (srv s) = Some srv' \<Longrightarrow>
    server_step s (s\<lparr>srv := srv', acc := HaveSlot ip\<rparr>)"
| no_slot: "acc s = GotConn ip \<Longrightarrow> sem_try_send (srv s) = None \<Longrightarrow>
    server_step s (s\<lparr>acc := Accepting, open_socks := open_socks s - 1\<rparr>)"
| ip_ok: "acc s = HaveSlot ip \<Longrightarrow> acquireIP ip (srv s) = (True, srv') \<Longrightarrow>
    server_step s (s\<lparr>srv := srv', acc := Admitted ip\<rparr>)"
| ip_refused: "acc s = HaveSlot ip \<Longrightarrow> acquireIP ip (srv s) = (False, srv') \<Longrightarrow>
    server_step s (s\<lparr>srv := srv', acc := RefusedIP, open_socks := open_socks s - 1\<rparr>)"
| give_back: "acc s = RefusedIP \<Longrightarrow> sem_receive (srv s) = Some srv' \<Longrightarrow>
    server_step s (s\<lparr>srv := srv', acc := Accepting\<rparr>)"
| spawn: "acc s = Admitted ip \<Longrightarrow>
    server_step s (s\<lparr>srv := (srv s)\<lparr>totalConns := totalConns (srv s) + 1, wg := wg (srv s) + 1\<rparr>,
      acc := Accepting, gs := gs s @ [(ip, Running)]\<rparr>)"
| handler_blocks: "i < length (gs s) \<Longrightarrow> gs s ! i = (ip, Running) \<Longrightarrow>
    server_step s (s\<lparr>gs := (gs s)[i := (ip, Blocked)]\<rparr>)"
| handler_done: "i < length (gs s) \<Longrightarrow> gs s ! i = (ip, Running) \<Longrightarrow>
    server_step s (s\<lparr>gs := (gs s)[i := (ip, ConnClosed)], open_socks := open_socks s - 1\<rparr>)"
| free_slot: "i < length (gs s) \<Longrightarrow> gs s ! i = (ip, ConnClosed) \<Longrightarrow> sem_receive (srv s) = Some srv' \<Longrightarrow>
    server_step s (s\<lparr>srv := srv', gs := (gs s)[i := (ip, SemFreed)]\<rparr>)"
| release: "i < length (gs s) \<Longrightarrow> gs s ! i = (ip, SemFreed) \<Longrightarrow>
    server_step s (s\<lparr>srv := releaseIP ip (srv s), gs := (gs s)[i := (ip, IPReleased)]\<rparr>)"
| wg_done: "i < length (gs s) \<Longrightarrow> gs s ! i = (ip, IPReleased) \<Longrightarrow>
    server_step s (s\<lparr>srv := (srv s)\<lparr>wg := wg (srv s) - 1\<rparr>, gs := (gs s)[i := (ip, Finished)]\<rparr>)"
| drained: "acc s = Draining \<Longrightarrow> wg (srv s) = 0 \<Longrightarrow> server_step s (s\<lparr>acc := Returned\<rparr>)"

inductive server_reachable :: "int \<Rightarrow> int \<Rightarrow> sys \<Rightarrow> bool" for maxc timeout where
  init: "server_reachable maxc timeout (sys_init maxc timeout)"
| step: "server_reachable maxc timeout s \<Longrightarrow> server_step s s' \<Longrightarrow> server_reachable maxc timeout s'"

inductive_cases server_stepE: "server_step s s'"

section \<open>Who holds what\<close>

fun in_handler :: "phase \<Rightarrow> bool" where
  "in_handler Running = True" | "in_handler Blocked = True" | "in_handler _ = False"

fun holds_slot :: "phase \<Rightarrow> bool" where
  "holds_slot Running = True" | "holds_slot Blocked = True" | "holds_slot ConnClosed = True" | "holds_slot _ = False"

fun holds_ip :: "phase \<Rightarrow> bool" where
  "holds_ip Running = True" | "holds_ip Blocked = True" | "holds_ip ConnClosed = True" | "holds_ip SemFreed = True" | "holds_ip _ = False"

definition cnt :: "('a \<Rightarrow> bool) \<Rightarrow> 'a list \<Rightarrow> nat" where
  "cnt P xs = length (filter P xs)"

abbreviation slots :: "sys \<Rightarrow> nat" where
  "slots s \<equiv> cnt (\<lambda>g. holds_slot (snd g)) (gs s)"

abbreviation held :: "bytes \<Rightarrow> sys \<Rightarrow> nat" where
  "held ip s \<equiv> cnt (\<lambda>g. fst g = ip \<and> holds_ip (snd g)) (gs s)"

abbreviation handlers :: "sys \<Rightarrow> nat" where
  "handlers s \<equiv> cnt (\<lambda>g. in_handler (snd g)) (gs s)"

abbreviation blocked :: "sys \<Rightarrow> nat" where
  "blocked s \<equiv> cnt (\<lambda>g. snd g = Blocked) (gs s)"

abbreviation unfinished :: "sys \<Rightarrow> nat" where
  "unfinished s \<equiv> cnt (\<lambda>g. snd g \<noteq> Finished) (gs s)"

fun acc_slot :: "acceptor \<Rightarrow> nat" where
  "acc_slot (HaveSlot ip) = 1" | "acc_slot RefusedIP = 1" | "acc_slot (Admitted ip) = 1" | "acc_slot _ = 0"

fun acc_ip :: "acceptor \<Rightarrow> bytes \<Rightarrow> nat" where
  "acc_ip (Admitted a) ip = (if a = ip then 1 else 0)" | "acc_ip _ ip = 0"

fun acc_sock :: "acceptor \<Rightarrow> nat" where
  "acc_sock (GotConn ip) = 1" | "acc_sock (HaveSlot ip) = 1" | "acc_sock (Admitted ip) = 1" | "acc_sock _ = 0"

definition server_inv :: "sys \<Rightarrow> bool" where
  "server_inv s \<longleftrightarrow>
     0 < maxConns (srv s) \<and> int (sem_used (srv s)) \<le> maxConns (srv s)
     \<and> sem_used (srv s) = acc_slot (acc s) + slots s
     \<and> (\<forall>ip. ip_count (srv s) ip = int (acc_ip (acc s) ip + held ip s))
     \<and> (\<forall>ip n. ipCounts (srv s) ip = Some n \<longrightarrow> 1 \<le> n \<and> n \<le> 20)
     \<and> wg (srv s) = unfinished s \<and> open_socks s = acc_sock (acc s) + handlers s
     \<and> totalConns (srv s) = word_of_nat (length (gs s)) \<and> (acc s = Returned \<longrightarrow> wg (srv s) = 0)"

lemma cnt_simps [simp]: "cnt P [] = 0" "cnt P (x # xs) = (if P x then 1 else 0) + cnt P xs"
  "cnt P (xs @ ys) = cnt P xs + cnt P ys"
  by (simp_all add: cnt_def)

lemma cnt_update:
  "i < length xs \<Longrightarrow> cnt P (xs[i := y]) + (if P (xs ! i) then 1 else 0) = cnt P xs + (if P y then 1 else 0)"
proof (induction xs arbitrary: i)
  case (Cons x xs)
  then show ?case by (cases i) (auto split: if_splits)
qed simp

section \<open>The invariant\<close>

lemma ip_count_acquire:
  assumes "acquireIP ip s = (ok, s')"
  shows "ok \<longleftrightarrow> ip_count s ip < 20" "\<not> ok \<Longrightarrow> s' = s" "maxConns s' = maxConns s" "sem_used s' = sem_used s" "wg s' = wg s"
    "totalConns s' = totalConns s"
    "ok \<Longrightarrow> ip_count s' a = ip_count s a + (if a = ip then 1 else 0)"
    "ok \<Longrightarrow> ipCounts s' a = (if a = ip then Some (ip_count s ip + 1) else ipCounts s a)"
  using assms by (auto simp: acquireIP_def ip_count_def split: if_splits)

lemma ip_count_release:
  assumes "1 \<le> ip_count s ip"
  shows "ip_count (releaseIP ip s) a = ip_count s a - (if a = ip then 1 else 0)"
    "ipCounts (releaseIP ip s) a = Some n \<Longrightarrow> if a = ip then n = ip_count s ip - 1 \<and> 1 \<le> n else ipCounts s a = Some n"
    "maxConns (releaseIP ip s) = maxConns s" "sem_used (releaseIP ip s) = sem_used s" "wg (releaseIP ip s) = wg s"
    "totalConns (releaseIP ip s) = totalConns s"
  using assms by (auto simp: releaseIP_def ip_count_def Let_def split: if_splits)

lemma sem_ops:
  "sem_try_send s = Some s' \<longleftrightarrow> int (sem_used s) < maxConns s \<and> s' = s\<lparr>sem_used := sem_used s + 1\<rparr>"
  "sem_receive s = Some s' \<longleftrightarrow> 0 < sem_used s \<and> s' = s\<lparr>sem_used := sem_used s - 1\<rparr>"
  by (auto simp: sem_try_send_def sem_receive_def)

lemma ip_count_frame [simp]:
  "ip_count (s\<lparr>sem_used := n\<rparr>) ip = ip_count s ip" "ip_count (s\<lparr>wg := k\<rparr>) ip = ip_count s ip"
  "ip_count (s\<lparr>totalConns := t\<rparr>) ip = ip_count s ip" "ip_count (Stop s) ip = ip_count s ip"
  by (simp_all add: ip_count_def Stop_def)

lemma server_inv_init: "server_inv (sys_init maxc timeout)"
  by (simp add: server_inv_def sys_init_def serving_def Server_New_def ip_count_def)

lemma server_inv_move:
  assumes "server_inv s" "i < length (gs s)" "gs s ! i = (ip, p)"
    and "s' = s\<lparr>srv := v, gs := (gs s)[i := (ip, q)], open_socks := k\<rparr>"
    and "maxConns v = maxConns (srv s)" "totalConns v = totalConns (srv s)"
    and "int (sem_used v) \<le> maxConns v"
    and "sem_used v + (if holds_slot p then 1 else 0) = sem_used (srv s) + (if holds_slot q then 1 else 0)"
    and "\<And>a. ip_count v a + (if a = ip \<and> holds_ip p then 1 else 0) = ip_count (srv s) a + (if a = ip \<and> holds_ip q then 1 else 0)"
    and "\<And>a n. ipCounts v a = Some n \<Longrightarrow> 1 \<le> n \<and> n \<le> 20"
    and "wg v + (if p \<noteq> Finished then 1 else 0) = wg (srv s) + (if q \<noteq> Finished then 1 else 0)"
    and "k + (if in_handler p then 1 else 0) = open_socks s + (if in_handler q then 1 else 0)"
    and "acc s = Returned \<Longrightarrow> wg v = 0"
  shows "server_inv s'"
proof -
  note u = cnt_update [OF assms(2), where y = "(ip, q)", unfolded assms(3)]
  have slot: "slots s' + (if holds_slot p then 1 else 0) = slots s + (if holds_slot q then 1 else 0)"
    using u [of "\<lambda>g. holds_slot (snd g)"] assms(4) by simp
  have fin: "unfinished s' + (if p \<noteq> Finished then 1 else 0) = unfinished s + (if q \<noteq> Finished then 1 else 0)"
    using u [of "\<lambda>g. snd g \<noteq> Finished"] assms(4) by simp
  have run: "handlers s' + (if in_handler p then 1 else 0) = handlers s + (if in_handler q then 1 else 0)"
    using u [of "\<lambda>g. in_handler (snd g)"] assms(4) by simp
  have ips: "held a s' + (if a = ip \<and> holds_ip p then 1 else 0) = held a s + (if a = ip \<and> holds_ip q then 1 else 0)" for a
    using u [of "\<lambda>g. fst g = a \<and> holds_ip (snd g)"] assms(4) by (cases "a = ip") simp_all
  have I: "sem_used (srv s) = acc_slot (acc s) + slots s" "wg (srv s) = unfinished s"
      "open_socks s = acc_sock (acc s) + handlers s" "0 < maxConns (srv s)"
      "totalConns (srv s) = word_of_nat (length (gs s))"
    using assms(1) by (simp_all add: server_inv_def)
  have ipc: "ip_count v a = int (acc_ip (acc s) a + held a s')" for a
  proof -
    have "ip_count (srv s) a = int (acc_ip (acc s) a + held a s)" using assms(1) by (simp add: server_inv_def)
    then show ?thesis using ips [of a] assms(9) [of a] by (auto split: if_splits)
  qed
  have f: "sem_used v = acc_slot (acc s) + slots s'" "wg v = unfinished s'" "k = acc_sock (acc s) + handlers s'"
    using I(1-3) slot fin run assms(8,11,12) by (simp_all split: if_splits)
  have proj: "srv s' = v" "acc s' = acc s" "length (gs s') = length (gs s)" "open_socks s' = k"
    using assms(4) by simp_all
  have "0 < maxConns v" "totalConns v = word_of_nat (length (gs s))" using I(4,5) assms(5,6) by simp_all
  with f ipc assms(7,10,13) show ?thesis unfolding server_inv_def proj by blast
qed

lemma held_bounds:
  assumes "server_inv s"
  shows "held ip s \<le> 20" "ip_count (srv s) ip \<le> 20"
proof -
  have "ip_count (srv s) ip = int (acc_ip (acc s) ip + held ip s)" using assms by (simp add: server_inv_def)
  moreover have "ip_count (srv s) ip \<le> 20"
    using assms by (cases "ipCounts (srv s) ip") (auto simp: server_inv_def ip_count_def)
  ultimately show "held ip s \<le> 20" "ip_count (srv s) ip \<le> 20" by linarith+
qed

lemma cnt_pos: "i < length xs \<Longrightarrow> P (xs ! i) \<Longrightarrow> 0 < cnt P xs"
  by (auto simp: cnt_def filter_empty_conv)

lemma goroutine_holds:
  assumes "server_inv s" "i < length (gs s)" "gs s ! i = (ip, p)"
  shows "holds_slot p \<Longrightarrow> 0 < sem_used (srv s)" "holds_ip p \<Longrightarrow> 1 \<le> ip_count (srv s) ip"
    "p \<noteq> Finished \<Longrightarrow> 0 < wg (srv s)" "in_handler p \<Longrightarrow> 0 < open_socks s"
proof -
  have I: "sem_used (srv s) = acc_slot (acc s) + slots s" "wg (srv s) = unfinished s"
      "open_socks s = acc_sock (acc s) + handlers s" "ip_count (srv s) ip = int (acc_ip (acc s) ip + held ip s)"
    using assms(1) by (simp_all add: server_inv_def)
  note c = cnt_pos [OF assms(2), unfolded assms(3)]
  show "holds_slot p \<Longrightarrow> 0 < sem_used (srv s)" using c [of "\<lambda>g. holds_slot (snd g)"] I(1) by simp
  show "p \<noteq> Finished \<Longrightarrow> 0 < wg (srv s)" using c [of "\<lambda>g. snd g \<noteq> Finished"] I(2) by simp
  show "in_handler p \<Longrightarrow> 0 < open_socks s" using c [of "\<lambda>g. in_handler (snd g)"] I(3) by simp
  show "holds_ip p \<Longrightarrow> 1 \<le> ip_count (srv s) ip" using c [of "\<lambda>g. fst g = ip \<and> holds_ip (snd g)"] I(4) by simp
qed

lemma server_inv_goroutine:
  assumes "server_inv s" "i < length (gs s)"
  shows "gs s ! i = (ip, Running) \<Longrightarrow>
      server_inv (s\<lparr>gs := (gs s)[i := (ip, ConnClosed)], open_socks := open_socks s - 1\<rparr>)"
    and "gs s ! i = (ip, ConnClosed) \<Longrightarrow> sem_receive (srv s) = Some v \<Longrightarrow>
      server_inv (s\<lparr>srv := v, gs := (gs s)[i := (ip, SemFreed)]\<rparr>)"
    and "gs s ! i = (ip, SemFreed) \<Longrightarrow>
      server_inv (s\<lparr>srv := releaseIP ip (srv s), gs := (gs s)[i := (ip, IPReleased)]\<rparr>)"
    and "gs s ! i = (ip, IPReleased) \<Longrightarrow>
      server_inv (s\<lparr>srv := (srv s)\<lparr>wg := wg (srv s) - 1\<rparr>, gs := (gs s)[i := (ip, Finished)]\<rparr>)"
    and "gs s ! i = (ip, Running) \<Longrightarrow> server_inv (s\<lparr>gs := (gs s)[i := (ip, Blocked)]\<rparr>)"
proof -
  have I: "int (sem_used (srv s)) \<le> maxConns (srv s)" "acc s = Returned \<Longrightarrow> wg (srv s) = 0"
      "\<And>a n. ipCounts (srv s) a = Some n \<Longrightarrow> 1 \<le> n \<and> n \<le> 20"
    using assms(1) unfolding server_inv_def by blast+
  note h = goroutine_holds [OF assms]
  show "server_inv (s\<lparr>gs := (gs s)[i := (ip, ConnClosed)], open_socks := open_socks s - 1\<rparr>)" if g: "gs s ! i = (ip, Running)"
    by (rule server_inv_move [OF assms g, where v = "srv s" and q = ConnClosed]) (use I h(4) [OF g] in auto)
  show "server_inv (s\<lparr>srv := v, gs := (gs s)[i := (ip, SemFreed)]\<rparr>)"
    if g: "gs s ! i = (ip, ConnClosed)" and r: "sem_receive (srv s) = Some v"
    by (rule server_inv_move [OF assms g, where v = v and q = SemFreed]) (use I r in \<open>auto simp: sem_ops\<close>)
  show "server_inv (s\<lparr>srv := releaseIP ip (srv s), gs := (gs s)[i := (ip, IPReleased)]\<rparr>)" if g: "gs s ! i = (ip, SemFreed)"
  proof -
    have c: "1 \<le> ip_count (srv s) ip" using h(2) [OF g] by simp
    note r = ip_count_release [OF c]
    have "1 \<le> n \<and> n \<le> 20" if "ipCounts (releaseIP ip (srv s)) a = Some n" for a n
      using r(2) [OF that] I(3) held_bounds(2) [OF assms(1), of ip] by (auto split: if_splits)
    then show ?thesis
      by (intro server_inv_move [OF assms g, where v = "releaseIP ip (srv s)" and q = IPReleased]) (use I r in auto)
  qed
  show "server_inv (s\<lparr>srv := (srv s)\<lparr>wg := wg (srv s) - 1\<rparr>, gs := (gs s)[i := (ip, Finished)]\<rparr>)"
    if g: "gs s ! i = (ip, IPReleased)"
    by (rule server_inv_move [OF assms g, where v = "(srv s)\<lparr>wg := wg (srv s) - 1\<rparr>" and q = Finished])
      (use I h(3) [OF g] in auto)
  show "server_inv (s\<lparr>gs := (gs s)[i := (ip, Blocked)]\<rparr>)" if g: "gs s ! i = (ip, Running)"
    by (rule server_inv_move [OF assms g, where v = "srv s" and q = Blocked and k = "open_socks s"]) (use I in auto)
qed

lemma server_inv_step: "server_step s s' \<Longrightarrow> server_inv s \<Longrightarrow> server_inv s'"
proof (induction rule: server_step.induct)
  case (slot s ip srv')
  then show ?case by (auto simp: server_inv_def sem_ops)
next
  case (ip_ok s ip srv')
  note a = ip_count_acquire [OF ip_ok(2)]
  have "1 \<le> n \<and> n \<le> 20" if "ipCounts srv' b = Some n" for b n
    using that a(1) a(8) [of b] ip_ok by (auto simp: server_inv_def ip_count_def split: if_splits option.splits)
  then show ?case using ip_ok a(3-6) a(7) by (auto simp: server_inv_def)
next
  case (ip_refused s ip srv')
  then show ?case using ip_count_acquire(2) [OF ip_refused(2)] by (auto simp: server_inv_def)
next
  case (give_back s srv')
  then show ?case by (auto simp: server_inv_def sem_ops)
next
  case (spawn s ip)
  then show ?case by (auto simp: server_inv_def)
next
  case (handler_blocks i s ip)
  then show ?case by (intro server_inv_goroutine(5))
next
  case (handler_done i s ip)
  then show ?case by (intro server_inv_goroutine(1))
next
  case (free_slot i s ip srv')
  then show ?case by (intro server_inv_goroutine(2))
next
  case (release i s ip)
  then show ?case by (intro server_inv_goroutine(3))
next
  case (wg_done i s ip)
  then show ?case by (intro server_inv_goroutine(4))
qed (auto simp: server_inv_def Stop_def ip_count_def)

lemma server_reachable_inv: "server_reachable maxc timeout s \<Longrightarrow> server_inv s"
  by (induction rule: server_reachable.induct) (auto intro: server_inv_init server_inv_step)

lemma server_step_maxConns: "server_step s s' \<Longrightarrow> maxConns (srv s') = maxConns (srv s)"
  by (induction rule: server_step.induct)
    (auto simp: Stop_def sem_ops releaseIP_def Let_def dest: ip_count_acquire(3))

lemma server_reachable_maxConns:
  "server_reachable maxc timeout s \<Longrightarrow> maxConns (srv s) = (if maxc \<le> 0 then 500 else maxc)"
  by (induction rule: server_reachable.induct) (auto simp: sys_init_def serving_def Server_New_def server_step_maxConns)

lemma cnt_mono: "(\<And>x. P x \<Longrightarrow> Q x) \<Longrightarrow> cnt P xs \<le> cnt Q xs"
  by (induction xs) auto

lemma ip_entry: "server_inv s \<Longrightarrow> a \<in> dom (ipCounts (srv s)) \<longleftrightarrow> 0 < ip_count (srv s) a"
proof -
  assume "server_inv s"
  then have "\<forall>n. ipCounts (srv s) a = Some n \<longrightarrow> 1 \<le> n" by (simp add: server_inv_def)
  then show ?thesis by (cases "ipCounts (srv s) a") (auto simp: ip_count_def)
qed

lemma handlers_bounded:
  assumes "server_inv s"
  shows "int (handlers s) \<le> maxConns (srv s)" "cnt (\<lambda>g. fst g = ip \<and> in_handler (snd g)) (gs s) \<le> 20"
proof -
  have h: "in_handler p \<Longrightarrow> holds_slot p \<and> holds_ip p" for p by (cases p) simp_all
  then have "handlers s \<le> slots s" by (intro cnt_mono) auto
  moreover have "sem_used (srv s) = acc_slot (acc s) + slots s" "int (sem_used (srv s)) \<le> maxConns (srv s)"
    using assms by (simp_all add: server_inv_def)
  ultimately show "int (handlers s) \<le> maxConns (srv s)" by linarith
  have "cnt (\<lambda>g. fst g = ip \<and> in_handler (snd g)) (gs s) \<le> held ip s" using h by (intro cnt_mono) auto
  then show "cnt (\<lambda>g. fst g = ip \<and> in_handler (snd g)) (gs s) \<le> 20" using held_bounds(1) [OF assms, of ip] by linarith
qed

section \<open>Properties\<close>

text \<open>C4. Under every interleaving of accepts, handler exits, releases and shutdown, the number of
  handlers running at once never exceeds the configured maximum (500 when none is configured), no
  more than twenty of them serve one IP address, the table of IP counts holds exactly the
  addresses with live connections, and the wait group counts exactly the unfinished goroutines.\<close>

theorem server_limits:
  assumes "server_reachable maxc timeout s"
  shows "int (handlers s) \<le> (if maxc \<le> 0 then 500 else maxc)
    \<and> cnt (\<lambda>g. fst g = ip \<and> in_handler (snd g)) (gs s) \<le> 20
    \<and> dom (ipCounts (srv s)) = {a. 0 < acc_ip (acc s) a + held a s}
    \<and> wg (srv s) = unfinished s \<and> open_socks s \<le> handlers s + 1"
proof -
  have I: "server_inv s" using assms by (rule server_reachable_inv)
  have "a \<in> dom (ipCounts (srv s)) \<longleftrightarrow> 0 < acc_ip (acc s) a + held a s" for a
  proof -
    have "ip_count (srv s) a = int (acc_ip (acc s) a + held a s)" using I by (simp add: server_inv_def)
    then show ?thesis using ip_entry [OF I, of a] by linarith
  qed
  then have d: "dom (ipCounts (srv s)) = {a. 0 < acc_ip (acc s) a + held a s}"
    by (intro set_eqI) (simp only: mem_Collect_eq)
  have "acc_sock (acc s) \<le> 1" by (cases "acc s") auto
  moreover have "wg (srv s) = unfinished s" "open_socks s = acc_sock (acc s) + handlers s"
    using I by (simp_all add: server_inv_def)
  ultimately have "wg (srv s) = unfinished s" "open_socks s \<le> handlers s + 1" by linarith+
  then show ?thesis using d handlers_bounded [OF I] unfolding server_reachable_maxConns [OF assms] by blast
qed

text \<open>One connection accepted and admitted.\<close>

definition one_running :: sys where
  "one_running = (sys_init 1 0)\<lparr>srv := (srv (sys_init 1 0))\<lparr>sem_used := 1, totalConns := 1, wg := 1, ipCounts := [''a'' \<mapsto> 1]\<rparr>,
     gs := [(''a'', Running)], open_socks := 1\<rparr>"

lemma one_running_reachable: "server_reachable 1 0 one_running"
proof -
  let ?s0 = "sys_init 1 0"
  let ?s1 = "?s0\<lparr>acc := GotConn ''a'', open_socks := 1\<rparr>"
  let ?v2 = "(srv ?s0)\<lparr>sem_used := 1\<rparr>"
  let ?s2 = "?s1\<lparr>srv := ?v2, acc := HaveSlot ''a''\<rparr>"
  let ?v3 = "?v2\<lparr>ipCounts := [''a'' \<mapsto> 1]\<rparr>"
  let ?s3 = "?s2\<lparr>srv := ?v3, acc := Admitted ''a''\<rparr>"
  note d = sys_init_def serving_def Server_New_def
  have s1: "server_step ?s0 ?s1" using server_step.accept [of ?s0 "''a''"] by (simp add: d)
  have s2: "server_step ?s1 ?s2"
    using server_step.slot [of ?s1 "''a''" ?v2] by (simp add: d sem_ops)
  have s3: "server_step ?s2 ?s3"
    using server_step.ip_ok [of ?s2 "''a''" ?v3] by (simp add: d acquireIP_def ip_count_def)
  have s4: "server_step ?s3 one_running"
    using server_step.spawn [of ?s3 "''a''"] by (simp add: d one_running_def)
  note step = server_reachable.step [of 1 0]
  show ?thesis by (rule step [OF step [OF step [OF step [OF server_reachable.init s1] s2] s3] s4])
qed

theorem server_limits_witness:
  "int (handlers one_running) \<le> 1 \<and> handlers one_running = 1 \<and> wg (srv one_running) = 1"
proof -
  have "gs one_running = [(''a'', Running)]" by (simp add: one_running_def)
  then show ?thesis using server_limits [OF one_running_reachable, of "''a''"] by simp
qed

text \<open>C35. Connections are turned away only when they must be: the capacity check refuses exactly when
  all slots are held by connection goroutines, and the per-IP check refuses exactly when twenty
  goroutines still count for that address.\<close>

theorem server_rejects_only_at_limit:
  assumes "server_reachable maxc timeout s"
  shows "(acc s = GotConn ip \<longrightarrow> (sem_try_send (srv s) = None \<longleftrightarrow> int (slots s) = maxConns (srv s)))
    \<and> (acc s = HaveSlot ip \<longrightarrow> (\<not> fst (acquireIP ip (srv s)) \<longleftrightarrow> held ip s = 20))"
proof -
  have I: "server_inv s" using assms by (rule server_reachable_inv)
  then have c: "ip_count (srv s) ip = int (acc_ip (acc s) ip + held ip s)"
      "sem_used (srv s) = acc_slot (acc s) + slots s" "int (sem_used (srv s)) \<le> maxConns (srv s)"
    by (simp_all add: server_inv_def)
  show ?thesis using c held_bounds(1) [OF I, of ip] by (auto simp: sem_try_send_def acquireIP_def)
qed

theorem server_rejects_only_at_limit_witness:
  "sem_try_send (srv (one_running\<lparr>acc := GotConn ''b'', open_socks := 2\<rparr>)) = None"
proof -
  let ?s = "one_running\<lparr>acc := GotConn ''b'', open_socks := 2\<rparr>"
  have "server_step one_running ?s"
    using server_step.accept [of one_running "''b''"] by (simp add: one_running_def sys_init_def serving_def numeral_2_eq_2)
  then have "server_reachable 1 0 ?s" using one_running_reachable server_reachable.step by blast
  from server_rejects_only_at_limit [OF this, of "''b''"] show ?thesis
    by (simp add: one_running_def sys_init_def serving_def Server_New_def)
qed

lemma all_finished:
  assumes "unfinished s = 0"
  shows "slots s = 0" "held ip s = 0" "handlers s = 0"
proof -
  have f: "snd g = Finished" if "g \<in> set (gs s)" for g
    using that assms by (auto simp: cnt_def filter_empty_conv)
  show "slots s = 0" "held ip s = 0" "handlers s = 0"
    by (auto simp: cnt_def filter_empty_conv dest!: f)
qed

lemma server_clean:
  assumes "server_inv s" "unfinished s = 0" "acc s \<in> {Accepting, Draining, Returned}"
  shows "sem_used (srv s) = 0 \<and> ipCounts (srv s) = Map.empty \<and> open_socks s = 0"
proof -
  have "ipCounts (srv s) a = None" for a
  proof -
    have "ip_count (srv s) a = int (acc_ip (acc s) a + held a s)" using assms(1) by (simp add: server_inv_def)
    then have "ip_count (srv s) a = 0" using assms(3) all_finished(2) [OF assms(2)] by auto
    then show ?thesis using ip_entry [OF assms(1), of a] by auto
  qed
  then show ?thesis using assms all_finished [OF assms(2)] by (auto simp: server_inv_def)
qed

text \<open>C5. Nothing leaks: at every moment the semaphore slots, the count of each address and the open sockets
  are exactly those held by the connection goroutines that have yet to give them back and by the one connection
  the accept loop may have in hand. So when \<^verbatim>\<open>Serve\<close> has returned, every goroutine has finished, every socket is
  closed, every slot is free and the table is empty; and the same whenever the accept loop waits in \<^verbatim>\<open>Accept\<close>
  and no goroutine is left.\<close>

theorem server_no_leaks:
  assumes "server_reachable maxc timeout s"
  shows "sem_used (srv s) = slots s + acc_slot (acc s)
    \<and> (\<forall>ip. ip_count (srv s) ip = int (held ip s + acc_ip (acc s) ip))
    \<and> open_socks s = handlers s + acc_sock (acc s)
    \<and> (acc s = Returned \<or> acc s = Accepting \<and> unfinished s = 0 \<longrightarrow>
        unfinished s = 0 \<and> sem_used (srv s) = 0 \<and> ipCounts (srv s) = Map.empty \<and> open_socks s = 0)"
proof -
  have I: "server_inv s" using assms by (rule server_reachable_inv)
  have w: "acc s = Returned \<longrightarrow> wg (srv s) = 0" "wg (srv s) = unfinished s"
    using I unfolding server_inv_def by blast+
  then have "acc s = Returned \<longrightarrow> unfinished s = 0" by simp
  then have "acc s = Returned \<or> acc s = Accepting \<and> unfinished s = 0 \<longrightarrow>
      unfinished s = 0 \<and> sem_used (srv s) = 0 \<and> ipCounts (srv s) = Map.empty \<and> open_socks s = 0"
    using server_clean [OF I] by auto
  then show ?thesis using I by (auto simp: server_inv_def)
qed

text \<open>One connection accepted, admitted, served and done with.\<close>

definition one_served :: sys where
  "one_served = (sys_init 1 0)\<lparr>srv := (srv (sys_init 1 0))\<lparr>totalConns := 1\<rparr>, gs := [(''a'', Finished)]\<rparr>"

lemma one_served_reachable: "server_reachable 1 0 one_served"
proof -
  let ?s1 = "one_running\<lparr>gs := [(''a'', ConnClosed)], open_socks := 0\<rparr>"
  let ?v2 = "(srv ?s1)\<lparr>sem_used := 0\<rparr>"
  let ?s2 = "?s1\<lparr>srv := ?v2, gs := [(''a'', SemFreed)]\<rparr>"
  let ?s3 = "?s2\<lparr>srv := releaseIP ''a'' ?v2, gs := [(''a'', IPReleased)]\<rparr>"
  note d = one_running_def one_served_def sys_init_def serving_def Server_New_def
  have s1: "server_step one_running ?s1"
    using server_step.handler_done [of 0 one_running "''a''"] by (simp add: d)
  have s2: "server_step ?s1 ?s2" using server_step.free_slot [of 0 ?s1 "''a''" ?v2] by (simp add: d sem_ops)
  have s3: "server_step ?s2 ?s3" using server_step.release [of 0 ?s2 "''a''"] by (simp add: d)
  have s4: "server_step ?s3 one_served"
    using server_step.wg_done [of 0 ?s3 "''a''"] by (simp add: d releaseIP_def ip_count_def Let_def)
  note step = server_reachable.step [of 1 0]
  show ?thesis by (rule step [OF step [OF step [OF step [OF one_running_reachable s1] s2] s3] s4])
qed

text \<open>While the connection is served it holds a slot, a count and a socket; afterwards nothing is held.\<close>

theorem server_no_leaks_witness:
  "sem_used (srv one_running) = 1 \<and> open_socks one_running = 1 \<and> gs one_served = [(''a'', Finished)]
    \<and> sem_used (srv one_served) = 0 \<and> ipCounts (srv one_served) = Map.empty \<and> open_socks one_served = 0"
proof -
  have g: "gs one_running = [(''a'', Running)]" "acc one_running = Accepting" "gs one_served = [(''a'', Finished)]" "acc one_served = Accepting"
    by (simp_all add: one_running_def one_served_def sys_init_def serving_def)
  show ?thesis using server_no_leaks [OF one_running_reachable] server_no_leaks [OF one_served_reachable] by (simp add: g)
qed

section \<open>Shutdown\<close>

fun phase_left :: "phase \<Rightarrow> nat" where
  "phase_left Running = 5" | "phase_left Blocked = 4" | "phase_left ConnClosed = 3" | "phase_left SemFreed = 2" | "phase_left IPReleased = 1"
| "phase_left Finished = 0"

fun acc_left :: "acceptor \<Rightarrow> nat" where
  "acc_left (GotConn ip) = 10" | "acc_left (HaveSlot ip) = 9" | "acc_left (Admitted ip) = 8" | "acc_left RefusedIP = 3"
| "acc_left Accepting = 2" | "acc_left Draining = 1" | "acc_left Returned = 0"

text \<open>The phases of a connection goroutine in the order in which it goes through them.\<close>

instantiation phase :: linorder
begin

definition less_eq_phase :: "phase \<Rightarrow> phase \<Rightarrow> bool" where
  "less_eq_phase p q \<longleftrightarrow> phase_left q \<le> phase_left p"

definition less_phase :: "phase \<Rightarrow> phase \<Rightarrow> bool" where
  "less_phase p q \<longleftrightarrow> phase_left q < phase_left p"

instance
proof
  fix p q :: phase
  show "p \<le> q \<Longrightarrow> q \<le> p \<Longrightarrow> p = q" by (cases p; cases q) (simp_all add: less_eq_phase_def)
qed (auto simp: less_eq_phase_def less_phase_def)

end

definition work_left :: "sys \<Rightarrow> nat" where
  "work_left s = acc_left (acc s) + sum_list (map (\<lambda>g. phase_left (snd g)) (gs s)) + (if ctx_done s then 0 else 1)"

lemma phase_left_update:
  "i < length xs \<Longrightarrow> phase_left q < phase_left (snd (xs ! i)) \<Longrightarrow>
     sum_list (map (\<lambda>g. phase_left (snd g)) (xs[i := (ip, q)])) < sum_list (map (\<lambda>g. phase_left (snd g)) xs)"
proof (induction xs arbitrary: i)
  case (Cons x xs)
  then show ?case by (cases i) auto
qed simp

text \<open>A goroutine only ever moves on, so it closes its socket, frees its slot and gives back its address once.\<close>

theorem goroutines_advance:
  assumes "server_step s s'" "i < length (gs s)"
  shows "i < length (gs s') \<and> fst (gs s' ! i) = fst (gs s ! i) \<and> snd (gs s ! i) \<le> snd (gs s' ! i)"
  using assms
  by (induction rule: server_step.induct)
    (auto simp: nth_append nth_list_update less_eq_phase_def)

theorem goroutines_advance_witness: "\<exists>s'. server_step one_running s' \<and> snd (gs one_running ! 0) \<le> snd (gs s' ! 0)"
proof -
  have "server_step one_running (one_running\<lparr>ctx_done := True\<rparr>)" by (rule server_step.cancel)
  then show ?thesis using goroutines_advance [of one_running _ 0] by (auto simp: one_running_def)
qed

text \<open>Whatever state the server is in, as long as no handler is blocked some action other than accepting brings it
  closer to having returned: no receive from the semaphore can block.\<close>

lemma goroutine_progress:
  assumes "server_inv s" "i < length (gs s)" "gs s ! i = (ip, p)" "p \<noteq> Finished" "p \<noteq> Blocked"
  shows "\<exists>s'. server_step s s' \<and> work_left s' < work_left s \<and> blocked s' = blocked s"
proof -
  have moved: ?thesis
    if "server_step s s'" "gs s' = (gs s)[i := (ip, q)]" "phase_left q < phase_left p" "q \<noteq> Blocked" "acc s' = acc s"
      "ctx_done s' = ctx_done s" for q s'
  proof -
    have "work_left s' < work_left s" using phase_left_update [OF assms(2), of q ip] assms(3) that by (simp add: work_left_def)
    moreover have "blocked s' = blocked s"
      using cnt_update [OF assms(2), of "\<lambda>g. snd g = Blocked" "(ip, q)"] assms(3,5) that(2,4) by simp
    ultimately show ?thesis using that(1) by blast
  qed
  show ?thesis
  proof (cases p)
    case Running
    then show ?thesis using assms(3) by (intro moved [OF server_step.handler_done [OF assms(2), of ip], of ConnClosed]) simp_all
  next
    case ConnClosed
    then obtain v where "sem_receive (srv s) = Some v"
      using goroutine_holds(1) [OF assms(1-3)] by (auto simp: sem_receive_def)
    then show ?thesis using assms(3) ConnClosed
      by (intro moved [OF server_step.free_slot [OF assms(2), where ip = ip and srv' = v], of SemFreed]) simp_all
  next
    case SemFreed
    then show ?thesis using assms(3) by (intro moved [OF server_step.release [OF assms(2), of ip], of IPReleased]) simp_all
  next
    case IPReleased
    then show ?thesis using assms(3) by (intro moved [OF server_step.wg_done [OF assms(2), of ip], of Finished]) simp_all
  qed (use assms(4,5) in simp_all)
qed

lemma server_progress:
  assumes "server_inv s" "acc s \<noteq> Returned" "blocked s = 0"
  shows "\<exists>s'. server_step s s' \<and> work_left s' < work_left s \<and> blocked s' = 0"
proof -
  have moved: ?thesis
    if "server_step s s'" "gs s' = gs s" "acc_left (acc s') < acc_left (acc s)" "ctx_done s' = ctx_done s" for s'
    using that assms(3) by (intro exI [of _ s']) (simp add: work_left_def)
  show ?thesis
  proof (cases "acc s")
    case Accepting
    show ?thesis
    proof (cases "ctx_done s")
      case True
      then show ?thesis using Accepting by (intro moved [OF server_step.accept_closed]) simp_all
    next
      case False
      then show ?thesis using assms(3)
        by (intro exI [of _ "s\<lparr>ctx_done := True\<rparr>"]) (simp add: work_left_def server_step.cancel)
    qed
  next
    case (GotConn ip)
    then show ?thesis
      by (cases "sem_try_send (srv s)")
        (simp_all add: moved [OF server_step.no_slot] moved [OF server_step.slot])
  next
    case (HaveSlot ip)
    obtain ok v where "acquireIP ip (srv s) = (ok, v)" by fastforce
    then show ?thesis using HaveSlot
      by (cases ok) (simp_all add: moved [OF server_step.ip_ok] moved [OF server_step.ip_refused])
  next
    case RefusedIP
    then obtain v where "sem_receive (srv s) = Some v"
      using assms(1) by (auto simp: sem_receive_def server_inv_def)
    then show ?thesis using RefusedIP by (simp add: moved [OF server_step.give_back])
  next
    case (Admitted ip)
    let ?s' = "s\<lparr>srv := (srv s)\<lparr>totalConns := totalConns (srv s) + 1, wg := wg (srv s) + 1\<rparr>,
      acc := Accepting, gs := gs s @ [(ip, Running)]\<rparr>"
    have "server_step s ?s'" using Admitted by (rule server_step.spawn)
    moreover have "work_left ?s' < work_left s \<and> blocked ?s' = 0" using Admitted assms(3) by (simp add: work_left_def)
    ultimately show ?thesis by blast
  next
    case Draining
    show ?thesis
    proof (cases "unfinished s = 0")
      case True
      then have "wg (srv s) = 0" using assms(1) by (simp add: server_inv_def)
      then show ?thesis using Draining by (simp add: moved [OF server_step.drained])
    next
      case False
      then obtain i where i: "i < length (gs s)" "snd (gs s ! i) \<noteq> Finished"
        by (auto simp: cnt_def filter_empty_conv in_set_conv_nth)
      have "snd (gs s ! i) \<noteq> Blocked" using assms(3) cnt_pos [OF i(1), of "\<lambda>g. snd g = Blocked"] by auto
      then show ?thesis using goroutine_progress [OF assms(1) i(1) surjective_pairing i(2)] assms(3) by simp
    qed
  qed (use assms(2) in simp)
qed

interpretation server_finishes: can_finish "\<lambda>s s'. server_step s s' \<and> blocked s' = 0" "\<lambda>s. server_inv s \<and> blocked s = 0"
    work_left "\<lambda>s. acc s = Returned"
proof unfold_locales
  fix s assume "server_inv s \<and> blocked s = 0" "acc s \<noteq> Returned"
  then show "\<exists>s'. (server_step s s' \<and> blocked s' = 0) \<and> work_left s' < work_left s" using server_progress by blast
qed (use server_inv_step in blast)

text \<open>The server never gets stuck: from every state it can reach in which no handler is blocked, with connections
  in any stage, it can still be shut down, that is, it has a run of at most \<open>work_left\<close> actions to a state where
  \<^verbatim>\<open>Serve\<close> has returned and all resources are free.\<close>

theorem server_can_shut_down:
  assumes "server_reachable maxc timeout s" "blocked s = 0"
  shows "\<exists>n s'. n \<le> work_left s \<and> (server_step ^^ n) s s' \<and> acc s' = Returned \<and> unfinished s' = 0
    \<and> sem_used (srv s') = 0 \<and> ipCounts (srv s') = Map.empty \<and> open_socks s' = 0"
proof -
  obtain n s' where n: "n \<le> work_left s" "((\<lambda>s s'. server_step s s' \<and> blocked s' = 0) ^^ n) s s'" "acc s' = Returned" "server_inv s'"
    using server_finishes.run_to_end [of s] server_reachable_inv [OF assms(1)] assms(2) by blast
  from n(2) have st: "(server_step ^^ n) s s'" by (rule relpowp_mono [rotated]) simp
  have "unfinished s' = 0" using n(3,4) by (simp add: server_inv_def)
  then show ?thesis using n(1,3) st server_clean [OF n(4)] by auto
qed

theorem server_can_shut_down_witness:
  "\<exists>n s'. (server_step ^^ n) one_running s' \<and> acc s' = Returned \<and> ipCounts (srv s') = Map.empty"
proof -
  have "blocked one_running = 0" by (simp add: one_running_def)
  then show ?thesis using server_can_shut_down [OF one_running_reachable] by blast
qed

text \<open>
  The actions that move the server: neither a repetition that changes nothing nor a call of
  \<^verbatim>\<open>Stop\<close>, which the program never makes.
\<close>

definition server_acts :: "sys \<Rightarrow> sys \<Rightarrow> bool" where
  "server_acts s s' \<longleftrightarrow> server_step s s' \<and> s' \<noteq> s \<and> stop_at s' = stop_at s \<and> done_closed (srv s') = done_closed (srv s)"

lemma server_ops_done_closed:
  "sem_try_send v = Some v' \<Longrightarrow> done_closed v' = done_closed v"
  "sem_receive v = Some v' \<Longrightarrow> done_closed v' = done_closed v"
  "acquireIP ip v = (ok, v') \<Longrightarrow> done_closed v' = done_closed v"
  "done_closed (releaseIP ip v) = done_closed v"
  by (auto simp: sem_ops acquireIP_def releaseIP_def Let_def split: if_splits)

lemma server_step_monotone:
  assumes "server_step s s'"
  shows "ctx_done s \<longrightarrow> ctx_done s'" "\<not> ln_open s \<longrightarrow> \<not> ln_open s'" "done_closed (srv s) \<longrightarrow> done_closed (srv s')"
  using assms by (induction rule: server_step.induct) (auto simp: Stop_def server_ops_done_closed)

lemma working_acts:
  assumes "server_step s s'" "work_left s' < work_left s"
  shows "server_acts s s'"
proof -
  have "stop_at s' = stop_at s \<and> done_closed (srv s') = done_closed (srv s)"
    using assms(1)
  proof cases
    case stop
    then show ?thesis using assms(2) by (simp add: work_left_def)
  next
    case stop_returns
    then show ?thesis using assms(2) by (simp add: work_left_def)
  qed (simp_all add: server_ops_done_closed)
  then show ?thesis using assms by (auto simp: server_acts_def)
qed

lemma closing_acts_less:
  assumes "server_step s s'" "ctx_done s" "\<not> ln_open s" "s' \<noteq> s" "stop_at s' = stop_at s" "done_closed (srv s') = done_closed (srv s)"
  shows "work_left s' < work_left s"
  using assms
proof (induction rule: server_step.induct)
  case (handler_blocks i s ip)
  then show ?case using phase_left_update [of i "gs s" Blocked ip] by (simp add: work_left_def)
next
  case (handler_done i s ip)
  then show ?case using phase_left_update [of i "gs s" ConnClosed ip] by (simp add: work_left_def)
next
  case (free_slot i s ip srv')
  then show ?case using phase_left_update [of i "gs s" SemFreed ip] by (simp add: work_left_def)
next
  case (release i s ip)
  then show ?case using phase_left_update [of i "gs s" IPReleased ip] by (simp add: work_left_def)
next
  case (wg_done i s ip)
  then show ?case using phase_left_update [of i "gs s" Finished ip] by (simp add: work_left_def)
qed (auto simp: work_left_def Stop_def)

definition server_closing :: "sys \<Rightarrow> bool" where
  "server_closing s \<longleftrightarrow> server_inv s \<and> ctx_done s \<and> \<not> ln_open s"

interpretation server_ends: must_finish server_acts server_closing work_left "\<lambda>s. acc s = Returned \<or> 0 < blocked s"
proof unfold_locales
  fix s s'
  assume a: "server_acts s s'" "server_closing s"
  have st: "server_step s s'" "s' \<noteq> s" "stop_at s' = stop_at s" "done_closed (srv s') = done_closed (srv s)"
    and c: "server_inv s" "ctx_done s" "\<not> ln_open s"
    using a by (simp_all add: server_acts_def server_closing_def)
  show "server_closing s'"
    using server_inv_step [OF st(1) c(1)] server_step_monotone [OF st(1)] c by (simp add: server_closing_def)
  show "work_left s' < work_left s" by (rule closing_acts_less [OF st(1) c(2,3) st(2-4)])
next
  fix s
  assume a: "server_closing s" "\<not> (acc s = Returned \<or> 0 < blocked s)"
  then obtain s' where "server_step s s'" "work_left s' < work_left s"
    using server_progress [of s] by (auto simp: server_closing_def)
  then show "\<exists>s'. server_acts s s'" using working_acts by blast
qed

text \<open>C28. Shutdown is inevitable: once the context is cancelled and the listening socket closed, the server
  takes at most \<open>work_left\<close> more actions whatever their order, and when no action is left and no handler is blocked
  \<^verbatim>\<open>Serve\<close> has returned with every connection goroutine finished and all resources free: no interleaving of the
  listener deadlocks. A handler that is blocked for good is the only thing that can keep \<^verbatim>\<open>Serve\<close> from returning,
  and it does.\<close>

theorem server_shuts_down:
  assumes "server_reachable maxc timeout s" "ctx_done s" "\<not> ln_open s" "(server_acts ^^ n) s s'"
  shows "n \<le> work_left s
    \<and> (blocked s' = 0 \<longrightarrow> (\<exists>s''. server_acts s' s'') \<or> acc s' = Returned \<and> unfinished s' = 0
        \<and> sem_used (srv s') = 0 \<and> ipCounts (srv s') = Map.empty \<and> open_socks s' = 0)
    \<and> (0 < blocked s' \<longrightarrow> acc s' \<noteq> Returned)"
proof -
  have c: "server_closing s" using server_reachable_inv [OF assms(1)] assms(2,3) by (simp add: server_closing_def)
  have r: "server_inv s'" using server_ends.run_bounded [OF assms(4) c] by (simp add: server_closing_def)
  show ?thesis
  proof (cases "acc s' = Returned")
    case True
    then have u: "unfinished s' = 0" using r by (simp add: server_inv_def)
    moreover have "blocked s' \<le> unfinished s'" by (intro cnt_mono) simp
    ultimately show ?thesis using True server_ends.ends(1) [OF assms(4) c] server_clean [OF r] by auto
  next
    case False
    then show ?thesis using server_ends.ends [OF assms(4) c] by auto
  qed
qed

definition closing_one :: sys where
  "closing_one = one_running\<lparr>ctx_done := True, ln_open := False\<rparr>"

theorem server_shuts_down_witness:
  "\<exists>s'. server_acts closing_one s' \<and> work_left closing_one = 7"
proof -
  have "server_step one_running (one_running\<lparr>ctx_done := True\<rparr>)" by (rule server_step.cancel)
  moreover have "server_step (one_running\<lparr>ctx_done := True\<rparr>) closing_one"
    using server_step.close_listener [of "one_running\<lparr>ctx_done := True\<rparr>"] by (simp add: closing_one_def)
  ultimately have "server_reachable 1 0 closing_one"
    by (rule server_reachable.step [OF server_reachable.step [OF one_running_reachable]])
  moreover have "acc closing_one \<noteq> Returned" "blocked closing_one = 0" "work_left closing_one = 7" "ctx_done closing_one" "\<not> ln_open closing_one"
    by (simp_all add: closing_one_def one_running_def sys_init_def serving_def work_left_def)
  moreover have "(server_acts ^^ 0) closing_one closing_one" by simp
  ultimately show ?thesis using server_shuts_down [of 1 0 closing_one 0 closing_one] by blast
qed

text \<open>\<^verbatim>\<open>Stop\<close> promises to come back when all connections are done, but a connection accepted before it and admitted
  after it escapes: its goroutine is added to the wait group after \<^verbatim>\<open>Stop\<close> has found the group empty.\<close>

theorem Stop_returns_early:
  "\<exists>s. server_reachable 1 0 s \<and> stop_at s = StopReturned \<and> handlers s = 1"
proof -
  let ?s0 = "sys_init 1 0"
  let ?s1 = "?s0\<lparr>acc := GotConn ''a'', open_socks := 1\<rparr>"
  let ?s2 = "?s1\<lparr>srv := Stop (srv ?s1), stop_at := StopWaiting\<rparr>"
  let ?s3 = "?s2\<lparr>stop_at := StopReturned\<rparr>"
  let ?v4 = "(srv ?s3)\<lparr>sem_used := 1\<rparr>"
  let ?s4 = "?s3\<lparr>srv := ?v4, acc := HaveSlot ''a''\<rparr>"
  let ?v5 = "?v4\<lparr>ipCounts := [''a'' \<mapsto> 1]\<rparr>"
  let ?s5 = "?s4\<lparr>srv := ?v5, acc := Admitted ''a''\<rparr>"
  let ?s6 = "?s5\<lparr>srv := ?v5\<lparr>totalConns := 1, wg := 1\<rparr>, acc := Accepting, gs := [(''a'', Running)]\<rparr>"
  note d = sys_init_def serving_def Server_New_def Stop_def
  have st: "server_step ?s0 ?s1" "server_step ?s1 ?s2" "server_step ?s2 ?s3" "server_step ?s3 ?s4" "server_step ?s4 ?s5"
      "server_step ?s5 ?s6"
    using server_step.accept [of ?s0 "''a''"] server_step.stop [of ?s1] server_step.stop_returns [of ?s2]
      server_step.slot [of ?s3 "''a''" ?v4] server_step.ip_ok [of ?s4 "''a''" ?v5] server_step.spawn [of ?s5 "''a''"]
    by (simp_all add: d sem_ops acquireIP_def ip_count_def)
  note step = server_reachable.step [of 1 0]
  have "server_reachable 1 0 ?s6"
    by (rule step [OF step [OF step [OF step [OF step [OF step [OF server_reachable.init st(1)] st(2)] st(3)] st(4)] st(5)] st(6)])
  moreover have "stop_at ?s6 = StopReturned" "handlers ?s6 = 1" by simp_all
  ultimately show ?thesis by blast
qed

text \<open>Giving back an address undoes taking it: whatever the table holds for other addresses, a
  release after a successful acquire restores it exactly, entry deleted included.\<close>

theorem releaseIP_acquireIP:
  assumes "acquireIP ip s = (True, s')" "\<And>n. ipCounts s ip = Some n \<Longrightarrow> 0 < n"
  shows "releaseIP ip s' = s"
proof -
  have "(ipCounts s)(ip := ipCounts s ip) = ipCounts s" by simp
  then show ?thesis using assms
    by (cases "ipCounts s ip") (auto simp: acquireIP_def releaseIP_def ip_count_def Let_def split: if_splits)
qed

theorem releaseIP_acquireIP_witness:
  "releaseIP ''a'' (snd (acquireIP ''a'' (Server_New 5 0))) = Server_New 5 0"
  by (rule releaseIP_acquireIP) (auto simp: acquireIP_def Server_New_def ip_count_def)

end
