(* ===== verification/Mongo.thy ===== *)
theory Mongo
  imports Bson Fingerprint Server
begin

text \<open>
  \<^verbatim>\<open>internal/proto/mongodb\<close>: the message layer, the two opcodes that are answered and the
  connection loop.

  \<open>order\<close> is the order in which Go visits a map (see \<open>Bson\<close>), \<open>U\<close> the Unicode case tables. The
  outer \<^const>\<open>None\<close> of an operation is a panic. \<^verbatim>\<open>int32\<close> fields are 32-bit words, read as signed
  numbers where the code compares them.
\<close>

section \<open>Messages\<close>

definition opReply :: "32 word" where "opReply = 1"
definition opQuery :: "32 word" where "opQuery = 2004"
definition opMsg :: "32 word" where "opMsg = 2013"
definition opGetMore :: "32 word" where "opGetMore = 2005"
definition opDelete :: "32 word" where "opDelete = 2006"
definition opInsert :: "32 word" where "opInsert = 2002"
definition opUpdate :: "32 word" where "opUpdate = 2001"
definition maxMsgSize :: int where "maxMsgSize = 48 * 1024 * 1024"

record msgHeader =
  MessageLength :: "32 word"
  RequestID :: "32 word"
  ResponseTo :: "32 word"
  OpCode :: "32 word"

text \<open>\<^verbatim>\<open>int32(binary.LittleEndian.Uint32(hdrBuf[k:]))\<close> for a \<open>k\<close> of at most 12, in a buffer of 16 bytes.\<close>

definition int32_at :: "nat \<Rightarrow> bytes \<Rightarrow> 32 word" where
  "int32_at k buf = word_of_nat (le_nat (take 4 (drop k buf)))"

definition mongo_readMessage :: "('a) world_scheme \<Rightarrow> (goerr + msgHeader \<times> bytes) \<times> ('a) world_scheme" where
  "mongo_readMessage w =
    (case read_full 16 w of
       (Inl e, w1) \<Rightarrow> (Inl e, w1)
     | (Inr hdrBuf, w1) \<Rightarrow>
         let hdr = \<lparr>MessageLength = int32_at 0 hdrBuf, RequestID = int32_at 4 hdrBuf,
                    ResponseTo = int32_at 8 hdrBuf, OpCode = int32_at 12 hdrBuf\<rparr> in
         if sint (MessageLength hdr) < 16 \<or> sint (MessageLength hdr) > maxMsgSize
         then (Inl (ErrorS ''invalid message length''), w1)
         else let bodyLen = nat (sint (MessageLength hdr) - 16) in
           if bodyLen = 0 then (Inr (hdr, []), w1)
           else case read_full bodyLen w1 of
                  (Inl e, w2) \<Rightarrow> (Inl e, w2)
                | (Inr payload, w2) \<Rightarrow> (Inr (hdr, payload), w2))"

section \<open>Replies\<close>

definition word_bytes :: "32 word \<Rightarrow> bytes" where
  "word_bytes x = le_bytes 4 (unat x)"

text \<open>The message is laid out at increasing positions of a buffer of exactly its length. Encoding never
  fails, so the fallback to \<^const>\<open>minimalBSON\<close> is dead.\<close>

definition sendOpReply ::
  "(bytes list \<Rightarrow> bytes list) \<Rightarrow> 32 word \<Rightarrow> gdoc option \<Rightarrow> ('a) world_scheme \<Rightarrow> goerr option \<times> ('a) world_scheme" where
  "sendOpReply order responseTo doc w =
    (let docBytes = (case doc of None \<Rightarrow> [] | Some d \<Rightarrow> encodeBSON order d);
         numDocs = (case doc of None \<Rightarrow> 0 | Some d \<Rightarrow> 1);
         bodyLen = 4 + 8 + 4 + 4 + length docBytes
     in write_bytes
       (le_bytes 4 (16 + bodyLen) @ le_bytes 4 0 @ word_bytes responseTo @ word_bytes opReply
        @ le_bytes 4 8 @ le_bytes 8 0 @ le_bytes 4 0 @ le_bytes 4 numDocs @ docBytes) w)"

definition sendOpMsgReply ::
  "(bytes list \<Rightarrow> bytes list) \<Rightarrow> 32 word \<Rightarrow> gdoc \<Rightarrow> ('a) world_scheme \<Rightarrow> goerr option \<times> ('a) world_scheme" where
  "sendOpMsgReply order responseTo doc w =
    (let docBytes = encodeBSON order doc; bodyLen = 4 + 1 + length docBytes
     in write_bytes
       (le_bytes 4 (16 + bodyLen) @ le_bytes 4 0 @ word_bytes responseTo @ word_bytes opMsg
        @ le_bytes 4 0 @ [NUL] @ docBytes) w)"

text \<open>\<open>t\<close> is the clock in nanoseconds.\<close>

definition buildIsMasterDoc :: "FP \<Rightarrow> bytes \<Rightarrow> nat \<Rightarrow> gdoc" where
  "buildIsMasterDoc fp version t =
    [(''ismaster'', GBool True),
     (''maxBsonObjectSize'', GInt 16777216),
     (''maxMessageSizeBytes'', GInt 48000000),
     (''maxWriteBatchSize'', GInt 100000),
     (''localTime'', GMap [(''$date'', GInt64 (of_nat (t div 1000000)))]),
     (''logicalSessionTimeoutMinutes'', GInt 30),
     (''minWireVersion'', GInt 0),
     (''maxWireVersion'', GInt 17),
     (''readOnly'', GBool False),
     (''ok'', GInt 1),
     (''hosts'', GStrings [])]"

definition buildInfoDoc :: "FP \<Rightarrow> bytes \<Rightarrow> gdoc" where
  "buildInfoDoc fp version =
    [(''version'', GString version),
     (''gitVersion'', GString (ESBuildHash fp)),
     (''sysInfo'', GString ''Linux''),
     (''versionArray'', GInts [7, 0, 8, 0]),
     (''bits'', GInt 64),
     (''debug'', GBool False),
     (''maxBsonObjectSize'', GInt 16777216),
     (''ok'', GInt 1)]"

section \<open>Requests\<close>

definition mongo_sanitize :: "bytes \<Rightarrow> bytes" where
  "mongo_sanitize s = strings_Map (\<lambda>r. if r < 0x20 \<or> r = 0x7F then None else Some r) s"

definition mongo_event :: "bytes \<times> 64 word \<Rightarrow> bytes \<Rightarrow> bytes \<Rightarrow> bytes \<Rightarrow> Event" where
  "mongo_event src user cmd payload = zero_Event\<lparr>Protocol := ProtoMongoDB, SrcIP := fst src, SrcPort := snd src,
     Username := user, Command := cmd, Payload := payload\<rparr>"

lemma loggable_mongo_event [simp]: "loggable (mongo_event src user cmd payload)"
  by (simp add: loggable_def mongo_event_def)

text \<open>What a handler of one message uses besides the message.\<close>

record mongo_env =
  env_tables :: unicode_tables
  env_order :: "bytes list \<Rightarrow> bytes list"
  env_fp :: FP
  env_version :: bytes
  env_src :: "bytes \<times> 64 word"

definition handleOpQuery ::
  "mongo_env \<Rightarrow> msgHeader \<Rightarrow> bytes \<Rightarrow> ('a) world_scheme \<Rightarrow> (goerr option \<times> ('a) world_scheme) option" where
  "handleOpQuery E hdr payload w =
    (if length payload < 4 then Some (None, w)
     else do {
       let pos = 4;
       rest \<leftarrow> go_from payload pos;
       case indexByte rest NUL of
         None \<Rightarrow> Some (None, w)
       | Some nameEnd \<Rightarrow> do {
           collection \<leftarrow> go_slice payload pos (pos + nameEnd);
           let pos = pos + nameEnd + 1;
           if pos + 8 > length payload then Some (None, w)
           else do {
             let pos = pos + 8;
             rest \<leftarrow> go_from payload pos;
             parsed \<leftarrow> parseBSONDoc rest;
             let doc = map_option fst parsed;
             let w = log_event (mongo_event (env_src E) [] (''OP_QUERY '' @ mongo_sanitize collection)
                       (go_truncate (mongo_jsonMarshal doc) 2048)) w;
             let lc = ToLower (env_tables E) collection;
             if HasSuffix lc ''.$cmd'' \<or> HasSuffix lc ''.system.namespaces''
             then Some (sendOpReply (env_order E) (RequestID hdr)
                     (Some (buildIsMasterDoc (env_fp E) (env_version E) (now w))) w)
             else Some (sendOpReply (env_order E) (RequestID hdr) None w) } } })"

text \<open>The sections of an OP_MSG. Where a section does not parse, the source's \<^verbatim>\<open>break\<close> leaves the
  switch only, and the loop goes on with the next byte.\<close>

function mongo_sections :: "unicode_tables \<Rightarrow> bytes \<Rightarrow> nat \<Rightarrow> bytes \<Rightarrow> gdoc option \<Rightarrow> (bytes \<times> gdoc option) option" where
  "mongo_sections U payload pos command doc =
    (if pos \<ge> length payload then Some (command, doc)
     else do {
       kind \<leftarrow> go_index payload pos;
       rest \<leftarrow> go_from payload (pos + 1);
       if kind = CHR 0x00 then do {
         command \<leftarrow> bsonFirstKey U rest;
         r \<leftarrow> parseBSONDoc rest;
         case r of
           None \<Rightarrow> mongo_sections U payload (pos + 1) command doc
         | Some (parsed, n) \<Rightarrow> mongo_sections U payload (pos + 1 + n) command (Some parsed) }
       else if kind = CHR 0x01 then
         (if pos + 1 + 4 > length payload then mongo_sections U payload (pos + 1) command doc
          else do {
            seqLen \<leftarrow> le_uint32 rest;
            if seqLen < 4 \<or> pos + 1 + seqLen > length payload
            then mongo_sections U payload (pos + 1) command doc
            else mongo_sections U payload (pos + 1 + seqLen) command doc })
       else Some (command, doc) })"
  by pat_completeness auto
termination
  by (relation "measure (\<lambda>(U, payload, pos, command, doc). length payload - pos)") auto

declare mongo_sections.simps [simp del]

definition mongo_reply_doc :: "mongo_env \<Rightarrow> nat \<Rightarrow> bytes \<Rightarrow> gdoc" where
  "mongo_reply_doc E t command =
    (if command \<in> {''ismaster'', ''hello'', ''isMaster''} then buildIsMasterDoc (env_fp E) (env_version E) t
     else if command = ''ping'' then [(''ok'', GInt 1)]
     else if command \<in> {''buildinfo'', ''buildInfo''} then buildInfoDoc (env_fp E) (env_version E)
     else if command \<in> {''listdatabases'', ''listDatabases''} then
       [(''databases'', GSlice []), (''totalSize'', GInt 0), (''ok'', GInt 1)]
     else if command \<in> {''authenticate'', ''saslstart'', ''saslcontinue''} then [(''ok'', GInt 1)]
     else [(''ok'', GInt 0), (''errmsg'', GString ''not authorized on admin to execute command''), (''code'', GInt 13)])"

definition handleOpMsg ::
  "mongo_env \<Rightarrow> msgHeader \<Rightarrow> bytes \<Rightarrow> ('a) world_scheme \<Rightarrow> (goerr option \<times> ('a) world_scheme) option" where
  "handleOpMsg E hdr payload w =
    (if length payload < 4 then Some (None, w)
     else do {
       (command, doc) \<leftarrow> mongo_sections (env_tables E) payload 4 [] None;
       let w = log_event (mongo_event (env_src E) [] (''OP_MSG '' @ mongo_sanitize command)
                 (go_truncate (mongo_jsonMarshal doc) 2048)) w;
       let w = (if command = ''saslstart'' \<or> command = ''saslcontinue'' \<or> command = ''authenticate'' then
                  (case extractString doc ''user'' of
                     Some user \<Rightarrow> log_event (mongo_event (env_src E) user (''AUTH '' @ command) []) w
                   | None \<Rightarrow> w)
                else w);
       Some (sendOpMsgReply (env_order E) (RequestID hdr) (mongo_reply_doc E (now w) command) w) })"

section \<open>The loop\<close>

definition mongo_outcome :: "(goerr option \<times> world) option \<Rightarrow> world ctl" where
  "mongo_outcome r = (case r of None \<Rightarrow> Crash | Some (Some e, w) \<Rightarrow> Return w | Some (None, w) \<Rightarrow> Continue w)"

definition mongo_step :: "mongo_env \<Rightarrow> world \<Rightarrow> world ctl" where
  "mongo_step E w =
    (if ctx_Done w then Return w
     else case mongo_readMessage w of
       (Inl e, w) \<Rightarrow> Return w
     | (Inr (hdr, payload), w) \<Rightarrow>
         let w = set_read_deadline 60 w in
         if OpCode hdr = opQuery then mongo_outcome (handleOpQuery E hdr payload w)
         else if OpCode hdr = opMsg then mongo_outcome (handleOpMsg E hdr payload w)
         else if OpCode hdr \<in> {opGetMore, opInsert, opDelete, opUpdate} then
           Continue (log_event (mongo_event (env_src E) [] (''opcode:'' @ dec_int (sint (OpCode hdr))) []) w)
         else Return w)"


section \<open>Reading messages\<close>

definition mongo_bytes :: "msgHeader \<times> bytes \<Rightarrow> bytes" where
  "mongo_bytes m = word_bytes (MessageLength (fst m)) @ word_bytes (RequestID (fst m)) @ word_bytes (ResponseTo (fst m))
     @ word_bytes (OpCode (fst m)) @ snd m"

definition mongo_valid :: "msgHeader \<times> bytes \<Rightarrow> bool" where
  "mongo_valid m \<longleftrightarrow> sint (MessageLength (fst m)) = 16 + int (length (snd m)) \<and> sint (MessageLength (fst m)) \<le> maxMsgSize"

lemma length_word_bytes [simp]: "length (word_bytes x) = 4"
  by (simp add: word_bytes_def)

lemma le_nat_word_bytes [simp]: "le_nat (word_bytes x) = unat x"
  using unsigned_less [of x, where ?'a = nat] by (simp add: word_bytes_def le_nat_le_bytes)

lemma int32_at_header:
  "int32_at 0 (word_bytes a @ word_bytes b @ word_bytes c @ word_bytes d) = a"
  "int32_at 4 (word_bytes a @ word_bytes b @ word_bytes c @ word_bytes d) = b"
  "int32_at 8 (word_bytes a @ word_bytes b @ word_bytes c @ word_bytes d) = c"
  "int32_at 12 (word_bytes a @ word_bytes b @ word_bytes c @ word_bytes d) = d"
  by (simp_all add: int32_at_def)

lemma mongo_readMessage_bytes:
  assumes "mongo_valid m" "readable (wconn w) = mongo_bytes m @ rest"
  shows "mongo_readMessage w = (Inr m, w\<lparr>wconn := consume (length (mongo_bytes m)) (wconn w)\<rparr>)"
proof -
  obtain hdr p where m: "m = (hdr, p)" by fastforce
  let ?h = "word_bytes (MessageLength hdr) @ word_bytes (RequestID hdr) @ word_bytes (ResponseTo hdr) @ word_bytes (OpCode hdr)"
  let ?w1 = "w\<lparr>wconn := consume 16 (wconn w)\<rparr>"
  have r: "readable (wconn w) = ?h @ (p @ rest)" using assms(2) by (simp add: m mongo_bytes_def)
  have f1: "read_full 16 w = (Inr ?h, ?w1)" using read_full_readable [OF r] by simp
  have "readable (wconn ?w1) = p @ rest" using r by (simp add: readable_consume)
  from read_full_readable [OF this]
  have f2: "read_full (length p) ?w1 = (Inr p, w\<lparr>wconn := consume (16 + length p) (wconn w)\<rparr>)"
    by (simp add: consume_consume)
  have v: "\<not> sint (MessageLength hdr) < 16" "\<not> sint (MessageLength hdr) > maxMsgSize"
      "nat (sint (MessageLength hdr) - 16) = length p"
    using assms(1) by (simp_all add: mongo_valid_def m)
  have h: "\<lparr>MessageLength = int32_at 0 ?h, RequestID = int32_at 4 ?h, ResponseTo = int32_at 8 ?h, OpCode = int32_at 12 ?h\<rparr> = hdr"
    unfolding int32_at_header by simp
  show ?thesis
    unfolding mongo_readMessage_def f1 prod.case sum.case Let_def h using v f2 f1
    by (cases "p = []") (simp_all add: m mongo_bytes_def)
qed

lemma mongo_readMessage_cases:
  assumes "mongo_readMessage w = (r, w1)"
  obtains (err) e where "r = Inl e" "read_full 16 w = (Inl e, w1)"
  | (bad) hdr e where "r = Inl e" "read_full 16 w = (Inr hdr, w1)"
  | (short) buf hdr where "r = Inr (hdr, [])" "read_full 16 w = (Inr buf, w1)" "mongo_valid (hdr, [])"
  | (cut) buf n w2 e where "r = Inl e" "read_full 16 w = (Inr buf, w2)" "read_full n w2 = (Inl e, w1)"
  | (full) buf hdr w2 p where "r = Inr (hdr, p)" "read_full 16 w = (Inr buf, w2)" "read_full (length p) w2 = (Inr p, w1)"
      "mongo_valid (hdr, p)"
proof -
  obtain r1 w2 where h: "read_full 16 w = (r1, w2)" by fastforce
  show thesis
  proof (cases r1)
    case (Inl e)
    then show thesis using assms h err by (auto simp: mongo_readMessage_def)
  next
    case (Inr buf)
    define hdr where "hdr = \<lparr>MessageLength = int32_at 0 buf, RequestID = int32_at 4 buf,
                    ResponseTo = int32_at 8 buf, OpCode = int32_at 12 buf\<rparr>"
    define n where "n = nat (sint (MessageLength hdr) - 16)"
    note eq = assms [unfolded mongo_readMessage_def h Inr prod.case sum.case Let_def, folded hdr_def, folded n_def]
    show thesis
    proof (cases "sint (MessageLength hdr) < 16 \<or> sint (MessageLength hdr) > maxMsgSize")
      case True
      then show thesis using eq h Inr bad by auto
    next
      case ok: False
      obtain r3 w3 where b: "read_full n w2 = (r3, w3)" by fastforce
      have val: "mongo_valid (hdr, p)" if "length p = n" for p
        using ok that by (simp add: mongo_valid_def n_def)
      show thesis
      proof (cases "n = 0")
        case True
        then show thesis using eq ok h Inr short val [of "[]"] by auto
      next
        case False
        show thesis
        proof (cases r3)
          case (Inl e)
          then show thesis using eq ok False h b \<open>r1 = Inr buf\<close> cut by auto
        next
          case (Inr p)
          then have "length p = n" using read_full_Inr(1) b by blast
          then show thesis using eq ok False h b Inr \<open>r1 = Inr buf\<close> full [of hdr p buf w2] val by simp
        qed
      qed
    qed
  qed
qed

lemma mongo_readMessage_Inr:
  assumes "mongo_readMessage w = (Inr m, w1)"
  shows "length (incoming (wconn w1)) < length (incoming (wconn w))" "mongo_valid m"
proof -
  have "length (incoming (wconn w1)) < length (incoming (wconn w)) \<and> mongo_valid m"
    using assms by (cases rule: mongo_readMessage_cases) (auto dest!: read_full_Inr(2))
  then show "length (incoming (wconn w1)) < length (incoming (wconn w))" "mongo_valid m" by blast+
qed

lemma evolves_mongo_readMessage: "mongo_readMessage w = (r, w1) \<Longrightarrow> evolves w w1"
  by (erule mongo_readMessage_cases) (auto dest!: evolves_read_full intro: evolves_trans)

lemma mongo_readMessage_paced:
  assumes "mongo_readMessage w = (r, w1)"
  shows "paced (\<not> isl r) w w1"
  using assms
  by (cases rule: mongo_readMessage_cases)
    (auto dest!: paced_read_full intro: paced_trans paced_weaken)

interpretation mongo_messages: bounded_reader mongo_readMessage mongo_bytes mongo_valid
  by unfold_locales
    (simp_all add: mongo_readMessage_bytes mongo_readMessage_Inr evolves_mongo_readMessage)

section \<open>Answering never fails\<close>

lemma mongo_sections_total: "\<exists>r. mongo_sections U payload pos command doc = Some r"
proof (induction U payload pos command doc rule: mongo_sections.induct)
  case (1 U payload pos command doc)
  show ?case
  proof (cases "pos \<ge> length payload")
    case True
    then show ?thesis by (subst mongo_sections.simps) simp
  next
    case False
    let ?rest = "drop (pos + 1) payload"
    have i: "go_index payload pos = Some (payload ! pos)" "go_from payload (pos + 1) = Some ?rest"
      using False by (simp_all add: go_index_def go_from_def)
    consider "payload ! pos = NUL" | "payload ! pos = CHR 0x01" | "payload ! pos \<noteq> NUL" "payload ! pos \<noteq> CHR 0x01"
      by blast
    then show ?thesis
    proof cases
      case 1
      obtain k r where k: "bsonFirstKey U ?rest = Some k" and r: "parseBSONDoc ?rest = Some r"
        using bsonFirstKey_total parseBSONDoc_total by blast
      note ih = "1.IH"(1,2) [OF False i 1 k r]
      show ?thesis
      proof (cases r)
        case None
        then show ?thesis using ih(1) False i 1 k r by (subst mongo_sections.simps) simp
      next
        case (Some x)
        obtain d n where "x = (d, n)" by fastforce
        then show ?thesis using ih(2) [OF Some, of d n] Some False i 1 k r by (subst mongo_sections.simps) simp
      qed
    next
      case 2
      show ?thesis
      proof (cases "pos + 1 + 4 > length payload")
        case True
        then show ?thesis using "1.IH"(3) [OF False i _ 2 True] 2 False i by (subst mongo_sections.simps) simp
      next
        case long: False
        then have n: "le_uint32 ?rest = Some (le_nat (take 4 ?rest))" by (simp add: le_uint32_def)
        show ?thesis
          using "1.IH"(4,5) [OF False i _ 2 long n] 2 False i long n by (subst mongo_sections.simps) simp
      qed
    next
      case 3
      then show ?thesis using False i by (subst mongo_sections.simps) simp
    qed
  qed
qed

text \<open>Answering logs and writes: it reads nothing and keeps to the time limits.\<close>

definition steady :: "bool \<Rightarrow> ('a) world_scheme \<Rightarrow> ('a) world_scheme \<Rightarrow> bool" where
  "steady ok w w' \<longleftrightarrow> evolves w w' \<and> sends ok w w'"

lemma steady_refl [simp]: "steady ok w w"
  by (simp add: steady_def)

lemma steady_trans: "steady True u v \<Longrightarrow> steady ok v w \<Longrightarrow> steady ok u w"
  unfolding steady_def using evolves_trans sends_trans by blast

lemma steady_log [simp]: "loggable e \<Longrightarrow> steady ok w (log_event e w)"
  by (simp add: steady_def)

lemma steady_write: "write_bytes b w = (e, w1) \<Longrightarrow> steady (e = None) w w1"
  unfolding steady_def using evolves_write sends_write by blast

lemma steady_sendOpReply: "sendOpReply order to doc w = (e, w1) \<Longrightarrow> steady (e = None) w w1"
  unfolding sendOpReply_def Let_def by (rule steady_write)

lemma steady_sendOpMsgReply: "sendOpMsgReply order to doc w = (e, w1) \<Longrightarrow> steady (e = None) w w1"
  unfolding sendOpMsgReply_def Let_def by (rule steady_write)

lemma handleOpQuery_steady: "\<exists>e w1. handleOpQuery E hdr payload w = Some (e, w1) \<and> steady (e = None) w w1"
proof (cases "length payload < 4")
  case False
  then have f: "go_from payload 4 = Some (drop 4 payload)" by (simp add: go_from_def)
  show ?thesis
  proof (cases "indexByte (drop 4 payload) NUL")
    case None
    then show ?thesis using False f by (simp add: handleOpQuery_def)
  next
    case (Some i)
    let ?rest = "drop (4 + i + 1 + 8) payload"
    have s: "go_slice payload 4 (4 + i) = Some (take i (drop 4 payload))"
      using indexByte_less [OF Some] by (simp add: go_slice_def)
    obtain r where r: "parseBSONDoc ?rest = Some r" using parseBSONDoc_total by blast
    have k: "\<exists>e w1. sendOpReply ord to d (log_event (mongo_event src u c p) w) = (e, w1) \<and> steady (e = None) w w1"
      for ord to d src u c p
      using steady_trans [OF steady_log [OF loggable_mongo_event] steady_sendOpReply] by (metis surj_pair)
    show ?thesis using False f Some s r
      by (auto simp: handleOpQuery_def Let_def go_from_def k)
  qed
qed (simp add: handleOpQuery_def)

lemma handleOpMsg_steady: "\<exists>e w1. handleOpMsg E hdr payload w = Some (e, w1) \<and> steady (e = None) w w1"
proof (cases "length payload < 4")
  case False
  obtain c d where s: "mongo_sections (env_tables E) payload 4 [] None = Some (c, d)"
    using mongo_sections_total by (metis surj_pair)
  have k: "\<exists>e w2. sendOpMsgReply ord to x w1 = (e, w2) \<and> steady (e = None) w w2" if "steady True w w1" for ord to x w1
    using steady_trans [OF that steady_sendOpMsgReply] by (metis surj_pair)
  have l: "steady ok w (log_event ev' (log_event ev w))" if "loggable ev" "loggable ev'" for ok ev ev'
    using that steady_trans [OF steady_log steady_log] by blast
  show ?thesis using False s
    by (auto simp: handleOpMsg_def Let_def l split: option.split intro!: k)
qed (simp add: handleOpMsg_def)

section \<open>The session\<close>

lemma mongo_step_spec:
  obtains (stop) "ctx_Done w" "mongo_step E w = Return w"
  | (err) e w1 where "\<not> ctx_Done w" "mongo_readMessage w = (Inl e, w1)" "mongo_step E w = Return w1"
  | (msg) m w1 w2 where "\<not> ctx_Done w" "mongo_readMessage w = (Inr m, w1)" "steady (mongo_step E w = Continue w2) (set_read_deadline 60 w1) w2"
      "mongo_step E w = Continue w2 \<or> mongo_step E w = Return w2"
proof (cases "ctx_Done w")
  case True
  then show thesis using stop by (simp add: mongo_step_def)
next
  case False
  obtain r w1 where r: "mongo_readMessage w = (r, w1)" by fastforce
  show thesis
  proof (cases r)
    case (Inl e)
    then show thesis using False r err by (simp add: mongo_step_def)
  next
    case (Inr m)
    obtain hdr payload where m: "m = (hdr, payload)" by fastforce
    let ?w = "set_read_deadline 60 w1"
    obtain e2 w2 where q: "handleOpQuery E hdr payload ?w = Some (e2, w2)" "steady (e2 = None) ?w w2"
      using handleOpQuery_steady by blast
    obtain e3 w3 where g: "handleOpMsg E hdr payload ?w = Some (e3, w3)" "steady (e3 = None) ?w w3"
      using handleOpMsg_steady by blast
    have "\<exists>w2. steady (mongo_step E w = Continue w2) ?w w2 \<and> (mongo_step E w = Continue w2 \<or> mongo_step E w = Return w2)"
      using False r Inr m q g by (auto simp: mongo_step_def mongo_outcome_def Let_def split: option.split)
    then show thesis using r Inr msg False by blast
  qed
qed

lemma mongo_step_progress:
  assumes "mongo_step E w = Continue w'"
  shows "length (incoming (wconn w')) < length (incoming (wconn w))"
proof (cases rule: mongo_step_spec [of w E])
  case (msg m w1 w2)
  then have "evolves (set_read_deadline 60 w1) w'" using assms by (auto simp: steady_def)
  from evolves_incoming [OF this] mongo_readMessage_Inr(1) [OF msg(2)] show ?thesis by simp
qed (use assms in simp_all)

function mongo_loop :: "mongo_env \<Rightarrow> world \<Rightarrow> world option" where
  "mongo_loop E w =
    (case mongo_step E w of
       Continue w' \<Rightarrow> mongo_loop E w'
     | Return w' \<Rightarrow> Some w'
     | Crash \<Rightarrow> None)"
  by pat_completeness auto
termination
  by (relation "measure (\<lambda>(E, w). length (incoming (wconn w)))") (auto dest: mongo_step_progress)

declare mongo_loop.simps [simp del]

definition mongo_Handler ::
  "unicode_tables \<Rightarrow> (bytes list \<Rightarrow> bytes list) \<Rightarrow> FP \<Rightarrow> bytes \<Rightarrow> world \<Rightarrow> world option" where
  "mongo_Handler U order fp version w =
    mongo_loop \<lparr>env_tables = U, env_order = order, env_fp = fp, env_version = version, env_src = peer w\<rparr>
      (set_read_deadline 60 w)"

interpretation mongo: session_loop "mongo_step E" "mongo_loop E" "\<lambda>w. length (incoming (wconn w))" for E
  by unfold_locales (rule mongo_loop.simps, rule mongo_step_progress)

lemma mongo_step_evolves: "mongo_step E w = Continue w' \<or> mongo_step E w = Return w' \<Longrightarrow> evolves w w'"
proof (cases rule: mongo_step_spec [of w E])
  case (msg m w1 w2)
  assume "mongo_step E w = Continue w' \<or> mongo_step E w = Return w'"
  then show ?thesis using msg evolves_mongo_readMessage [OF msg(2)] evolves_deadline evolves_trans
    unfolding steady_def by (metis ctl.distinct(1) ctl.inject)
qed (auto dest: evolves_mongo_readMessage)

lemma mongo_step_round:
  "mongo_step E w = Continue w' \<Longrightarrow> goes_on w w'" "mongo_step E w = Return w' \<Longrightarrow> gives_up w w'"
proof -
  have "(mongo_step E w = Continue w' \<longrightarrow> goes_on w w') \<and> (mongo_step E w = Return w' \<longrightarrow> gives_up w w')"
  proof (cases rule: mongo_step_spec [of w E])
    case (err e w1)
    then show ?thesis using round_reads(1) [OF err(1) mongo_readMessage_paced [OF err(2)]] by auto
  next
    case (msg m w1 w2)
    have "goes_on w (set_read_deadline 60 w1)"
      using round_reads(2) [OF msg(1) mongo_readMessage_paced [OF msg(2)]] goes_on_deadline by simp
    moreover have "sends (mongo_step E w = Continue w2) (set_read_deadline 60 w1) w2" using msg(3) by (simp add: steady_def)
    ultimately have "gives_up w w2" "mongo_step E w = Continue w2 \<Longrightarrow> goes_on w w2" using goes_on_sends by blast+
    then show ?thesis using msg(4) by auto
  qed (simp add: gives_up_now)
  then show "mongo_step E w = Continue w' \<Longrightarrow> goes_on w w'" "mongo_step E w = Return w' \<Longrightarrow> gives_up w w'"
    by blast+
qed

lemma mongo_Handler_facts:
  "\<exists>w'. mongo_Handler U order fp version w = Some w' \<and> evolves w w' \<and> (settled T w \<longrightarrow> expired T w')"
proof -
  let ?E = "\<lparr>env_tables = U, env_order = order, env_fp = fp, env_version = version, env_src = peer w\<rparr>"
  let ?w = "set_read_deadline 60 w"
  have nc: "mongo_step E v \<noteq> Crash" for E v by (cases rule: mongo_step_spec [of v E]) auto
  obtain w' where w': "mongo_loop ?E ?w = Some w'"
    using mongo.run_returns [where I = "\<lambda>_. True"] nc by blast
  have "evolves ?w w'"
    using w' by (rule mongo.run_related) (auto intro: evolves_trans mongo_step_evolves)
  moreover have "expired T w'" if "settled T w"
    using w' reading_watched [OF settled_deadline [OF that, of 60] order_refl]
    by (rule mongo.run_invariant) (use mongo_step_round in \<open>auto simp: goes_on_def gives_up_def\<close>)
  ultimately show ?thesis using w' evolves_deadline evolves_trans unfolding mongo_Handler_def by blast
qed

interpretation mongo_handler: protocol_handler "mongo_Handler U order fp version" "\<lambda>w. True" for U order fp version
  by unfold_locales (use mongo_Handler_facts in blast)+


section \<open>What is captured and answered\<close>

lemma bsonFirstKey_entries:
  assumes "NUL \<notin> set k" "length (bson_wrap (map (bson_entry order) ((k, v) # kvs))) < 2 ^ 32"
  shows "bsonFirstKey U (bson_wrap (map (bson_entry order) ((k, v) # kvs)) @ rest) = Some (ToLower U k)"
proof -
  let ?d = "bson_wrap (map (bson_entry order) ((k, v) # kvs)) @ rest"
  let ?n = "5 + length (concat (map (bson_entry order) ((k, v) # kvs)))"
  let ?t = "bson_payload order v @ concat (map (bson_entry order) kvs) @ [NUL] @ rest"
  have n: "?n < 2 ^ 32" using assms(2) unfolding bson_wrap_length .
  have d: "?d = le_bytes 4 ?n @ (bson_type v # k @ NUL # ?t)"
    unfolding bson_wrap_split by (simp add: bson_elem_def)
  have l: "le_uint32 ?d = Some ?n" unfolding d using n by (rule le_uint32_le_bytes)
  have len: "length ?d = ?n + length rest" by (simp add: bson_wrap_length)
  have f: "go_from ?d 5 = Some (k @ NUL # ?t)"
    unfolding go_from_def d by simp
  have s: "go_slice ?d 5 (5 + length k) = Some k"
    unfolding go_slice_def d by simp
  have i: "indexByte (k @ NUL # ?t) NUL = Some (length k)" using assms(1) by simp
  have b: "\<not> length ?d < 5" "\<not> ?n < 5" "\<not> ?n > length ?d" "\<not> 4 \<ge> ?n" "\<not> 5 + length k \<ge> ?n"
    unfolding len by (simp_all add: bson_elem_def)
  show ?thesis unfolding bsonFirstKey_def using b
    by (simp only: l f s i bind.bind_lunit if_False option.case HOL.simp_thms)
qed

lemma mongo_sections_body:
  assumes "length flags = 4" "\<forall>kv \<in> set ((k, v) # kvs). NUL \<notin> set (fst kv)"
    and "length (bson_wrap (map (bson_entry order) ((k, v) # kvs))) \<le> maxBSONDoc"
  shows "mongo_sections U (flags @ NUL # bson_wrap (map (bson_entry order) ((k, v) # kvs))) 4 c d
    = Some (ToLower U k, Some (concat (map entry_read ((k, v) # kvs))))"
proof -
  let ?b = "bson_wrap (map (bson_entry order) ((k, v) # kvs))" and ?p = "flags @ NUL # bson_wrap (map (bson_entry order) ((k, v) # kvs))"
  have i: "go_index ?p 4 = Some NUL" "go_from ?p (4 + 1) = Some ?b" "\<not> length ?p \<le> 4"
    using assms(1) by (simp_all add: go_index_def go_from_def nth_append)
  have k: "bsonFirstKey U ?b = Some (ToLower U k)"
    using bsonFirstKey_entries [of k order v kvs U "[]"] assms(2,3) unfolding maxBSONDoc_def by simp
  have p: "parseBSONDoc ?b = Some (Some (concat (map entry_read ((k, v) # kvs)), length ?b))"
    using parseBSONDoc_wrap [OF assms(2,3), of "[]"] by simp
  have "mongo_sections U ?p (4 + 1 + length ?b) (ToLower U k) (Some (concat (map entry_read ((k, v) # kvs))))
      = Some (ToLower U k, Some (concat (map entry_read ((k, v) # kvs))))"
    by (subst mongo_sections.simps) (simp add: assms(1))
  then show ?thesis by (subst mongo_sections.simps) (simp only: i k p bind.bind_lunit option.case prod.case if_True if_False HOL.simp_thms)
qed

lemma encodeBSON_id: "encodeBSON id kvs = bson_wrap (map (bson_entry id) kvs)"
  by (simp add: encodeBSON_def)

text \<open>A reply as a message.\<close>

definition reply_message :: "(bytes list \<Rightarrow> bytes list) \<Rightarrow> 32 word \<Rightarrow> gdoc \<Rightarrow> msgHeader \<times> bytes" where
  "reply_message order rid doc =
    (\<lparr>MessageLength = word_of_nat (21 + length (encodeBSON order doc)), RequestID = 0, ResponseTo = rid, OpCode = opMsg\<rparr>,
     le_bytes 4 0 @ NUL # encodeBSON order doc)"

lemma word_bytes_of_nat: "word_bytes (word_of_nat n) = le_bytes 4 n"
proof -
  have "n mod 256 ^ 4 = unat (word_of_nat n :: 32 word)" by (simp add: unat_of_nat)
  then have "le_bytes 4 (unat (word_of_nat n :: 32 word)) = le_bytes 4 (le_nat (le_bytes 4 n))"
    by (simp only: le_nat_le_bytes)
  also have "\<dots> = le_bytes 4 n" using le_bytes_le_nat [of "le_bytes 4 n"] by simp
  finally show ?thesis by (simp add: word_bytes_def)
qed

lemma sendOpMsgReply_message: "sendOpMsgReply order rid doc = write_bytes (mongo_bytes (reply_message order rid doc))"
proof -
  have "word_bytes 0 = le_bytes 4 0" by (simp add: word_bytes_def)
  then show ?thesis
    unfolding sendOpMsgReply_def reply_message_def mongo_bytes_def fst_conv snd_conv Let_def msgHeader.simps word_bytes_of_nat
    by (simp add: fun_eq_iff)
qed

lemma reply_message_valid:
  assumes "length (encodeBSON order doc) \<le> maxBSONDoc"
  shows "mongo_valid (reply_message order rid doc)"
proof -
  let ?n = "21 + length (encodeBSON order doc)"
  have n: "?n < 2 ^ 31" using assms by (simp add: maxBSONDoc_def)
  then have "sint (word_of_nat ?n :: 32 word) = int ?n"
    unfolding signed_of_nat of_int_eq_id id_apply by (intro signed_take_bit_int_eq_self) simp_all
  then show ?thesis using assms by (simp add: mongo_valid_def reply_message_def maxMsgSize_def maxBSONDoc_def)
qed


definition after_msg :: "msgHeader \<times> bytes \<Rightarrow> world \<Rightarrow> world" where
  "after_msg m w = set_read_deadline 60 (w\<lparr>wconn := consume (length (mongo_bytes m)) (wconn w)\<rparr>)"

lemma after_msg_simps [simp]:
  "wstore (after_msg m w) = wstore w" "out (wconn (after_msg m w)) = out (wconn w)"
  "incoming (wconn (after_msg m w)) = drop (length (mongo_bytes m)) (incoming (wconn w))"
  "rd_deadline (wconn (after_msg m w)) = Some (now (after_msg m w) + 60 * second)"
  "wr_cap (wconn (after_msg m w)) = wr_cap (wconn w)" "wr_deadline (wconn (after_msg m w)) = wr_deadline (wconn w)"
  by (simp_all add: after_msg_def set_read_deadline_def SetReadDeadline_def now_def)

lemma mongo_step_opMsg:
  assumes "\<not> ctx_Done w" "mongo_valid (hdr, p)" "readable (wconn w) = mongo_bytes (hdr, p) @ rest" "OpCode hdr = opMsg"
  shows "mongo_step E w = mongo_outcome (handleOpMsg E hdr p (after_msg (hdr, p) w))"
  using assms mongo_readMessage_bytes [OF assms(2,3)]
  by (simp add: mongo_step_def after_msg_def opMsg_def opQuery_def)

text \<open>The user a document of an authentication command names.\<close>

definition auth_events :: "mongo_env \<Rightarrow> bytes \<Rightarrow> gval option \<Rightarrow> Event list" where
  "auth_events E command user =
    (if command \<in> {''saslstart'', ''saslcontinue'', ''authenticate''} then
       (case Option.bind user gval_read of Some (GString u) \<Rightarrow> [mongo_event (env_src E) u (''AUTH '' @ command) []] | _ \<Rightarrow> [])
     else [])"

lemma extractString_read:
  assumes "doc_lookup doc x = Option.bind u gval_read"
  shows "extractString (Some doc) x = (case Option.bind u gval_read of Some (GString s) \<Rightarrow> Some s | _ \<Rightarrow> None)"
  using assms by (simp add: extractString_def)

lemma log_auth_events:
  assumes "doc_lookup doc ''user'' = Option.bind u gval_read"
  shows "(if command = ''saslstart'' \<or> command = ''saslcontinue'' \<or> command = ''authenticate'' then
            (case extractString (Some doc) ''user'' of
               Some user \<Rightarrow> log_event (mongo_event (env_src E) user (''AUTH '' @ command) []) w
             | None \<Rightarrow> w)
          else w) = w\<lparr>wstore := fold (Log (now w)) (auth_events E command u) (wstore w)\<rparr>"
proof (cases "Option.bind u gval_read")
  case (Some v)
  then show ?thesis unfolding extractString_read [OF assms]
    by (cases v) (simp_all add: auth_events_def log_event_def)
qed (simp add: extractString_read [OF assms] auth_events_def)

text \<open>A command is captured and answered: an OP_MSG with one body section makes one log entry with the
  lower-cased name of the command, which is the first key on the wire, and the first 2048 bytes of the
  document as JSON; an authentication command that names a user makes a second entry under that user;
  the reply is one message that answers the request, and the read deadline is renewed.\<close>

theorem mongo_command_captured:
  assumes "\<not> ctx_Done w" "readable (wconn w) = mongo_bytes (hdr, flags @ NUL # encodeBSON id ((k, v) # kvs)) @ rest"
    and "mongo_valid (hdr, flags @ NUL # encodeBSON id ((k, v) # kvs))" "OpCode hdr = opMsg" "length flags = 4"
    and "doc_keys_ok ((k, v) # kvs)" "length (encodeBSON id ((k, v) # kvs)) \<le> maxBSONDoc"
    and "wr_open (consume (length (mongo_bytes (hdr, flags @ NUL # encodeBSON id ((k, v) # kvs)))) (wconn w))"
  shows "\<exists>w' doc. mongo_step E w = Continue w' \<and> doc = concat (map entry_read ((k, v) # kvs))
    \<and> (\<forall>x. doc_lookup doc x = Option.bind (map_of ((k, v) # kvs) x) gval_read)
    \<and> wstore w' = fold (Log (now w'))
        (mongo_event (env_src E) [] (''OP_MSG '' @ mongo_sanitize (ToLower (env_tables E) k))
           (take 2048 (mongo_jsonMarshal (Some doc)))
         # auth_events E (ToLower (env_tables E) k) (map_of ((k, v) # kvs) ''user'')) (wstore w)
    \<and> out (wconn w') = out (wconn w) @ mongo_bytes (reply_message (env_order E) (RequestID hdr)
        (mongo_reply_doc E (now w') (ToLower (env_tables E) k)))
    \<and> rd_deadline (wconn w') = Some (now w' + 60 * second)"
proof -
  let ?p = "flags @ NUL # encodeBSON id ((k, v) # kvs)" and ?c = "ToLower (env_tables E) k"
  let ?doc = "concat (map entry_read ((k, v) # kvs))" and ?u = "map_of ((k, v) # kvs) ''user''"
  let ?w = "after_msg (hdr, ?p) w"
  let ?cmd = "mongo_event (env_src E) [] (''OP_MSG '' @ mongo_sanitize ?c) (go_truncate (mongo_jsonMarshal (Some ?doc)) 2048)"
  have nul: "\<forall>kv \<in> set ((k, v) # kvs). NUL \<notin> set (fst kv)"
    using assms(6) unfolding doc_keys_ok_def list_all_iff by blast
  have look: "doc_lookup ?doc x = Option.bind (map_of ((k, v) # kvs) x) gval_read" for x
    using assms(6) by (intro parsed_lookup) (simp add: doc_keys_ok_def)
  have sec: "mongo_sections (env_tables E) ?p 4 [] None = Some (?c, Some ?doc)"
    unfolding encodeBSON_id by (rule mongo_sections_body [OF assms(5) nul assms(7) [unfolded encodeBSON_id]])
  let ?wl = "(log_event ?cmd ?w)\<lparr>wstore := fold (Log (now ?w)) (auth_events E ?c ?u) (wstore (log_event ?cmd ?w))\<rparr>"
  let ?reply = "mongo_bytes (reply_message (env_order E) (RequestID hdr) (mongo_reply_doc E (now ?w) ?c))"
  let ?w' = "?wl\<lparr>wconn := (wconn ?wl)\<lparr>out := out (wconn ?wl) @ ?reply\<rparr>\<rparr>"
  have now: "now ?wl = now ?w" by (simp add: now_def)
  have "write_bytes ?reply ?wl = (None, ?w')"
    using assms(8) by (intro write_wr_open) (simp add: after_msg_def set_read_deadline_def SetReadDeadline_def)
  then have "handleOpMsg E hdr ?p ?w = Some (None, ?w')"
    unfolding handleOpMsg_def sec bind.bind_lunit prod.case Let_def log_auth_events [OF look [of "''user''"]]
      sendOpMsgReply_message log_event_simps(5) now
    using assms(5) by simp
  then have "mongo_step E w = Continue ?w'"
    using mongo_step_opMsg [OF assms(1,3,2,4)] by (simp add: mongo_outcome_def)
  then show ?thesis using look
    by (intro exI [of _ ?w'] exI [of _ ?doc]) (simp add: now_def go_truncate_eq_take)
qed


definition sample_env :: mongo_env where
  "sample_env = \<lparr>env_tables = \<lparr>upper_tab = id, lower_tab = id\<rparr>, env_order = id,
     env_fp = \<lparr>RedisRunID = [], RedisMasterReplID = [], RedisProcessID = 0, RedisSaveEpoch = 0, MySQLStartupTime = 0,
       MongoClusterID = [], MongoNodeID = [], MongoPID = 0, ESNodeUUID = [], ESBuildHash = [], ESHostname = [], ESPID = 0,
       ESMACAddress = [], StartTime = 0\<rparr>, env_version = ''7.0.8'', env_src = (''10.0.0.1'', 4000)\<rparr>"

definition sample_auth :: "msgHeader \<times> bytes" where
  "sample_auth = (\<lparr>MessageLength = 56, RequestID = 7, ResponseTo = 0, OpCode = opMsg\<rparr>,
     replicate 4 NUL @ NUL # encodeBSON id [(''saslStart'', GInt 1), (''user'', GString ''root'')])"

theorem mongo_command_captured_witness:
  "\<exists>w' doc. mongo_step sample_env (quiet_world [] (mongo_bytes sample_auth)) = Continue w'
    \<and> wstore w' = fold (Log (now w')) [mongo_event (''10.0.0.1'', 4000) [] ''OP_MSG saslstart'' (take 2048 (mongo_jsonMarshal (Some doc))),
         mongo_event (''10.0.0.1'', 4000) ''root'' ''AUTH saslstart'' []] (wstore (quiet_world [] []))"
proof -
  let ?w = "quiet_world [] (mongo_bytes sample_auth)"
  let ?hdr = "\<lparr>MessageLength = 56, RequestID = 7, ResponseTo = 0, OpCode = opMsg\<rparr>"
  let ?kvs = "[(''user'', GString ''root'')]"
  let ?p = "replicate 4 NUL @ NUL # encodeBSON id ((''saslStart'', GInt 1) # ?kvs)"
  have len: "length (encodeBSON id ((''saslStart'', GInt 1) # ?kvs)) = 35"
    by (simp add: encodeBSON_id bson_wrap_length bson_elem_def bson_string_def)
  have c: "ToLower (env_tables sample_env) ''saslStart'' = ''saslstart''" by code_simp
  have s: "mongo_sanitize ''saslstart'' = ''saslstart''" by code_simp
  have h: "\<not> ctx_Done ?w" "readable (wconn ?w) = mongo_bytes (?hdr, ?p) @ []" "OpCode ?hdr = opMsg"
      "length (replicate 4 NUL) = 4"
    by (simp_all add: sample_auth_def) (simp_all add: ctx_Done_def quiet_world_def quiet_conn_def)
  have o: "wr_open (consume (length (mongo_bytes (?hdr, ?p))) (wconn ?w))" by (rule wr_open_consume_quiet)
  have v: "mongo_valid (?hdr, ?p)" "length (encodeBSON id ((''saslStart'', GInt 1) # ?kvs)) \<le> maxBSONDoc"
    unfolding mongo_valid_def len by (simp_all add: len maxMsgSize_def maxBSONDoc_def)
  have k: "doc_keys_ok ((''saslStart'', GInt 1) # ?kvs)" by (simp add: doc_keys_ok_def)
  have src: "env_src sample_env = (''10.0.0.1'', 4000)" by (simp add: sample_env_def)
  obtain w' doc where "mongo_step sample_env ?w = Continue w'"
    "wstore w' = fold (Log (now w'))
        (mongo_event (env_src sample_env) [] (''OP_MSG '' @ mongo_sanitize ''saslstart'')
           (take 2048 (mongo_jsonMarshal (Some doc)))
         # auth_events sample_env ''saslstart'' (Some (GString ''root''))) (wstore ?w)"
    using mongo_command_captured [OF h(1,2) v(1) h(3,4) k v(2) o, of sample_env] unfolding c by auto
  then show ?thesis unfolding s src auth_events_def
    by (intro exI [of _ w'] exI [of _ doc]) (simp add: src quiet_world_def)
qed

text \<open>C24. Every OP_MSG reply is a message of the protocol it speaks, in whatever order Go visits the
  document: its length field is right, it answers the request, and the program's own section parser
  reads back exactly the fields of the reply document.\<close>

theorem mongo_reply_readable:
  assumes "visits_all (env_order E)" "wr_open (wconn w)"
    and "length (encodeBSON (env_order E) (mongo_reply_doc E t command)) \<le> maxBSONDoc"
  shows "\<exists>m doc. sendOpMsgReply (env_order E) rid (mongo_reply_doc E t command) w
      = (None, w\<lparr>wconn := (wconn w)\<lparr>out := out (wconn w) @ mongo_bytes m\<rparr>\<rparr>)
    \<and> mongo_valid m \<and> ResponseTo (fst m) = rid \<and> OpCode (fst m) = opMsg
    \<and> (\<exists>key. mongo_sections U (snd m) 4 [] None = Some (key, Some doc))
    \<and> (\<forall>x. doc_lookup doc x = Option.bind (map_of (mongo_reply_doc E t command) x) gval_read)"
proof -
  let ?d = "mongo_reply_doc E t command" and ?m = "reply_message (env_order E) rid (mongo_reply_doc E t command)"
  have ok: "doc_keys_ok ?d"
    by (simp add: mongo_reply_doc_def buildIsMasterDoc_def buildInfoDoc_def doc_keys_ok_def)
  obtain kvs where kvs: "mset kvs = mset ?d" "encodeBSON (env_order E) ?d = bson_wrap (map (bson_entry (env_order E)) kvs)"
    using encodeBSON_entries [OF assms(1)] by blast
  note ok' = doc_keys_ok_mset [OF kvs(1) [symmetric] ok]
  have "?d \<noteq> []" by (simp add: mongo_reply_doc_def buildIsMasterDoc_def buildInfoDoc_def)
  then obtain k v kvs' where c: "kvs = (k, v) # kvs'" using kvs(1) by (cases kvs) auto
  have nul: "\<forall>kv \<in> set kvs. NUL \<notin> set (fst kv)" using ok' unfolding doc_keys_ok_def list_all_iff by blast
  have "mongo_sections U (le_bytes 4 0 @ NUL # bson_wrap (map (bson_entry (env_order E)) kvs)) 4 [] None
      = Some (ToLower U k, Some (concat (map entry_read kvs)))"
    unfolding c using nul assms(3) kvs(2) c by (intro mongo_sections_body) simp_all
  then have s: "mongo_sections U (snd ?m) 4 [] None = Some (ToLower U k, Some (concat (map entry_read kvs)))"
    by (simp only: reply_message_def snd_conv kvs(2))
  have "doc_lookup (concat (map entry_read kvs)) x = Option.bind (map_of ?d x) gval_read" for x
    using ok' map_of_mset [OF kvs(1)] by (simp add: parsed_lookup doc_keys_ok_def)
  moreover have "ResponseTo (fst ?m) = rid" "OpCode (fst ?m) = opMsg" by (simp_all add: reply_message_def)
  ultimately show ?thesis
    using s reply_message_valid [OF assms(3), of rid] write_wr_open [OF assms(2)]
    unfolding sendOpMsgReply_message by blast
qed


theorem mongo_reply_readable_witness:
  "\<exists>m doc. sendOpMsgReply id 7 (mongo_reply_doc sample_env 0 ''ping'') (quiet_world [] [])
      = (None, (quiet_world [] [])\<lparr>wconn := (wconn (quiet_world [] []))\<lparr>out := mongo_bytes m\<rparr>\<rparr>)
    \<and> ResponseTo (fst m) = 7 \<and> (\<exists>key. mongo_sections (env_tables sample_env) (snd m) 4 [] None = Some (key, Some doc))
    \<and> doc_lookup doc ''ok'' = Some (GInt32 1)"
proof -
  have d: "mongo_reply_doc sample_env 0 ''ping'' = [(''ok'', GInt 1)]" by (simp add: mongo_reply_doc_def)
  have "length (encodeBSON id [(''ok'', GInt 1)]) = 13" by (simp add: encodeBSON_id bson_wrap_length bson_elem_def)
  then have "length (encodeBSON (env_order sample_env) (mongo_reply_doc sample_env 0 ''ping'')) \<le> maxBSONDoc"
    unfolding d by (simp add: maxBSONDoc_def sample_env_def)
  moreover have "visits_all (env_order sample_env)" by (simp add: sample_env_def)
  ultimately obtain m doc where m: "sendOpMsgReply (env_order sample_env) 7 (mongo_reply_doc sample_env 0 ''ping'') (quiet_world [] [])
      = (None, (quiet_world [] [])\<lparr>wconn := (wconn (quiet_world [] []))\<lparr>out := out (wconn (quiet_world [] [])) @ mongo_bytes m\<rparr>\<rparr>)"
      "ResponseTo (fst m) = 7" "\<exists>key. mongo_sections (env_tables sample_env) (snd m) 4 [] None = Some (key, Some doc)"
      "\<forall>x. doc_lookup doc x = Option.bind (map_of (mongo_reply_doc sample_env 0 ''ping'') x) gval_read"
    using mongo_reply_readable [of sample_env "quiet_world [] []" 0 "''ping''" 7 "env_tables sample_env"] by auto
  then have "doc_lookup doc ''ok'' = Some (GInt32 1)" by (simp add: d)
  moreover have "out (wconn (quiet_world [] [])) = []" by (simp add: quiet_world_def quiet_conn_def)
  moreover have "env_order sample_env = id" by (simp add: sample_env_def)
  ultimately show ?thesis using m(1-3) by (intro exI [of _ m] exI [of _ doc]) simp
qed

text \<open>Messages survive the wire: any sequence of messages of at most 48 MB whose length fields are
  right, sent back to back, is read back as the same sequence, with what follows left unread.\<close>

theorem mongo_message_stream_roundtrip:
  assumes "list_all mongo_valid ms" "readable (wconn w) = concat (map mongo_bytes ms) @ rest"
  shows "fst (read_msgs mongo_readMessage (length ms) w) = ms
    \<and> readable (wconn (snd (read_msgs mongo_readMessage (length ms) w))) = rest"
  using assms by (intro mongo_messages.read_stream) (simp_all add: list_all_iff)

theorem mongo_message_stream_roundtrip_witness:
  "fst (read_msgs mongo_readMessage 1 (quiet_world [] (mongo_bytes
      (\<lparr>MessageLength = 18, RequestID = 7, ResponseTo = -1, OpCode = opUpdate\<rparr>, ''ab'') @ ''z'')))
    = [(\<lparr>MessageLength = 18, RequestID = 7, ResponseTo = -1, OpCode = opUpdate\<rparr>, ''ab'')]"
proof -
  let ?m = "(\<lparr>MessageLength = 18, RequestID = 7, ResponseTo = -1, OpCode = opUpdate\<rparr>, ''ab'')"
  have "list_all mongo_valid [?m]" by (simp add: mongo_valid_def maxMsgSize_def)
  from mongo_message_stream_roundtrip [OF this, of "quiet_world [] (mongo_bytes ?m @ ''z'')" "''z''"]
  show ?thesis by simp
qed

text \<open>C12. Whatever a MongoDB client sends, the handler comes to an end without a crash; the log and the
  output only grow; and if the client is silent from time \<open>T\<close> on, or the context is cancelled by then,
  the handler is gone sixty seconds later and never blocks for good. A client that stops taking data holds the handler until the
  connection's write deadline, which therefore has to be over by then as well.\<close>

theorem mongo_Handler_terminates_cleanly:
  assumes "settled T w"
  shows "\<exists>w'. mongo_Handler U order fp version w = Some w' \<and> evolves w w'
    \<and> now w' \<le> T + 60 * second \<and> \<not> hung (wconn w')"
  using mongo_Handler_facts [of U order fp version w T] assms by (auto simp: expired_def)

theorem mongo_Handler_terminates_cleanly_witness:
  "\<exists>w'. mongo_Handler (env_tables sample_env) rev (env_fp sample_env) ''7'' (quiet_world [] ''junk'') = Some w'
     \<and> now w' \<le> 60 * second"
proof -
  have "settled 0 (quiet_world [] ''junk'')" by simp
  from mongo_Handler_terminates_cleanly [OF this, of "env_tables sample_env" rev "env_fp sample_env" "''7''"]
  show ?thesis by auto
qed

end
