(* ===== verification/Mysql.thy ===== *)
theory Mysql
  imports Fingerprint Server
begin

text \<open>
  \<^verbatim>\<open>internal/proto/mysql\<close>: the packet layer, the greeting, the parser of the handshake response
  and the command loop.

  The greeting is written the way the code writes it, by stores at a running position into a
  zeroed buffer (\<open>put_at\<close>, \<open>set_at\<close>), each of which panics out of range. Sequence numbers are
  bytes that wrap around. \<^verbatim>\<open>int\<close> is 64 bits wide, so positions and lengths never overflow and are
  natural numbers.
\<close>

section \<open>Constants\<close>

definition maxPacketSize :: nat where "maxPacketSize = 16 * 1024 * 1024 - 1"
definition capLongPwd :: nat where "capLongPwd = 0x00000001"
definition capConnWithDB :: nat where "capConnWithDB = 0x00000008"
definition capSecureConn :: nat where "capSecureConn = 0x00008000"
definition capPluginAuth :: nat where "capPluginAuth = 0x00080000"
definition serverCaps :: nat where
  "serverCaps = capLongPwd OR capConnWithDB OR capSecureConn OR capPluginAuth"

section \<open>Packets\<close>

definition packet_size :: "bytes \<Rightarrow> nat" where
  "packet_size hdr = of_char (hdr ! 0) OR push_bit 8 (of_char (hdr ! 1)) OR push_bit 16 (of_char (hdr ! 2))"

definition mysql_readPacket :: "('a) world_scheme \<Rightarrow> (goerr + 8 word \<times> bytes) \<times> ('a) world_scheme" where
  "mysql_readPacket w =
    (case read_full 4 w of
       (Inl e, w1) \<Rightarrow> (Inl e, w1)
     | (Inr hdr, w1) \<Rightarrow>
         let size = packet_size hdr; seq = of_char (hdr ! 3) in
         if size > maxPacketSize then (Inl (ErrorS ''packet too large''), w1)
         else if size = 0 then (Inr (seq, []), w1)
         else case read_full size w1 of
                (Inl e, w2) \<Rightarrow> (Inl e, w2)
              | (Inr payload, w2) \<Rightarrow> (Inr (seq, payload), w2))"

definition packet_header :: "8 word \<Rightarrow> nat \<Rightarrow> bytes" where
  "packet_header seq n = [char_of n, char_of (drop_bit 8 n), char_of (drop_bit 16 n), char_of (unat seq)]"

definition mysql_writePacket :: "8 word \<Rightarrow> bytes \<Rightarrow> ('a) world_scheme \<Rightarrow> goerr option \<times> ('a) world_scheme" where
  "mysql_writePacket seq payload w =
    (case write_bytes (packet_header seq (length payload)) w of
       (Some e, w1) \<Rightarrow> (Some e, w1)
     | (None, w1) \<Rightarrow> write_bytes payload w1)"

definition mysql_sendOK :: "8 word \<Rightarrow> ('a) world_scheme \<Rightarrow> goerr option \<times> ('a) world_scheme" where
  "mysql_sendOK seq w =
    mysql_writePacket seq [CHR 0x00, CHR 0x00, CHR 0x00, CHR 0x02, CHR 0x00, CHR 0x00, CHR 0x00] w"

definition mysql_sendEmptyResultSet :: "8 word \<Rightarrow> ('a) world_scheme \<Rightarrow> goerr option \<times> ('a) world_scheme" where
  "mysql_sendEmptyResultSet seq w =
    (case mysql_writePacket seq [CHR 0x00] w of
       (Some e, w1) \<Rightarrow> (Some e, w1)
     | (None, w1) \<Rightarrow> mysql_writePacket (seq + 1) [CHR 0xFE, CHR 0x00, CHR 0x00, CHR 0x02, CHR 0x00] w1)"

section \<open>The greeting\<close>

text \<open>\<^verbatim>\<open>copy(p[pos:], src)\<close>, \<^verbatim>\<open>p[pos] = b\<close> and \<^verbatim>\<open>PutUint32(p[pos:], n)\<close>.\<close>

definition put_at :: "nat \<Rightarrow> bytes \<Rightarrow> bytes \<Rightarrow> bytes option" where
  "put_at pos src p =
    (if pos \<le> length p then Some (take pos p @ take (length p - pos) src @ drop (pos + length src) p) else None)"

definition set_at :: "nat \<Rightarrow> char \<Rightarrow> bytes \<Rightarrow> bytes option" where
  "set_at pos b p = (if pos < length p then Some (p[pos := b]) else None)"

definition put_uint32 :: "nat \<Rightarrow> nat \<Rightarrow> bytes \<Rightarrow> bytes option" where
  "put_uint32 pos n p = (if pos + 4 \<le> length p then put_at pos (le_bytes 4 n) p else None)"

definition native_plugin :: bytes where "native_plugin = ''mysql_native_password''"

definition greeting_packet :: "bytes \<Rightarrow> 32 word \<Rightarrow> bytes \<Rightarrow> bytes option" where
  "greeting_packet version connID scramble =
    (let payloadLen = 1 + length version + 1 + 4 + 8 + 1 + 2 + 1 + 2 + 2 + 1 + 10 + 13 + length native_plugin + 1;
         p = replicate payloadLen NUL; pos = 0; caps = serverCaps
     in do {
       p \<leftarrow> set_at pos CHR 0x0A p; let pos = pos + 1;
       p \<leftarrow> put_at pos version p; let pos = pos + length version;
       p \<leftarrow> set_at pos CHR 0x00 p; let pos = pos + 1;
       p \<leftarrow> put_uint32 pos (unat connID) p; let pos = pos + 4;
       p \<leftarrow> put_at pos (take 8 scramble) p; let pos = pos + 8;
       p \<leftarrow> set_at pos CHR 0x00 p; let pos = pos + 1;
       p \<leftarrow> set_at pos (char_of caps) p;
       p \<leftarrow> set_at (pos + 1) (char_of (drop_bit 8 caps)) p; let pos = pos + 2;
       p \<leftarrow> set_at pos CHR 0x21 p; let pos = pos + 1;
       p \<leftarrow> set_at pos CHR 0x02 p;
       p \<leftarrow> set_at (pos + 1) CHR 0x00 p; let pos = pos + 2;
       p \<leftarrow> set_at pos (char_of (drop_bit 16 caps)) p;
       p \<leftarrow> set_at (pos + 1) (char_of (drop_bit 24 caps)) p; let pos = pos + 2;
       p \<leftarrow> set_at pos (char_of (length scramble + 1)) p; let pos = pos + 1;
       let pos = pos + 10;
       p \<leftarrow> put_at pos (drop 8 scramble) p; let pos = pos + 12;
       p \<leftarrow> set_at pos CHR 0x00 p; let pos = pos + 1;
       p \<leftarrow> put_at pos native_plugin p; let pos = pos + length native_plugin;
       p \<leftarrow> set_at pos CHR 0x00 p;
       Some ([char_of payloadLen, char_of (drop_bit 8 payloadLen), char_of (drop_bit 16 payloadLen), NUL] @ p) })"

definition mysql_sendHandshake ::
  "bytes \<Rightarrow> 32 word \<Rightarrow> bytes \<Rightarrow> ('a) world_scheme \<Rightarrow> (goerr option \<times> ('a) world_scheme) option" where
  "mysql_sendHandshake version connID scramble w =
    do { pkt \<leftarrow> greeting_packet version connID scramble; Some (write_bytes pkt w) }"

section \<open>The handshake response\<close>

text \<open>The authentication response and the position after it.\<close>

definition parse_auth_resp :: "nat \<Rightarrow> bytes \<Rightarrow> nat \<Rightarrow> (goerr + bytes \<times> nat) option" where
  "parse_auth_resp caps payload pos =
    (if caps AND capSecureConn \<noteq> 0 then
       do { l \<leftarrow> go_index payload pos;
            let authLen = of_char l; let pos = pos + 1;
            if pos + authLen > length payload then Some (Inl (ErrorS ''auth response out of bounds''))
            else do { a \<leftarrow> go_slice payload pos (pos + authLen); Some (Inr (a, pos + authLen)) } }
     else
       do { rest \<leftarrow> go_from payload pos;
            let e = (case indexByte rest NUL of Some i \<Rightarrow> i | None \<Rightarrow> length payload - pos);
            a \<leftarrow> go_slice payload pos (pos + e);
            Some (Inr (a, pos + e + 1)) })"

definition parse_database :: "nat \<Rightarrow> bytes \<Rightarrow> nat \<Rightarrow> bytes option" where
  "parse_database caps payload pos =
    (if caps AND capConnWithDB \<noteq> 0 \<and> pos < length payload then
       do { rest \<leftarrow> go_from payload pos;
            case indexByte rest NUL of
              Some e \<Rightarrow> go_slice payload pos (pos + e)
            | None \<Rightarrow> Some [] }
     else Some [])"

definition parse_handshake_response :: "bytes \<Rightarrow> (goerr + bytes \<times> bytes \<times> bytes) option" where
  "parse_handshake_response payload =
    (if length payload < 32 then Some (Inl (ErrorS ''handshake response too short''))
     else do {
       caps \<leftarrow> le_uint32 payload;
       let pos = 4 + 4 + 1 + 23;
       if pos \<ge> length payload then Some (Inl (ErrorS ''handshake response truncated at reserved''))
       else do {
         rest \<leftarrow> go_from payload pos;
         case indexByte rest NUL of
           None \<Rightarrow> Some (Inl (ErrorS ''username not null-terminated''))
         | Some e \<Rightarrow> do {
             username \<leftarrow> go_slice payload pos (pos + e);
             let pos = pos + e + 1;
             if pos \<ge> length payload then Some (Inl (ErrorS ''handshake response truncated after username''))
             else do {
               ar \<leftarrow> parse_auth_resp caps payload pos;
               case ar of
                 Inl err \<Rightarrow> Some (Inl err)
               | Inr (authResp, pos) \<Rightarrow> do {
                   database \<leftarrow> parse_database caps payload pos;
                   Some (Inr (username, database, authResp)) } } } } })"

definition mysql_readHandshakeResponse ::
  "('a) world_scheme \<Rightarrow> ((goerr + bytes \<times> bytes \<times> bytes) \<times> ('a) world_scheme) option" where
  "mysql_readHandshakeResponse w =
    (case mysql_readPacket w of
       (Inl e, w1) \<Rightarrow> Some (Inl e, w1)
     | (Inr (_, payload), w1) \<Rightarrow> do { r \<leftarrow> parse_handshake_response payload; Some (r, w1) })"

section \<open>The handler\<close>

definition mysql_event :: "bytes \<times> 64 word \<Rightarrow> bytes \<Rightarrow> bytes \<Rightarrow> bytes \<Rightarrow> bytes \<Rightarrow> Event" where
  "mysql_event src user db hash cmd = zero_Event\<lparr>Protocol := ProtoMySQL, SrcIP := fst src, SrcPort := snd src,
     Username := user, Database := db, AuthHash := hash, Command := cmd\<rparr>"

lemma loggable_mysql_event [simp]: "loggable (mysql_event src user db hash cmd)"
  by (simp add: loggable_def mysql_event_def)

text \<open>One iteration of the command loop; the state is the current database and the world.\<close>

definition mysql_step :: "bytes \<times> 64 word \<Rightarrow> bytes \<Rightarrow> bytes \<times> world \<Rightarrow> (bytes \<times> world) ctl" where
  "mysql_step src username st =
    (let database = fst st; w = snd st in
     if ctx_Done w then Return (database, w)
     else case mysql_readPacket w of
       (Inl e, w1) \<Rightarrow> Return (database, w1)
     | (Inr (seq, payload), w1) \<Rightarrow>
       (case payload of
          [] \<Rightarrow> Continue (database, w1)
        | comType # arg \<Rightarrow>
            if comType = CHR 0x01 then Return (database, w1)
            else if comType = CHR 0x03 then
              (let w2 = log_event (mysql_event src username database [] (go_truncate arg 2048)) w1 in
               case mysql_sendEmptyResultSet (seq + 1) w2 of
                 (Some e, w3) \<Rightarrow> Return (database, w3)
               | (None, w3) \<Rightarrow> Continue (database, set_read_deadline 60 w3))
            else if comType = CHR 0x02 then
              (case mysql_sendOK (seq + 1) w1 of
                 (Some e, w3) \<Rightarrow> Return (arg, w3)
               | (None, w3) \<Rightarrow> Continue (arg, set_read_deadline 60 w3))
            else
              (case mysql_sendOK (seq + 1) w1 of
                 (Some e, w3) \<Rightarrow> Return (database, w3)
               | (None, w3) \<Rightarrow> Continue (database, set_read_deadline 60 w3))))"

section \<open>Facts about packets\<close>

lemma or_push_bit: "a < 2 ^ k \<Longrightarrow> a OR push_bit k b = a + push_bit k (b::nat)"
proof -
  assume "a < 2 ^ k"
  then have "a = take_bit k a" by (simp add: take_bit_nat_eq_self)
  moreover have "take_bit k a OR push_bit k b = take_bit k a + push_bit k b"
    by (rule disjunctive_add_eq_or [symmetric], rule bit_eqI) (auto simp: bit_simps)
  ultimately show ?thesis by simp
qed

lemma packet_size_le:
  assumes "4 \<le> length hdr"
  shows "packet_size hdr = le_nat (take 3 hdr)"
proof -
  obtain a b c d t where hdr: "hdr = a # b # c # d # t"
    using assms by (auto simp: numeral_eq_Suc Suc_le_length_iff)
  have "push_bit 8 (of_char b) OR push_bit 16 (of_char c) = push_bit 8 (of_char b OR push_bit 8 (of_char c :: nat))"
    by (simp add: push_bit_or push_bit_push_bit)
  also have "\<dots> = push_bit 8 (of_char b + push_bit 8 (of_char c))"
    by (subst or_push_bit) simp_all
  finally have "of_char a OR (push_bit 8 (of_char b) OR push_bit 16 (of_char c))
      = (of_char a + push_bit 8 (of_char b + push_bit 8 (of_char c)) :: nat)"
    by (simp only:) (subst or_push_bit, simp_all)
  also have "\<dots> = of_char a + 256 * (of_char b + 256 * of_char c)" by (simp add: push_bit_eq_mult)
  finally have "of_char a OR (push_bit 8 (of_char b) OR push_bit 16 (of_char c))
      = (of_char a + 256 * (of_char b + 256 * of_char c) :: nat)" .
  then show ?thesis by (simp add: packet_size_def hdr or.assoc)
qed

lemma packet_size_bound: "4 \<le> length hdr \<Longrightarrow> packet_size hdr \<le> maxPacketSize"
  using le_nat_bound [of "take 3 hdr"] by (simp add: packet_size_le maxPacketSize_def)

lemma packet_header_eq: "packet_header seq n = le_bytes 3 n @ [char_of (unat seq)]"
  unfolding packet_header_def numeral_3_eq_3
  by (simp add: drop_bit_eq_div div_mult2_eq [symmetric])

lemma length_packet_header [simp]: "length (packet_header seq n) = 4"
  by (simp add: packet_header_def)

lemma seq_of_char [simp]: "(of_char (char_of (unat seq)) :: 8 word) = seq"
proof -
  have "(of_char (char_of (unat seq)) :: 8 word) = of_nat (of_char (char_of (unat seq)))"
    by (simp add: of_nat_of_char del: of_char_of)
  also have "\<dots> = of_nat (unat seq)"
    using unsigned_less [of seq, where ?'a = nat] by simp
  finally show ?thesis by simp
qed

definition packet_bytes :: "8 word \<times> bytes \<Rightarrow> bytes" where
  "packet_bytes m = packet_header (fst m) (length (snd m)) @ snd m"

definition packet_valid :: "8 word \<times> bytes \<Rightarrow> bool" where
  "packet_valid m \<longleftrightarrow> length (snd m) \<le> maxPacketSize"

lemma packet_size_header:
  assumes "n \<le> maxPacketSize"
  shows "packet_size (packet_header seq n) = n"
proof -
  have "packet_size (packet_header seq n) = le_nat (take 3 (packet_header seq n))"
    by (rule packet_size_le) simp
  also have "\<dots> = le_nat (le_bytes 3 n)" by (simp add: packet_header_eq)
  finally show ?thesis using assms by (simp add: maxPacketSize_def)
qed

lemma readPacket_packet_bytes:
  assumes "packet_valid m" "readable (wconn w) = packet_bytes m @ rest"
  shows "mysql_readPacket w = (Inr m, w\<lparr>wconn := consume (length (packet_bytes m)) (wconn w)\<rparr>)"
proof -
  obtain seq p where m: "m = (seq, p)" by fastforce
  let ?h = "packet_header seq (length p)" and ?w1 = "w\<lparr>wconn := consume 4 (wconn w)\<rparr>"
  have r: "readable (wconn w) = ?h @ (p @ rest)" using assms(2) by (simp add: m packet_bytes_def)
  have f1: "read_full 4 w = (Inr ?h, ?w1)" using read_full_readable [OF r] by simp
  have "readable (wconn ?w1) = p @ rest" using r by (simp add: readable_consume)
  from read_full_readable [OF this]
  have f2: "read_full (length p) ?w1 = (Inr p, w\<lparr>wconn := consume (4 + length p) (wconn w)\<rparr>)"
    by (simp add: consume_consume)
  have sz: "packet_size ?h = length p" "length p \<le> maxPacketSize"
    using assms(1) by (simp_all add: packet_size_header packet_valid_def m)
  have sq: "(of_char (?h ! 3) :: 8 word) = seq" by (simp add: packet_header_def)
  show ?thesis
    using f1 f2 sz sq by (cases "p = []") (simp_all add: mysql_readPacket_def m packet_bytes_def)
qed

lemma readPacket_Inr:
  assumes "mysql_readPacket w = (Inr (seq, p), w1)"
  shows "length (incoming (wconn w1)) < length (incoming (wconn w))" "length p \<le> maxPacketSize"
    "\<exists>n \<le> length (incoming (wconn w)). w1 = w\<lparr>wconn := consume n (wconn w)\<rparr>"
proof -
  obtain hdr w2 where h: "read_full 4 w = (Inr hdr, w2)"
    using assms by (auto simp: mysql_readPacket_def split: prod.splits sum.splits)
  note h' = read_full_Inr [OF h]
  have le: "packet_size hdr \<le> maxPacketSize" using packet_size_bound [of hdr] h' by simp
  consider "w1 = w2" "p = []" | "read_full (packet_size hdr) w2 = (Inr p, w1)"
    using assms h by (auto simp: mysql_readPacket_def Let_def split: if_splits prod.splits sum.splits)
  then show "length (incoming (wconn w1)) < length (incoming (wconn w))" "length p \<le> maxPacketSize"
    "\<exists>n \<le> length (incoming (wconn w)). w1 = w\<lparr>wconn := consume n (wconn w)\<rparr>"
  proof (atomize (full), cases)
    case 1
    then show "length (incoming (wconn w1)) < length (incoming (wconn w)) \<and> length p \<le> maxPacketSize \<and>
        (\<exists>n \<le> length (incoming (wconn w)). w1 = w\<lparr>wconn := consume n (wconn w)\<rparr>)"
      using h' by (intro conjI exI [of _ 4]) simp_all
  next
    case 2
    from read_full_Inr [OF this] h' le
    show "length (incoming (wconn w1)) < length (incoming (wconn w)) \<and> length p \<le> maxPacketSize \<and>
        (\<exists>n \<le> length (incoming (wconn w)). w1 = w\<lparr>wconn := consume n (wconn w)\<rparr>)"
      by (intro conjI exI [of _ "4 + packet_size hdr"]) (simp_all add: consume_consume)
  qed
qed

lemma evolves_readPacket: "mysql_readPacket w = (r, w1) \<Longrightarrow> evolves w w1"
  by (auto simp: mysql_readPacket_def Let_def split: prod.splits sum.splits if_splits
      intro: evolves_trans dest!: evolves_read_full)

interpretation mysql_packets: bounded_reader mysql_readPacket packet_bytes packet_valid
proof unfold_locales
  fix m :: "8 word \<times> bytes" and w w1 :: "('a) world_scheme" and rest and r
  show "packet_valid m \<Longrightarrow> readable (wconn w) = packet_bytes m @ rest \<Longrightarrow>
      mysql_readPacket w = (Inr m, w\<lparr>wconn := consume (length (packet_bytes m)) (wconn w)\<rparr>)"
    by (rule readPacket_packet_bytes)
  show "mysql_readPacket w = (Inr m, w1) \<Longrightarrow> length (incoming (wconn w1)) < length (incoming (wconn w))"
    using readPacket_Inr(1) by (cases m) blast
  show "mysql_readPacket w = (r, w1) \<Longrightarrow> evolves w w1"
    by (rule evolves_readPacket)
  show "mysql_readPacket w = (Inr m, w1) \<Longrightarrow> packet_valid m"
    using readPacket_Inr(2) by (cases m) (auto simp: packet_valid_def)
qed

lemma evolves_writePacket: "mysql_writePacket seq p w = (e, w1) \<Longrightarrow> evolves w w1"
  by (auto simp: mysql_writePacket_def split: prod.splits option.splits intro: evolves_trans dest!: evolves_write)

lemma evolves_sendOK: "mysql_sendOK seq w = (e, w1) \<Longrightarrow> evolves w w1"
  by (auto simp: mysql_sendOK_def dest: evolves_writePacket)

lemma evolves_sendEmptyResultSet: "mysql_sendEmptyResultSet seq w = (e, w1) \<Longrightarrow> evolves w w1"
  by (auto simp: mysql_sendEmptyResultSet_def split: prod.splits option.splits
      intro: evolves_trans dest!: evolves_writePacket)

lemmas mysql_evolves = evolves_readPacket evolves_sendOK evolves_sendEmptyResultSet

section \<open>The loop\<close>

lemma mysql_step_evolves:
  assumes "mysql_step src user (db, w) = Continue (db', w') \<or> mysql_step src user (db, w) = Return (db', w')"
  shows "evolves w w'"
proof -
  have cmd: "evolves w w3" if "evolves w w1" "mysql_sendOK (seq + 1) w1 = (e, w3)" for w1 seq e w3
    using that evolves_sendOK evolves_trans by blast
  have qry: "evolves w w3" if "evolves w w1" "mysql_sendEmptyResultSet (seq + 1) (log_event (mysql_event s' u d h c) w1) = (e, w3)"
    for w1 seq e w3 s' u d h c
    by (rule evolves_trans [OF evolves_trans [OF that(1) evolves_log [OF loggable_mysql_event]]
          evolves_sendEmptyResultSet [OF that(2)]])
  have dl: "evolves w (set_read_deadline 60 w3)" if "evolves w w3" for w3
    using that evolves_deadline evolves_trans by blast
  show ?thesis
    using assms
    by (auto simp: mysql_step_def Let_def split: if_splits prod.splits sum.splits list.splits option.splits
        dest: evolves_readPacket intro: cmd qry dl)
qed

lemma mysql_step_progress:
  assumes "mysql_step src user (db, w) = Continue (db', w')"
  shows "length (incoming (wconn w')) < length (incoming (wconn w))"
proof -
  obtain seq p w1 where r: "mysql_readPacket w = (Inr (seq, p), w1)"
    using assms by (auto simp: mysql_step_def Let_def split: if_splits prod.splits sum.splits)
  have "length (incoming (wconn w')) \<le> length (incoming (wconn w1))"
    using assms r
    by (auto simp: mysql_step_def Let_def split: if_splits list.splits prod.splits option.splits
        dest!: evolves_sendOK evolves_sendEmptyResultSet dest: evolves_incoming)
  with readPacket_Inr(1) [OF r] show ?thesis by simp
qed

function mysql_loop :: "bytes \<times> 64 word \<Rightarrow> bytes \<Rightarrow> bytes \<times> world \<Rightarrow> (bytes \<times> world) option" where
  "mysql_loop src username st =
    (case mysql_step src username st of
       Continue st' \<Rightarrow> mysql_loop src username st'
     | Return st' \<Rightarrow> Some st'
     | Crash \<Rightarrow> None)"
  by pat_completeness auto
termination
  by (relation "measure (\<lambda>(src, u, st). length (incoming (wconn (snd st))))")
     (auto dest: mysql_step_progress)

declare mysql_loop.simps [simp del]

text \<open>The session after the greeting.\<close>

definition mysql_session :: "bytes \<times> 64 word \<Rightarrow> world \<Rightarrow> world option" where
  "mysql_session src w =
    do { (r, w) \<leftarrow> mysql_readHandshakeResponse (set_read_deadline 30 w);
         case r of
           Inl e \<Rightarrow> Some w
         | Inr (username, database, authResp) \<Rightarrow>
             (case mysql_sendOK 2 (log_event
                     (mysql_event src username database (hex_encode authResp) ''CONNECT'') w) of
                (Some e, w) \<Rightarrow> Some w
              | (None, w) \<Rightarrow>
                  map_option snd (mysql_loop src username (database, set_read_deadline 60 w))) }"

definition mysql_Handler :: "bytes \<Rightarrow> world \<Rightarrow> world option" where
  "mysql_Handler version w =
    (let src = peer w in
     do { (connID, e1) \<leftarrow> MySQLConnID (entropy w);
          (scramble, e2) \<leftarrow> MySQLScramble e1;
          (err, w) \<leftarrow> mysql_sendHandshake version connID scramble (w\<lparr>entropy := e2\<rparr>);
          if err \<noteq> None then Some w else mysql_session src w })"

interpretation mysql: session_loop "mysql_step src user" "mysql_loop src user"
    "\<lambda>st. length (incoming (wconn (snd st)))" for src user
proof unfold_locales
  fix s s' :: "bytes \<times> world"
  show "mysql_loop src user s = (case mysql_step src user s of
      Continue s' \<Rightarrow> mysql_loop src user s' | Return s' \<Rightarrow> Some s' | Crash \<Rightarrow> None)"
    by (rule mysql_loop.simps)
  show "mysql_step src user s = Continue s' \<Longrightarrow>
      length (incoming (wconn (snd s'))) < length (incoming (wconn (snd s)))"
    by (cases s; cases s') (simp add: mysql_step_progress)
qed

lemma mysql_step_no_crash: "mysql_step src user st \<noteq> Crash"
  by (simp add: mysql_step_def Let_def split: prod.split sum.split list.split option.split)

lemma mysql_loop_returns: "\<exists>st'. mysql_loop src user st = Some st'"
  by (rule mysql.run_returns [where I = "\<lambda>_. True"]) (simp_all add: mysql_step_no_crash)

lemma mysql_loop_evolves:
  assumes "mysql_loop src user st = Some st'"
  shows "evolves (snd st) (snd st')"
  using assms
proof (rule mysql.run_related [where R = "\<lambda>a b. evolves (snd a) (snd b)"])
  fix a b c :: "bytes \<times> world"
  show "evolves (snd a) (snd a)" by simp
  show "evolves (snd a) (snd b) \<Longrightarrow> evolves (snd b) (snd c) \<Longrightarrow> evolves (snd a) (snd c)"
    by (rule evolves_trans)
  show "mysql_step src user a = Continue b \<or> mysql_step src user a = Return b \<Longrightarrow> evolves (snd a) (snd b)"
    by (cases a; cases b) (simp add: mysql_step_evolves)
qed

section \<open>The greeting and the response parser\<close>

text \<open>Stores at the write position of a buffer whose rest is still zero.\<close>

lemma put_at_fill:
  assumes "length a \<le> pos" "pos + length src \<le> length a + k"
  shows "put_at pos src (a @ replicate k NUL)
    = Some (((a @ replicate (pos - length a) NUL) @ src) @ replicate (length a + k - pos - length src) NUL)"
  using assms by (auto simp: put_at_def min_def)

lemma set_at_fill:
  assumes "length a \<le> pos" "pos < length a + k"
  shows "set_at pos b (a @ replicate k NUL)
    = Some (((a @ replicate (pos - length a) NUL) @ [b]) @ replicate (length a + k - pos - 1) NUL)"
proof -
  have "k = (pos - length a) + Suc (length a + k - pos - 1)" using assms by simp
  then have "replicate k NUL = replicate (pos - length a) NUL @ NUL # replicate (length a + k - pos - 1) NUL"
    by (metis replicate_Suc replicate_add)
  then show ?thesis using assms by (simp add: set_at_def list_update_append)
qed

lemma put_uint32_fill:
  assumes "length a \<le> pos" "pos + 4 \<le> length a + k"
  shows "put_uint32 pos n (a @ replicate k NUL)
    = Some (((a @ replicate (pos - length a) NUL) @ le_bytes 4 n) @ replicate (length a + k - pos - 4) NUL)"
  using assms put_at_fill [of a pos "le_bytes 4 n" k] by (simp add: put_uint32_def)

lemmas fill_simps = put_at_fill set_at_fill put_uint32_fill

lemma parse_auth_resp_total:
  "pos < length payload \<Longrightarrow> \<exists>r. parse_auth_resp caps payload pos = Some r"
proof -
  assume pos: "pos < length payload"
  have "pos + i \<le> length payload" if "indexByte (drop pos payload) NUL = Some i" for i
    using indexByte_less [OF that] pos by simp
  then show ?thesis using pos
    by (auto simp: parse_auth_resp_def go_index_def go_slice_def go_from_def Let_def split: option.split)
qed

lemma parse_database_total: "\<exists>r. parse_database caps payload pos = Some r"
proof -
  have "pos + i \<le> length payload" if "indexByte (drop pos payload) NUL = Some i" "pos < length payload" for i
    using indexByte_less [OF that(1)] that(2) by simp
  then show ?thesis
    by (auto simp: parse_database_def go_slice_def go_from_def split: option.split)
qed

lemma parse_handshake_response_total: "\<exists>r. parse_handshake_response payload = Some r"
proof (cases "32 < length payload")
  case True
  show ?thesis
  proof (cases "indexByte (drop 32 payload) NUL")
    case None
    with True show ?thesis by (simp add: parse_handshake_response_def le_uint32_def go_from_def)
  next
    case (Some i)
    then have i: "32 + i < length payload" using indexByte_less [OF Some] True by simp
    show ?thesis
    proof (cases "33 + i < length payload")
      case True
      then obtain r where r: "parse_auth_resp (le_nat (take 4 payload)) payload (33 + i) = Some r"
        using parse_auth_resp_total by blast
      show ?thesis using Some i True r parse_database_total
        by (cases r)
           (auto simp: parse_handshake_response_def le_uint32_def go_from_def go_slice_def bind_eq_Some_conv)
    next
      case False
      with Some i show ?thesis
        by (simp add: parse_handshake_response_def le_uint32_def go_from_def go_slice_def)
    qed
  qed
next
  case False
  then show ?thesis by (auto simp: parse_handshake_response_def le_uint32_def)
qed

text \<open>The handshake-response parser never indexes out of range: on every payload it returns a
  result or an ordinary error.\<close>

theorem parse_handshake_response_never_panics: "parse_handshake_response payload \<noteq> None"
  using parse_handshake_response_total [of payload] by auto

text \<open>What a well-formed client sends is what is captured: user name, scrambled password and
  database are read back from the bytes of a HandshakeResponse41 with a one-byte length before
  the password hash.\<close>

lemma parse_handshake_response_captures:
  assumes "NUL \<notin> set user" "NUL \<notin> set db" "length auth < 256" "length reserved = 28"
    and "caps < 2 ^ 32" "caps AND capSecureConn \<noteq> 0" "caps AND capConnWithDB \<noteq> 0"
  shows "parse_handshake_response
      (le_bytes 4 caps @ reserved @ user @ [NUL] @ [char_of (length auth)] @ auth @ db @ [NUL] @ extra)
    = Some (Inr (user, db, auth))"
proof -
  define p where "p = le_bytes 4 caps @ reserved @ user @ [NUL] @ [char_of (length auth)] @ auth @ db @ [NUL] @ extra"
  have caps: "le_uint32 p = Some caps" using assms(5) unfolding p_def by simp
  have d1: "drop 32 p = user @ NUL # [char_of (length auth)] @ auth @ db @ [NUL] @ extra"
    using assms(4) by (simp add: p_def)
  have d2: "drop (33 + length user) p = char_of (length auth) # auth @ db @ [NUL] @ extra"
    using assms(4) by (simp add: p_def)
  have d3: "drop (34 + length user) p = auth @ db @ NUL # extra"
    using assms(4) by (simp add: p_def)
  have d4: "drop (34 + length user + length auth) p = db @ NUL # extra"
    using assms(4) by (simp add: p_def)
  have len: "length p = 36 + length user + length auth + length db + length extra - 1"
    using assms(4) by (simp add: p_def)
  have i1: "indexByte (drop 32 p) NUL = Some (length user)"
    unfolding d1 using assms(1) by (rule indexByte_append)
  have i2: "indexByte (drop (34 + length user + length auth) p) NUL = Some (length db)"
    unfolding d4 using assms(2) by (rule indexByte_append)
  have at: "p ! (33 + length user) = char_of (length auth)"
    using d2 len by (metis nth_via_drop)
  have a: "parse_auth_resp caps p (33 + length user) = Some (Inr (auth, 34 + length user + length auth))"
    using assms(3,6) len d3 at by (simp add: parse_auth_resp_def go_index_def go_slice_def)
  have b: "parse_database caps p (34 + length user + length auth) = Some db"
    using assms(7) len d4 i2 by (simp add: parse_database_def go_slice_def go_from_def)
  have "parse_handshake_response p = Some (Inr (user, db, auth))"
    using len caps i1 d1 a b by (simp add: parse_handshake_response_def go_from_def go_slice_def)
  then show ?thesis by (simp add: p_def)
qed

theorem parse_handshake_response_captures_witness:
  "parse_handshake_response
     (le_bytes 4 0x8008 @ replicate 28 NUL @ ''root'' @ [NUL] @ [char_of (length ''xyz'')] @ ''xyz'' @ ''shop'' @ [NUL] @ [])
   = Some (Inr (''root'', ''shop'', ''xyz''))"
  using parse_handshake_response_captures [where user = "''root''" and db = "''shop''" and auth = "''xyz''"
      and reserved = "replicate 28 NUL" and caps = "0x8008" and extra = "[]"]
  by (simp add: capSecureConn_def capConnWithDB_def)

lemma greeting_packet_layout:
  assumes "length scramble = 20"
  shows "\<exists>payload. greeting_packet version connID scramble = Some (packet_bytes (0, payload)) \<and>
    payload = [CHR 0x0A] @ version @ [NUL] @ le_bytes 4 (unat connID) @ take 8 scramble @ [NUL]
      @ le_bytes 2 serverCaps @ [CHR 0x21] @ [CHR 0x02, NUL] @ le_bytes 2 (drop_bit 16 serverCaps)
      @ [char_of (21::nat)] @ replicate 10 NUL @ drop 8 scramble @ [NUL] @ native_plugin @ [NUL]"
proof -
  have n: "length native_plugin = 21" by (simp add: native_plugin_def)
  have start: "replicate k NUL = [] @ replicate k NUL" for k by simp
  have le2: "le_bytes 2 c = [char_of c, char_of (drop_bit 8 c)]" for c
    unfolding numeral_2_eq_2 by (simp add: drop_bit_eq_div)
  have char0: "char_of (0::nat) = NUL" by (simp add: char_of_def)
  show ?thesis
    unfolding greeting_packet_def Let_def n
    by (subst start, simp add: fill_simps assms n del: append_assoc append_Cons append_Nil)
       (simp add: packet_bytes_def packet_header_def le2 assms n drop_bit_drop_bit char0 set_at_def list_update_append)
qed

text \<open>The greeting is one well-formed packet with sequence number 0 whose header carries the true
  length of its payload, and the payload is the fields of a HandshakeV10 in order: nothing is
  written out of range and every byte of the computed length is filled.\<close>

theorem greeting_is_HandshakeV10:
  assumes "length scramble = 20"
  shows "greeting_packet version connID scramble = Some (packet_bytes (0,
      [CHR 0x0A] @ version @ [NUL] @ le_bytes 4 (unat connID) @ take 8 scramble @ [NUL]
      @ le_bytes 2 serverCaps @ [CHR 0x21] @ [CHR 0x02, NUL] @ le_bytes 2 (drop_bit 16 serverCaps)
      @ [char_of (21::nat)] @ replicate 10 NUL @ drop 8 scramble @ [NUL] @ native_plugin @ [NUL]))"
  using greeting_packet_layout [OF assms] by blast

theorem greeting_is_HandshakeV10_witness:
  "greeting_packet ''8'' 7 (replicate 20 CHR ''x'') = Some (packet_bytes (0,
      [CHR 0x0A] @ ''8'' @ [NUL] @ le_bytes 4 (unat (7 :: 32 word)) @ replicate 8 CHR ''x'' @ [NUL]
      @ le_bytes 2 serverCaps @ [CHR 0x21] @ [CHR 0x02, NUL] @ le_bytes 2 (drop_bit 16 serverCaps)
      @ [char_of (21::nat)] @ replicate 10 NUL @ replicate 12 CHR ''x'' @ [NUL] @ native_plugin @ [NUL]))"
  using greeting_is_HandshakeV10 [of "replicate 20 CHR ''x''" "''8''" 7] by simp

text \<open>Packets survive the wire: any sequence of payloads of at most 16 MB - 1 bytes, written
  back to back, is read back as the same sequence, with what follows left unread.\<close>

theorem mysql_packet_stream_roundtrip:
  assumes "list_all packet_valid ms" "readable (wconn w) = concat (map packet_bytes ms) @ rest"
  shows "fst (read_msgs mysql_readPacket (length ms) w) = ms
    \<and> readable (wconn (snd (read_msgs mysql_readPacket (length ms) w))) = rest"
  using assms by (intro mysql_packets.read_stream) (simp_all add: list_all_iff)

theorem mysql_packet_stream_roundtrip_witness:
  "fst (read_msgs mysql_readPacket 2 (quiet_world []
      (packet_bytes (0, ''ab'') @ packet_bytes (255, []) @ ''z''))) = [(0, ''ab''), (255, [])]"
  using mysql_packet_stream_roundtrip [of "[(0, ''ab''), (255, [])]"
      "quiet_world [] (packet_bytes (0, ''ab'') @ packet_bytes (255, []) @ ''z'')" "''z''"]
  by (simp add: packet_valid_def maxPacketSize_def numeral_2_eq_2)

section \<open>The session\<close>

lemma writePacket_sends: "mysql_writePacket seq p w = (e, w1) \<Longrightarrow> sends (e = None) w w1"
  by (auto simp: mysql_writePacket_def split: prod.splits option.splits dest!: sends_write intro: sends_trans)

lemma mysql_write_sends:
  "mysql_sendOK seq w = (e, w1) \<Longrightarrow> sends (e = None) w w1"
  "mysql_sendEmptyResultSet seq w = (e, w1) \<Longrightarrow> sends (e = None) w w1"
  by (auto simp: mysql_sendOK_def mysql_sendEmptyResultSet_def
      split: prod.splits option.splits dest!: writePacket_sends intro: sends_trans)

lemma readPacket_paced:
  assumes "mysql_readPacket w = (r, w1)"
  shows "paced (\<not> isl r) w w1"
proof -
  obtain r1 w2 where h: "read_full 4 w = (r1, w2)" by fastforce
  note p1 = paced_read_full [OF h]
  show ?thesis
  proof (cases r1)
    case (Inl e)
    then show ?thesis using h p1 assms by (auto simp: mysql_readPacket_def)
  next
    case (Inr hdr)
    obtain r3 w3 where b: "read_full (packet_size hdr) w2 = (r3, w3)" by fastforce
    note p2 = paced_trans [OF _ paced_read_full [OF b], of w]
    show ?thesis using Inr h p1 p2 b assms paced_weaken [of w w2]
      by (auto simp: mysql_readPacket_def Let_def split: if_splits sum.splits)
  qed
qed

lemma mysql_step_round:
  "mysql_step src user st = Continue st' \<Longrightarrow> goes_on (snd st) (snd st')"
  "mysql_step src user st = Return st' \<Longrightarrow> gives_up (snd st) (snd st')"
proof -
  obtain r w1 where r: "mysql_readPacket (snd st) = (r, w1)" by fastforce
  have rd: "gives_up (snd st) w1" "\<not> isl r \<Longrightarrow> goes_on (snd st) w1" if "\<not> ctx_Done (snd st)"
    using round_reads [OF that readPacket_paced [OF r]] by blast+
  have wr: "gives_up (snd st) w3" "e = None \<Longrightarrow> goes_on (snd st) w3"
    if "mysql_sendOK seq w2 = (e, w3) \<or> mysql_sendEmptyResultSet seq w2 = (e, w3)" "goes_on (snd st) w2" for seq e w2 w3
    using goes_on_sends [OF that(2)] mysql_write_sends that(1) by blast+
  note ok = wr [OF disjI1] and empty = wr [OF disjI2]
  show "mysql_step src user st = Continue st' \<Longrightarrow> goes_on (snd st) (snd st')"
    using r rd
    by (auto 0 5 simp: mysql_step_def Let_def split: if_splits prod.splits sum.splits list.splits option.splits
        intro!: goes_on_deadline intro: ok(2) [OF _ _ refl] empty(2) [OF _ _ refl] goes_on_log)
  show "mysql_step src user st = Return st' \<Longrightarrow> gives_up (snd st) (snd st')"
    using r rd
    by (auto simp: mysql_step_def Let_def gives_up_now split: if_splits prod.splits sum.splits list.splits option.splits
        intro: ok(1) empty(1) goes_on_log)
qed

lemma mysql_loop_expired:
  assumes "mysql_loop src user st = Some st'" "watched T (snd st)"
  shows "expired T (snd st')"
  using assms
  by (rule mysql.run_invariant [where I = "\<lambda>st. watched T (snd st)"])
    (use mysql_step_round in \<open>auto simp: goes_on_def gives_up_def\<close>)

lemma mysql_readHandshakeResponse_Some:
  "\<exists>r w1. mysql_readHandshakeResponse w = Some (r, w1)"
proof -
  obtain r w1 where r: "mysql_readPacket w = (r, w1)" by fastforce
  obtain x where "parse_handshake_response (snd (projr r)) = Some x"
    using parse_handshake_response_total by blast
  with r show ?thesis by (cases r) (auto simp: mysql_readHandshakeResponse_def)
qed

lemma mysql_readHandshakeResponse_paced:
  assumes "mysql_readHandshakeResponse w = Some (r, w1)"
  shows "paced (\<not> isl r) w w1"
  using assms readPacket_paced [of w]
  by (fastforce simp: mysql_readHandshakeResponse_def split: prod.splits sum.splits Option.bind_splits
      intro: paced_weaken)

lemma evolves_readHandshakeResponse:
  "mysql_readHandshakeResponse w = Some (r, w1) \<Longrightarrow> evolves w w1"
  by (auto simp: mysql_readHandshakeResponse_def split: prod.splits sum.splits Option.bind_splits
      dest: evolves_readPacket)

lemma MySQLScramble_length: "MySQLScramble e = Some (b, e1) \<Longrightarrow> length b = 20"
  by (auto simp: MySQLScramble_def dest: scramble_loop_Some)

lemma mysql_Handler_session:
  assumes "MySQLConnID (entropy w) = Some (cid, e1)" "MySQLScramble e1 = Some (scr, e2)"
  shows "\<exists>pkt err w1. greeting_packet version cid scr = Some pkt \<and> write_bytes pkt (w\<lparr>entropy := e2\<rparr>) = (err, w1)
    \<and> mysql_Handler version w = (if err \<noteq> None then Some w1 else mysql_session (peer w) w1)"
proof -
  obtain pkt where g: "greeting_packet version cid scr = Some pkt"
    using greeting_packet_layout [OF MySQLScramble_length [OF assms(2)]] by blast
  obtain err w1 where wr: "write_bytes pkt (w\<lparr>entropy := e2\<rparr>) = (err, w1)" by fastforce
  show ?thesis using g wr assms
    by (simp add: mysql_Handler_def mysql_sendHandshake_def Let_def)
qed

lemma mysql_session_facts:
  "\<exists>w'. mysql_session src w = Some w' \<and> evolves w w' \<and> (settled T w \<longrightarrow> expired T w')"
proof -
  let ?w0 = "set_read_deadline 30 w"
  obtain r w1 where r: "mysql_readHandshakeResponse ?w0 = Some (r, w1)"
    using mysql_readHandshakeResponse_Some by blast
  have ev1: "evolves w w1"
    using evolves_readHandshakeResponse [OF r] evolves_deadline evolves_trans by blast
  have wt1: "expired T w1" "\<not> isl r \<Longrightarrow> reading 30 T w1" if "settled T w"
    using paced_reading [OF mysql_readHandshakeResponse_paced [OF r] settled_deadline [OF that]] by simp_all
  show ?thesis
  proof (cases r)
    case (Inl e)
    then show ?thesis using r ev1 wt1(1) by (simp add: mysql_session_def)
  next
    case (Inr x)
    obtain user db auth where x: "x = (user, db, auth)" by (cases x) auto
    let ?ev = "mysql_event src user db (hex_encode auth) ''CONNECT''"
    obtain err w2 where s: "mysql_sendOK 2 (log_event ?ev w1) = (err, w2)" by fastforce
    have ev2: "evolves w w2"
      by (rule evolves_trans [OF evolves_trans [OF ev1 evolves_log [OF loggable_mysql_event]] evolves_sendOK [OF s]])
    have "sends (err = None) (log_event ?ev w1) w2" using mysql_write_sends s by blast
    moreover have "watched T (log_event ?ev w1)" if "settled T w"
      using reading_watched [OF wt1(2) [OF that]] Inr by simp
    ultimately have wt2: "expired T w2" "err = None \<Longrightarrow> watched T w2" if "settled T w"
      using sends_watched that by blast+
    show ?thesis
    proof (cases err)
      case None
      obtain st' where l: "mysql_loop src user (db, set_read_deadline 60 w2) = Some st'"
        using mysql_loop_returns by blast
      have "evolves w (snd st')"
        using ev2 mysql_loop_evolves [OF l] evolves_deadline evolves_trans by (metis snd_conv)
      moreover have "settled T w \<Longrightarrow> expired T (snd st')"
        using mysql_loop_expired [OF l] watched_deadline [OF wt2(2) [OF _ None]] by simp
      ultimately show ?thesis using r Inr x s None l by (simp add: mysql_session_def)
    next
      case (Some e)
      then show ?thesis using r Inr x s ev2 wt2(1) by (simp add: mysql_session_def)
    qed
  qed
qed

lemma mysql_Handler_facts:
  assumes "MySQLConnID (entropy w) = Some (cid, e1)" "MySQLScramble e1 = Some (scr, e2)"
  shows "\<exists>w'. mysql_Handler version w = Some w' \<and> evolves w w' \<and> (settled T w \<longrightarrow> expired T w')"
proof -
  obtain pkt err w1 where h: "write_bytes pkt (w\<lparr>entropy := e2\<rparr>) = (err, w1)"
      "mysql_Handler version w = (if err \<noteq> None then Some w1 else mysql_session (peer w) w1)"
    using mysql_Handler_session [OF assms] by blast
  have ev: "evolves w w1" using evolves_write [OF h(1)] evolves_entropy evolves_trans by blast
  have st: "expired T w1" "err = None \<Longrightarrow> settled T w1" if "settled T w"
    using sends_settled [OF sends_write [OF h(1)]] that by simp_all
  obtain w' where "mysql_session (peer w) w1 = Some w'" "evolves w1 w'" "settled T w1 \<longrightarrow> expired T w'"
    using mysql_session_facts by blast
  then show ?thesis using h(2) ev st evolves_trans by (cases err) auto
qed

definition mysql_supplied :: "world \<Rightarrow> bool" where
  "mysql_supplied w \<longleftrightarrow> (\<exists>cid e1 scr e2. MySQLConnID (entropy w) = Some (cid, e1) \<and> MySQLScramble e1 = Some (scr, e2))"

text \<open>A source of ones supplies a handler.\<close>

lemma mysql_supplied_ones:
  assumes "20 \<le> n"
  shows "mysql_supplied (quiet_world (replicate (3 + n) CHR 0x01) b)"
proof -
  have "MySQLConnID (CHR 0x01 # CHR 0x01 # CHR 0x01 # t) = Some (65794, t)" for t
    by (simp add: MySQLConnID_def randIntRange_def rand_Int_def BitLen.simps Let_def rand_Int_loop.simps
        candidate_def be_nat_def)
  then have c: "MySQLConnID (replicate (3 + n) CHR 0x01) = Some (65794, replicate n CHR 0x01)"
    by (simp add: numeral_3_eq_3)
  have "20 \<le> length (filter (\<lambda>c. c \<noteq> NUL) (replicate n CHR 0x01))" using assms by (simp add: filter_replicate)
  then obtain b e1 where "MySQLScramble (replicate n CHR 0x01) = Some (b, e1)"
    using scramble_loop_returns unfolding MySQLScramble_def by blast
  then show ?thesis using c by (simp add: mysql_supplied_def quiet_world_def)
qed

interpretation mysql_handler: protocol_handler "mysql_Handler version" mysql_supplied for version
proof unfold_locales
  fix w :: world and T c
  show "mysql_supplied w \<Longrightarrow> \<exists>w'. mysql_Handler version w = Some w' \<and> evolves w w' \<and> (settled T w \<longrightarrow> expired T w')"
    using mysql_Handler_facts unfolding mysql_supplied_def by blast
  show "mysql_supplied (w\<lparr>wconn := c\<rparr>) = mysql_supplied w" by (simp add: mysql_supplied_def)
qed

text \<open>C10. Whatever a MySQL client sends, the handler comes to an end without a crash, provided the
  random source yields the connection id and the challenge; the log and the output only grow; and
  if the client is silent from time \<open>T\<close> on, or the context is cancelled by then, the handler is gone
  sixty seconds later and never blocks for good. A client that stops taking data holds the handler until the
  connection's write deadline, which therefore has to be over by then as well.\<close>

theorem mysql_Handler_terminates_cleanly:
  assumes "MySQLConnID (entropy w) = Some (cid, e1)" "MySQLScramble e1 = Some (scr, e2)" "settled T w"
  shows "\<exists>w'. mysql_Handler version w = Some w' \<and> evolves w w' \<and> now w' \<le> T + 60 * second \<and> \<not> hung (wconn w')"
  using mysql_Handler_facts [OF assms(1,2), of version T] assms(3) by (auto simp: expired_def)

theorem mysql_Handler_terminates_cleanly_witness:
  "\<exists>w'. mysql_Handler ''8.0.36'' (quiet_world (replicate 23 CHR 0x01) (packet_bytes (1, ''junk''))) = Some w'
     \<and> now w' \<le> 60 * second"
proof -
  let ?w = "quiet_world (replicate 23 CHR 0x01) (packet_bytes (1, ''junk''))"
  obtain cid e1 scr e2 where d: "MySQLConnID (entropy ?w) = Some (cid, e1)" "MySQLScramble e1 = Some (scr, e2)"
    using mysql_supplied_ones [of 20 "packet_bytes (1, ''junk'')"] by (auto simp: mysql_supplied_def)
  have "settled 0 ?w" by simp
  from mysql_Handler_terminates_cleanly [OF d this, of "''8.0.36''"] show ?thesis by auto
qed

text \<open>The payload of a HandshakeResponse41.\<close>

definition login_payload :: "nat \<Rightarrow> bytes \<Rightarrow> bytes \<Rightarrow> bytes \<Rightarrow> bytes \<Rightarrow> bytes \<Rightarrow> bytes" where
  "login_payload caps reserved user auth db extra =
     le_bytes 4 caps @ reserved @ user @ [NUL] @ [char_of (length auth)] @ auth @ db @ [NUL] @ extra"

text \<open>A MySQL login is captured from the wire to the log: when the client's response to the greeting arrives
  within the thirty seconds the handler waits, the handler logs the CONNECT event with the user, the database
  and the authentication hash that were sent, before anything else, and whatever the client does next only adds
  to the log.\<close>

theorem mysql_login_captured:
  assumes "mysql_supplied w"
    and "readable (wconn (set_read_deadline 30 w)) = packet_bytes (seq, login_payload caps reserved user auth db extra) @ rest"
    and "length (login_payload caps reserved user auth db extra) \<le> maxPacketSize"
    and "NUL \<notin> set user" "NUL \<notin> set db" "length auth < 256" "length reserved = 28"
    and "caps < 2 ^ 32" "caps AND capSecureConn \<noteq> 0" "caps AND capConnWithDB \<noteq> 0"
    and "wr_open (wconn w)"
  shows "\<exists>w' t. mysql_Handler version w = Some w'
    \<and> log_extends (Log t (mysql_event (peer w) user db (hex_encode auth) ''CONNECT'') (wstore w)) (wstore w')"
proof -
  let ?m = "(seq, login_payload caps reserved user auth db extra)" and ?ev = "mysql_event (peer w) user db (hex_encode auth) ''CONNECT''"
  obtain cid e1 scr e2 where d: "MySQLConnID (entropy w) = Some (cid, e1)" "MySQLScramble e1 = Some (scr, e2)"
    using assms(1) by (auto simp: mysql_supplied_def)
  obtain pkt err w1 where h: "write_bytes pkt (w\<lparr>entropy := e2\<rparr>) = (err, w1)"
      "mysql_Handler version w = (if err \<noteq> None then Some w1 else mysql_session (peer w) w1)"
    using mysql_Handler_session [OF d] by blast
  have w1: "err = None" "w1 = w\<lparr>entropy := e2, wconn := (wconn w)\<lparr>out := out (wconn w) @ pkt\<rparr>\<rparr>"
    using h(1) assms(11) by (simp_all add: write_wr_open)
  define w2 where "w2 = set_read_deadline 30 w1"
  have r: "readable (wconn w2) = packet_bytes ?m @ rest"
  proof -
    have "wconn w2 = (wconn (set_read_deadline 30 w))\<lparr>out := out (wconn w1)\<rparr>"
      by (simp add: w2_def w1 set_read_deadline_def SetReadDeadline_def now_def)
    then show ?thesis using assms(2) by simp
  qed
  define w3 where "w3 = w2\<lparr>wconn := consume (length (packet_bytes ?m)) (wconn w2)\<rparr>"
  have "mysql_readPacket w2 = (Inr ?m, w3)"
    unfolding w3_def using assms(3) r by (intro readPacket_packet_bytes) (simp_all add: packet_valid_def)
  moreover have "parse_handshake_response (snd ?m) = Some (Inr (user, db, auth))"
    using parse_handshake_response_captures [OF assms(4-10), of extra] by (simp add: login_payload_def)
  ultimately have hr: "mysql_readHandshakeResponse w2 = Some (Inr (user, db, auth), w3)"
    by (simp add: mysql_readHandshakeResponse_def)
  obtain e4 w4 where ok: "mysql_sendOK 2 (log_event ?ev w3) = (e4, w4)" by fastforce
  have "wstore w3 = wstore w" by (simp add: w3_def w2_def w1)
  then have x: "log_extends (Log (now w3) ?ev (wstore w)) (wstore w4)"
    using evolves_sendOK [OF ok] by (simp add: evolves_def log_event_def)
  obtain st' where l: "mysql_loop (peer w) user (db, set_read_deadline 60 w4) = Some st'" using mysql_loop_returns by blast
  have y: "log_extends (wstore w4) (wstore (snd st'))" using mysql_loop_evolves [OF l] by (simp add: evolves_def)
  obtain w' where "mysql_session (peer w) w1 = Some w'" "w' = w4 \<or> w' = snd st'"
    using hr ok l by (cases e4) (auto simp: mysql_session_def w2_def)
  then show ?thesis using h(2) w1(1) x log_extends_trans [OF x y] by auto
qed

theorem mysql_login_captured_witness:
  "\<exists>w' t. mysql_Handler ''8.0.36'' (quiet_world (replicate 23 CHR 0x01)
        (packet_bytes (1, login_payload 0x8008 (replicate 28 NUL) ''root'' ''xyz'' ''shop'' []))) = Some w'
    \<and> log_extends (Log t (mysql_event (''10.0.0.1'', 4000) ''root'' ''shop'' (hex_encode ''xyz'') ''CONNECT'') (wstore (quiet_world [] [])))
        (wstore w')"
proof -
  let ?p = "login_payload 0x8008 (replicate 28 NUL) ''root'' ''xyz'' ''shop'' []"
  let ?w = "quiet_world (replicate 23 CHR 0x01) (packet_bytes (1, ?p))"
  have s: "mysql_supplied ?w" using mysql_supplied_ones [of 20] by simp
  have r: "readable (wconn (set_read_deadline 30 ?w)) = packet_bytes (1, ?p) @ []" by simp
  have l: "length ?p \<le> maxPacketSize" by (simp add: login_payload_def maxPacketSize_def)
  have c: "wr_open (wconn ?w)" "wstore ?w = wstore (quiet_world [] [])"
    by simp (simp add: quiet_world_def)
  have p: "peer ?w = (''10.0.0.1'', 4000)" by simp
  show ?thesis
    using mysql_login_captured [OF s r l _ _ _ _ _ _ _ c(1), of "''8.0.36''"] unfolding c(2) p
    by (simp add: capSecureConn_def capConnWithDB_def)
qed

text \<open>C33. A query is captured and answered: on a connection that takes data when it is in, a COM_QUERY packet makes
  one log entry with the first 2048 bytes of the query under the session's user and database, and
  the reply is two packets whose sequence numbers follow the request's modulo 256; the read
  deadline is renewed.\<close>

theorem mysql_query_captured:
  assumes "\<not> ctx_Done w" "readable (wconn w) = packet_bytes (seq, CHR 0x03 # query) @ rest"
    and "length query < maxPacketSize" "wr_open (consume (5 + length query) (wconn w))"
  shows "\<exists>w'. mysql_step src user (db, w) = Continue (db, w')
    \<and> wstore w' = Log (now w') (mysql_event src user db [] (take 2048 query)) (wstore w)
    \<and> out (wconn w') = out (wconn w) @ packet_bytes (seq + 1, [NUL])
        @ packet_bytes (seq + 2, [CHR 0xFE, NUL, NUL, CHR 0x02, NUL])
    \<and> incoming (wconn w') = drop (5 + length query) (incoming (wconn w))
    \<and> rd_deadline (wconn w') = Some (now w' + 60 * second)"
proof -
  let ?m = "(seq, CHR 0x03 # query)" and ?ev = "mysql_event src user db [] (go_truncate query 2048)"
  define w1 where "w1 = w\<lparr>wconn := consume (5 + length query) (wconn w)\<rparr>"
  have "packet_valid ?m" using assms(3) by (simp add: packet_valid_def)
  then have r: "mysql_readPacket w = (Inr ?m, w1)"
    using readPacket_packet_bytes [of ?m w rest] assms(2) by (simp add: packet_bytes_def w1_def)
  have "wr_open (wconn w1)" using assms(4) by (simp add: w1_def)
  then have "mysql_sendEmptyResultSet (seq + 1) (log_event ?ev w1) = (None, (log_event ?ev w1)\<lparr>wconn :=
      (wconn w1)\<lparr>out := out (wconn w1) @ packet_bytes (seq + 1, [NUL])
        @ packet_bytes (seq + 2, [CHR 0xFE, NUL, NUL, CHR 0x02, NUL])\<rparr>\<rparr>)"
    by (simp add: mysql_sendEmptyResultSet_def mysql_writePacket_def write_wr_open packet_bytes_def add.assoc)
  then show ?thesis using assms(1) r
    by (simp add: mysql_step_def go_truncate_eq_take w1_def now_def)
qed

theorem mysql_query_captured_witness:
  "\<exists>w'. mysql_step (''10.0.0.1'', 4000) ''root''
        (''shop'', with_deadline (30 * int second) (quiet_world [] (packet_bytes (0, CHR 0x03 # ''SELECT 1''))))
      = Continue (''shop'', w')
    \<and> wstore w' = Log (now w') (mysql_event (''10.0.0.1'', 4000) ''root'' ''shop'' [] ''SELECT 1'')
        (wstore (quiet_world [] (packet_bytes (0, CHR 0x03 # ''SELECT 1''))))"
proof -
  let ?w = "with_deadline (30 * int second) (quiet_world [] (packet_bytes (0, CHR 0x03 # ''SELECT 1'')))"
  have "\<not> ctx_Done ?w" "readable (wconn ?w) = packet_bytes (0, CHR 0x03 # ''SELECT 1'') @ []"
      "length ''SELECT 1'' < maxPacketSize" "wr_open (consume (5 + length ''SELECT 1'') (wconn ?w))"
    by (simp_all add: maxPacketSize_def second_def) (simp add: ctx_Done_def quiet_world_def)
  from mysql_query_captured [OF this, of "(''10.0.0.1'', 4000)" "''root''" "''shop''"] show ?thesis
    by auto
qed

end
