(* ===== verification/Postgres.thy ===== *)
theory Postgres
  imports Fingerprint Server
begin

text \<open>
  \<^verbatim>\<open>internal/proto/postgres\<close>: SSL negotiation and startup, MD5 authentication, the startup
  responses and the query loop of the version 3 protocol.

  The six parameters reported after authentication are the entries of a Go map, so the order in
  which they are sent is not determined: it is the argument \<open>order\<close> of the handler.
\<close>

section \<open>Constants\<close>

definition maxStartupLen :: nat where "maxStartupLen = 10000"
definition pg_maxMsgLen :: nat where "pg_maxMsgLen = 1024 * 1024"
definition sslRequest :: nat where "sslRequest = 80877103"
definition cancelRequest :: nat where "cancelRequest = 80877102"
definition protoVersion :: nat where "protoVersion = 196608"

section \<open>Messages\<close>

definition pg_sendMsg :: "char \<Rightarrow> bytes \<Rightarrow> world sender" where
  "pg_sendMsg msgType body = write_bytes ([msgType] @ be_bytes 4 (4 + length body) @ body)"

definition pg_readMessage :: "world \<Rightarrow> ((goerr + char \<times> bytes) \<times> world)" where
  "pg_readMessage w =
    (case read_full 5 w of
       (Inl e, w1) \<Rightarrow> (Inl e, w1)
     | (Inr hdr, w1) \<Rightarrow>
         let msgType = hdr ! 0; msgLen = int (be_nat (drop 1 hdr)) - 4 in
         if msgLen < 0 \<or> msgLen > int pg_maxMsgLen then (Inl (ErrorS ''invalid message length''), w1)
         else if msgLen = 0 then (Inr (msgType, []), w1)
         else case read_full (nat msgLen) w1 of
                (Inl e, w2) \<Rightarrow> (Inl e, w2)
              | (Inr payload, w2) \<Rightarrow> (Inr (msgType, payload), w2))"

definition nullTermString :: "bytes \<Rightarrow> bytes" where
  "nullTermString b = (case indexByte b NUL of Some i \<Rightarrow> take i b | None \<Rightarrow> b)"

definition pg_readPasswordMessage :: "world \<Rightarrow> (goerr + bytes) \<times> world" where
  "pg_readPasswordMessage w =
    (case pg_readMessage w of
       (Inl e, w1) \<Rightarrow> (Inl e, w1)
     | (Inr (msgType, payload), w1) \<Rightarrow>
         if msgType \<noteq> CHR ''p'' then (Inl (ErrorS ''expected PasswordMessage''), w1)
         else (Inr (nullTermString payload), w1))"

definition pg_sendAuthMD5 :: "bytes \<Rightarrow> world sender" where
  "pg_sendAuthMD5 salt = write_bytes ([CHR ''R''] @ be_bytes 4 12 @ be_bytes 4 5 @ take 4 salt)"

definition pg_sendAuthOK :: "world sender" where
  "pg_sendAuthOK = write_bytes [CHR ''R'', NUL, NUL, NUL, CHR 0x08, NUL, NUL, NUL, NUL]"

definition pg_sendParamStatus :: "bytes \<Rightarrow> bytes \<Rightarrow> world sender" where
  "pg_sendParamStatus key val = pg_sendMsg CHR ''S'' (key @ [NUL] @ val @ [NUL])"

definition pg_sendBackendKeyData :: "32 word \<Rightarrow> 32 word \<Rightarrow> world sender" where
  "pg_sendBackendKeyData pid key = pg_sendMsg CHR ''K'' (be_bytes 4 (unat pid) @ be_bytes 4 (unat key))"

definition pg_sendReadyForQuery :: "char \<Rightarrow> world sender" where
  "pg_sendReadyForQuery status = pg_sendMsg CHR ''Z'' [status]"

definition pg_sendEmptyQueryResponse :: "world sender" where
  "pg_sendEmptyQueryResponse = pg_sendMsg CHR ''I'' []"

definition pg_sendErrorResponse :: "bytes \<Rightarrow> bytes \<Rightarrow> world sender" where
  "pg_sendErrorResponse code msg =
    pg_sendMsg CHR ''E'' (''SERROR'' @ [NUL, CHR ''C''] @ code @ [NUL, CHR ''M''] @ msg @ [NUL, NUL])"

section \<open>Startup\<close>

function pg_params_loop :: "bytes \<Rightarrow> (bytes \<rightharpoonup> bytes) \<Rightarrow> (bytes \<rightharpoonup> bytes) option" where
  "pg_params_loop data params =
    (if length data \<le> 1 then Some params
     else case indexByte data NUL of
       None \<Rightarrow> Some params
     | Some ki \<Rightarrow> do {
         key \<leftarrow> go_slice data 0 ki;
         data1 \<leftarrow> go_from data (ki + 1);
         if data1 = [] then Some params
         else case indexByte data1 NUL of
           None \<Rightarrow> Some params
         | Some vi \<Rightarrow> do {
             val \<leftarrow> go_slice data1 0 vi;
             data2 \<leftarrow> go_from data1 (vi + 1);
             pg_params_loop data2 (if key \<noteq> [] then params(key \<mapsto> val) else params) } })"
  by pat_completeness auto
termination
  by (relation "measure (\<lambda>(d, p). length d)") (auto simp: go_from_def split: if_splits)

declare pg_params_loop.simps [simp del]

definition parseStartupParams :: "bytes \<Rightarrow> (bytes \<rightharpoonup> bytes) option" where
  "parseStartupParams data = pg_params_loop data Map.empty"

definition get_param :: "(bytes \<rightharpoonup> bytes) \<Rightarrow> bytes \<Rightarrow> bytes" where
  "get_param params k = (case params k of Some v \<Rightarrow> v | None \<Rightarrow> [])"

text \<open>What one startup message asks for: an error or a finished startup (\<^const>\<open>Return\<close>), or
  another round after a declined SSL request (\<^const>\<open>Continue\<close>).\<close>

definition pg_startup_step :: "(goerr + bytes \<times> bytes) \<times> world \<Rightarrow> ((goerr + bytes \<times> bytes) \<times> world) ctl" where
  "pg_startup_step st =
    (case read_full 4 (snd st) of
       (Inl e, w1) \<Rightarrow> Return (Inl e, w1)
     | (Inr lenBuf, w1) \<Rightarrow>
         let msgLen = be_nat lenBuf in
         if msgLen < 8 \<or> msgLen > maxStartupLen then Return (Inl (ErrorS ''invalid startup message length''), w1)
         else case read_full (msgLen - 4) w1 of
           (Inl e, w2) \<Rightarrow> Return (Inl e, w2)
         | (Inr body, w2) \<Rightarrow>
             if length body < 4 then Return (Inl (ErrorS ''startup message body too short''), w2)
             else case be_uint32 body of
               None \<Rightarrow> Crash
             | Some protocolOrRequest \<Rightarrow>
                 if protocolOrRequest = sslRequest then
                   (case write_bytes ''N'' w2 of
                      (Some e, w3) \<Rightarrow> Return (Inl e, w3)
                    | (None, w3) \<Rightarrow> Continue (fst st, w3))
                 else if protocolOrRequest = cancelRequest then Return (Inl (ErrorS ''cancel request''), w2)
                 else if protocolOrRequest = protoVersion then
                   (case parseStartupParams (drop 4 body) of
                      None \<Rightarrow> Crash
                    | Some params \<Rightarrow>
                        let username = get_param params ''user''; database = get_param params ''database''
                        in Return (Inr (username, if database = [] then username else database), w2))
                 else Return (Inl (ErrorS ''unknown startup request''), w2))"

lemma pg_startup_step_progress:
  "pg_startup_step st = Continue st' \<Longrightarrow> length (incoming (wconn (snd st'))) < length (incoming (wconn (snd st)))"
  by (auto simp: pg_startup_step_def Let_def split: prod.splits sum.splits if_splits option.splits
      dest!: read_full_Inr(2) write_incoming)

function pg_startup_loop :: "(goerr + bytes \<times> bytes) \<times> world \<Rightarrow> ((goerr + bytes \<times> bytes) \<times> world) option" where
  "pg_startup_loop st =
    (case pg_startup_step st of
       Continue st' \<Rightarrow> pg_startup_loop st'
     | Return st' \<Rightarrow> Some st'
     | Crash \<Rightarrow> None)"
  by pat_completeness auto
termination
  by (relation "measure (\<lambda>st. length (incoming (wconn (snd st))))") (auto dest: pg_startup_step_progress)

declare pg_startup_loop.simps [simp del]

definition pg_doStartup :: "world \<Rightarrow> ((goerr + bytes \<times> bytes) \<times> world) option" where
  "pg_doStartup w = pg_startup_loop (Inr ([], []), set_read_deadline 30 w)"

section \<open>The handler\<close>

definition pg_event :: "bytes \<times> 64 word \<Rightarrow> bytes \<Rightarrow> bytes \<Rightarrow> bytes \<Rightarrow> bytes \<Rightarrow> Event" where
  "pg_event src user db hash cmd = zero_Event\<lparr>Protocol := ProtoPostgres, SrcIP := fst src, SrcPort := snd src,
     Username := user, Database := db, AuthHash := hash, Command := cmd\<rparr>"

lemma loggable_pg_event [simp]: "loggable (pg_event src user db hash cmd)"
  by (simp add: loggable_def pg_event_def)

definition pg_params :: "bytes \<Rightarrow> (bytes \<times> bytes) list" where
  "pg_params version =
    [(''server_version'', version), (''server_encoding'', ''UTF8''), (''client_encoding'', ''UTF8''),
     (''DateStyle'', ''ISO, MDY''), (''TimeZone'', ''UTC''), (''integer_datetimes'', ''on'')]"

definition pg_answer :: "char \<Rightarrow> world sender list" where
  "pg_answer msgType =
    (if msgType = CHR ''Q'' then [pg_sendEmptyQueryResponse, pg_sendReadyForQuery CHR ''I'']
     else if msgType \<in> {CHR ''P'', CHR ''B'', CHR ''D'', CHR ''E'', CHR ''S''}
       then [pg_sendErrorResponse ''XX000'' ''extended query protocol not supported'',
             pg_sendReadyForQuery CHR ''I'']
     else [])"

definition pg_step :: "bytes \<times> 64 word \<Rightarrow> bytes \<Rightarrow> bytes \<Rightarrow> world \<Rightarrow> world ctl" where
  "pg_step src username database w =
    (if ctx_Done w then Return w
     else case pg_readMessage w of
       (Inl e, w1) \<Rightarrow> Return w1
     | (Inr (msgType, payload), w1) \<Rightarrow>
         if msgType = CHR ''X'' then Return w1
         else
           let w2 = (if msgType = CHR ''Q''
                     then log_event (pg_event src username database [] (go_truncate (nullTermString payload) 2048)) w1
                     else w1)
           in case send_all (pg_answer msgType) w2 of
                (Some e, w3) \<Rightarrow> Return w3
              | (None, w3) \<Rightarrow> Continue (set_read_deadline 60 w3))"

section \<open>Framing\<close>

definition pg_bytes :: "char \<times> bytes \<Rightarrow> bytes" where
  "pg_bytes m = [fst m] @ be_bytes 4 (4 + length (snd m)) @ snd m"

definition pg_valid :: "char \<times> bytes \<Rightarrow> bool" where
  "pg_valid m \<longleftrightarrow> length (snd m) \<le> pg_maxMsgLen"

lemma pg_sendMsg_bytes: "pg_sendMsg t b = write_bytes (pg_bytes (t, b))"
  by (simp add: pg_sendMsg_def pg_bytes_def)

lemma pg_readMessage_bytes:
  assumes "pg_valid m" "readable (wconn w) = pg_bytes m @ rest"
  shows "pg_readMessage w = (Inr m, w\<lparr>wconn := consume (length (pg_bytes m)) (wconn w)\<rparr>)"
proof -
  obtain t p where m: "m = (t, p)" by fastforce
  let ?h = "t # be_bytes 4 (4 + length p)" and ?w1 = "w\<lparr>wconn := consume 5 (wconn w)\<rparr>"
  have r: "readable (wconn w) = ?h @ (p @ rest)" using assms(2) by (simp add: m pg_bytes_def)
  have f1: "read_full 5 w = (Inr ?h, ?w1)" using read_full_readable [OF r] by simp
  have "readable (wconn ?w1) = p @ rest" using r by (simp add: readable_consume)
  from read_full_readable [OF this]
  have f2: "read_full (length p) ?w1 = (Inr p, w\<lparr>wconn := consume (5 + length p) (wconn w)\<rparr>)"
    by (simp add: consume_consume)
  have sz: "be_nat (be_bytes 4 (4 + length p)) = 4 + length p" "length p \<le> pg_maxMsgLen"
    using assms(1) by (simp_all add: pg_valid_def m pg_maxMsgLen_def)
  show ?thesis
    using f1 f2 sz by (cases "p = []") (simp_all add: pg_readMessage_def m pg_bytes_def)
qed

lemma pg_readMessage_Inr:
  assumes "pg_readMessage w = (Inr m, w1)"
  shows "length (incoming (wconn w1)) < length (incoming (wconn w)) \<and> pg_valid m"
proof -
  obtain t p where m: "m = (t, p)" by fastforce
  obtain hdr w2 where h: "read_full 5 w = (Inr hdr, w2)"
    using assms by (auto simp: pg_readMessage_def split: prod.splits sum.splits)
  note h' = read_full_Inr [OF h]
  let ?n = "int (be_nat (drop 1 hdr)) - 4"
  consider "w1 = w2" "p = []" | "read_full (nat ?n) w2 = (Inr p, w1)" "?n \<le> int pg_maxMsgLen"
    using assms h m by (auto simp: pg_readMessage_def Let_def split: if_splits prod.splits sum.splits)
  then show ?thesis
  proof cases
    case 1
    then show ?thesis using h' m by (simp add: pg_valid_def)
  next
    case 2
    note p' = read_full_Inr [OF 2(1)]
    have "length p \<le> pg_maxMsgLen" using p'(1) 2(2) by linarith
    moreover have "length (incoming (wconn w1)) < length (incoming (wconn w))" using p'(2) h'(2) by linarith
    ultimately show ?thesis by (simp add: pg_valid_def m)
  qed
qed

lemma evolves_pg_readMessage: "pg_readMessage w = (r, w1) \<Longrightarrow> evolves w w1 \<and> same_rest w w1"
  by (auto simp: pg_readMessage_def Let_def split: prod.splits sum.splits if_splits
      intro: evolves_trans same_rest_trans evolves_read_full same_rest_read)

interpretation pg_messages: bounded_reader pg_readMessage pg_bytes pg_valid
proof unfold_locales
  fix m :: "char \<times> bytes" and w w1 :: world and rest and r
  show "pg_valid m \<Longrightarrow> readable (wconn w) = pg_bytes m @ rest \<Longrightarrow>
      pg_readMessage w = (Inr m, w\<lparr>wconn := consume (length (pg_bytes m)) (wconn w)\<rparr>)"
    by (rule pg_readMessage_bytes)
  show "pg_readMessage w = (Inr m, w1) \<Longrightarrow> length (incoming (wconn w1)) < length (incoming (wconn w))"
    using pg_readMessage_Inr by blast
  show "pg_readMessage w = (r, w1) \<Longrightarrow> evolves w w1"
    using evolves_pg_readMessage by blast
  show "pg_readMessage w = (Inr m, w1) \<Longrightarrow> pg_valid m"
    using pg_readMessage_Inr by blast
qed

lemma pg_readMessage_paced:
  assumes "pg_readMessage w = (r, w1)"
  shows "paced (\<not> isl r) w w1"
proof -
  obtain r1 w2 where h: "read_full 5 w = (r1, w2)" by fastforce
  note p1 = paced_read_full [OF h]
  show ?thesis
  proof (cases r1)
    case (Inl e)
    then show ?thesis using h p1 assms by (auto simp: pg_readMessage_def)
  next
    case (Inr hdr)
    let ?n = "nat (int (be_nat (drop 1 hdr)) - 4)"
    obtain r3 w3 where b: "read_full ?n w2 = (r3, w3)" by fastforce
    note p2 = paced_trans [OF _ paced_read_full [OF b], of w]
    show ?thesis using Inr h p1 p2 b assms paced_weaken [of w w2]
      by (auto simp: pg_readMessage_def Let_def split: if_splits sum.splits)
  qed
qed

section \<open>Senders\<close>

lemma pg_senders:
  "\<exists>b. pg_sendAuthMD5 salt = write_bytes b" "\<exists>b. pg_sendAuthOK = write_bytes b"
  "\<exists>b. pg_sendParamStatus k v = write_bytes b" "\<exists>b. pg_sendBackendKeyData pid key = write_bytes b"
  "\<exists>b. pg_sendReadyForQuery s = write_bytes b" "\<exists>b. pg_sendEmptyQueryResponse = write_bytes b"
  "\<exists>b. pg_sendErrorResponse c m = write_bytes b"
  by (auto simp: pg_sendAuthMD5_def pg_sendAuthOK_def pg_sendParamStatus_def pg_sendBackendKeyData_def
      pg_sendReadyForQuery_def pg_sendEmptyQueryResponse_def pg_sendErrorResponse_def pg_sendMsg_def)

lemma pg_senders_range:
  "pg_sendAuthOK \<in> range write_bytes" "pg_sendParamStatus k v \<in> range write_bytes"
  "pg_sendBackendKeyData pid key \<in> range write_bytes" "pg_sendReadyForQuery s \<in> range write_bytes"
  "pg_sendEmptyQueryResponse \<in> range write_bytes" "pg_sendErrorResponse c m \<in> range write_bytes"
  using pg_senders by blast+

lemma pg_answer_writes: "set (pg_answer t) \<subseteq> range write_bytes"
  by (auto simp: pg_answer_def pg_senders_range)

lemma send_all_writes_keep:
  assumes "send_all fs w = (e, w1)" "set fs \<subseteq> range write_bytes"
  shows "evolves w w1 \<and> same_rest w w1" "sends (e = None) w w1"
proof -
  show "evolves w w1 \<and> same_rest w w1"
    using assms(1)
  proof (rule send_all_keeps)
    fix f v e' v'
    assume "f \<in> set fs" "f v = (e', v')"
    then show "evolves v v' \<and> same_rest v v'" using assms(2) evolves_write same_rest_write by blast
  qed (auto intro: evolves_trans same_rest_trans)
  show "sends (e = None) w w1"
    using assms(1) by (rule send_all_sends) (use assms(2) sends_write in blast)
qed

section \<open>The loops\<close>

lemma pg_step_progress:
  assumes "pg_step src u d w = Continue w'"
  shows "length (incoming (wconn w')) < length (incoming (wconn w))"
proof -
  obtain m w1 where r: "pg_readMessage w = (Inr m, w1)"
    using assms by (auto simp: pg_step_def split: if_splits prod.splits sum.splits)
  have "length (incoming (wconn w')) \<le> length (incoming (wconn w1))"
    using assms r
    by (auto simp: pg_step_def Let_def split: if_splits prod.splits option.splits
        dest!: send_all_writes_keep(1) [OF _ pg_answer_writes] dest: evolves_incoming)
  with pg_readMessage_Inr [OF r] show ?thesis by simp
qed

function pg_loop :: "bytes \<times> 64 word \<Rightarrow> bytes \<Rightarrow> bytes \<Rightarrow> world \<Rightarrow> world option" where
  "pg_loop src username database w =
    (case pg_step src username database w of
       Continue w' \<Rightarrow> pg_loop src username database w'
     | Return w' \<Rightarrow> Some w'
     | Crash \<Rightarrow> None)"
  by pat_completeness auto
termination
  by (relation "measure (\<lambda>(s, u, d, w). length (incoming (wconn w)))") (auto dest: pg_step_progress)

declare pg_loop.simps [simp del]

interpretation pg: session_loop "pg_step src u d" "pg_loop src u d" "\<lambda>w. length (incoming (wconn w))" for src u d
  by unfold_locales (rule pg_loop.simps, rule pg_step_progress)

interpretation pg_start: session_loop pg_startup_step pg_startup_loop "\<lambda>st. length (incoming (wconn (snd st)))"
  by unfold_locales (rule pg_startup_loop.simps, rule pg_startup_step_progress)

text \<open>The handler in the order of its phases: \<open>pg_serve\<close> is what follows the password (the startup
  responses, then the query loop), \<open>pg_authenticate\<close> what follows the startup message.\<close>

definition pg_startup_responses ::
  "((bytes \<times> bytes) list \<Rightarrow> (bytes \<times> bytes) list) \<Rightarrow> bytes \<Rightarrow> 32 word \<Rightarrow> 32 word \<Rightarrow> world sender list" where
  "pg_startup_responses order version pid key =
    [pg_sendAuthOK] @ map (\<lambda>(k, v). pg_sendParamStatus k v) (order (pg_params version))
    @ [pg_sendBackendKeyData pid key, pg_sendReadyForQuery CHR ''I'']"

definition pg_serve ::
  "((bytes \<times> bytes) list \<Rightarrow> (bytes \<times> bytes) list) \<Rightarrow> bytes \<Rightarrow> bytes \<times> 64 word \<Rightarrow> bytes \<Rightarrow> bytes \<Rightarrow> world \<Rightarrow> world option" where
  "pg_serve order version src username database w =
    do { (pid, e2) \<leftarrow> PGPID (entropy w);
         (key, e3) \<leftarrow> RandUint32 e2;
         case send_all (pg_startup_responses order version pid key) (w\<lparr>entropy := e3\<rparr>) of
           (Some e, w1) \<Rightarrow> Some w1
         | (None, w1) \<Rightarrow> pg_loop src username database (set_read_deadline 60 w1) }"

definition pg_authenticate ::
  "((bytes \<times> bytes) list \<Rightarrow> (bytes \<times> bytes) list) \<Rightarrow> bytes \<Rightarrow> bytes \<times> 64 word \<Rightarrow> bytes \<Rightarrow> bytes \<Rightarrow> world \<Rightarrow> world option" where
  "pg_authenticate order version src username database w =
    do { (salt, e1) \<leftarrow> PGSalt (entropy w);
         case pg_sendAuthMD5 salt (w\<lparr>entropy := e1\<rparr>) of
           (Some e, w1) \<Rightarrow> Some w1
         | (None, w1) \<Rightarrow>
             (case pg_readPasswordMessage (set_read_deadline 30 w1) of
                (Inl e, w2) \<Rightarrow> Some w2
              | (Inr hash, w2) \<Rightarrow>
                  pg_serve order version src username database
                    (log_event (pg_event src username database hash ''CONNECT'') w2)) }"

definition pg_Handler ::
  "((bytes \<times> bytes) list \<Rightarrow> (bytes \<times> bytes) list) \<Rightarrow> bytes \<Rightarrow> world \<Rightarrow> world option" where
  "pg_Handler order version w =
    do { (r, w1) \<leftarrow> pg_doStartup w;
         case r of
           Inl e \<Rightarrow> Some w1
         | Inr (username, database) \<Rightarrow> pg_authenticate order version (peer w) username database w1 }"

section \<open>Startup parameters\<close>

definition pair_bytes :: "bytes \<times> bytes \<Rightarrow> bytes" where
  "pair_bytes kv = fst kv @ [NUL] @ snd kv @ [NUL]"

definition pair_ok :: "bytes \<times> bytes \<Rightarrow> bool" where
  "pair_ok kv \<longleftrightarrow> fst kv \<noteq> [] \<and> NUL \<notin> set (fst kv) \<and> NUL \<notin> set (snd kv)"

lemma pg_params_loop_total: "\<exists>m. pg_params_loop data params = Some m"
proof (induction data params rule: pg_params_loop.induct)
  case (1 data params)
  show ?case
  proof (cases "length data \<le> 1 \<or> indexByte data NUL = None")
    case True
    then show ?thesis by (subst pg_params_loop.simps) auto
  next
    case False
    then obtain ki where ki: "\<not> length data \<le> 1" "indexByte data NUL = Some ki" by auto
    then have k: "ki < length data" by (simp add: indexByte_less)
    let ?d1 = "drop (ki + 1) data"
    have s: "go_slice data 0 ki = Some (take ki data)" "go_from data (ki + 1) = Some ?d1"
      using k by (simp_all add: go_slice_def go_from_def)
    show ?thesis
    proof (cases "?d1 = [] \<or> indexByte ?d1 NUL = None")
      case True
      then show ?thesis using ki s by (subst pg_params_loop.simps) auto
    next
      case False
      then obtain vi where vi: "?d1 \<noteq> []" "indexByte ?d1 NUL = Some vi" by auto
      then have v: "vi < length ?d1" using indexByte_less by blast
      have s2: "go_slice ?d1 0 vi = Some (take vi ?d1)" "go_from ?d1 (vi + 1) = Some (drop (vi + 1) ?d1)"
        using v by (simp_all add: go_slice_def go_from_def)
      from "1.IH" [OF ki s vi s2] ki s vi s2 show ?thesis
        by (subst pg_params_loop.simps) (simp del: drop_drop take_eq_Nil split del: if_split cong: if_cong)
    qed
  qed
qed

lemma parseStartupParams_total: "\<exists>m. parseStartupParams data = Some m"
  by (simp add: parseStartupParams_def pg_params_loop_total)

lemma pg_params_loop_pair:
  assumes "pair_ok kv"
  shows "pg_params_loop (pair_bytes kv @ rest) params = pg_params_loop rest (params(fst kv \<mapsto> snd kv))"
proof -
  obtain k v where kv: "kv = (k, v)" by fastforce
  have k: "indexByte (k @ NUL # (v @ NUL # rest)) NUL = Some (length k)"
    and v: "indexByte (v @ NUL # rest) NUL = Some (length v)"
    using assms by (auto simp: kv pair_ok_def intro: indexByte_append)
  have "k \<noteq> []" using assms by (simp add: kv pair_ok_def)
  then show ?thesis
    by (subst pg_params_loop.simps) (use k v in \<open>simp add: kv pair_bytes_def go_slice_def go_from_def\<close>)
qed

lemma pg_params_loop_pairs:
  "list_all pair_ok pairs \<Longrightarrow>
     pg_params_loop (concat (map pair_bytes pairs) @ [NUL]) params = Some (params ++ map_of (rev pairs))"
proof (induction pairs arbitrary: params)
  case Nil
  then show ?case by (simp add: pg_params_loop.simps)
next
  case (Cons kv pairs)
  then show ?case by (simp add: pg_params_loop_pair [unfolded append.assoc] map_add_assoc [symmetric] map_add_upd_left split_beta)
qed

text \<open>C27. The startup parameters a client sends are all recovered: a sequence of NUL-free pairs with
  non-empty keys, encoded as the protocol says, decodes to the map of those pairs, a repeated key
  taking its last value; and on every other input too the parser returns without an access out of
  range.\<close>

theorem parseStartupParams_roundtrip:
  assumes "list_all pair_ok pairs"
  shows "parseStartupParams (concat (map pair_bytes pairs) @ [NUL]) = Some (map_of (rev pairs))
    \<and> (\<exists>m. parseStartupParams other = Some m)"
  using pg_params_loop_pairs [OF assms, of Map.empty] parseStartupParams_total
  by (simp add: parseStartupParams_def)

theorem parseStartupParams_roundtrip_witness:
  "(case parseStartupParams (''user'' @ [NUL] @ ''bob'' @ [NUL] @ ''database'' @ [NUL] @ ''shop'' @ [NUL, NUL]) of
     None \<Rightarrow> False | Some m \<Rightarrow> m ''user'' = Some ''bob'' \<and> m ''database'' = Some ''shop'')"
  using parseStartupParams_roundtrip [of "[(''user'', ''bob''), (''database'', ''shop'')]"]
  by (simp add: pair_ok_def pair_bytes_def)

section \<open>Startup from the wire\<close>

definition ssl_bytes :: bytes where
  "ssl_bytes = be_bytes 4 8 @ be_bytes 4 sslRequest"

definition startup_bytes :: "(bytes \<times> bytes) list \<Rightarrow> bytes" where
  "startup_bytes pairs =
    (let body = be_bytes 4 protoVersion @ concat (map pair_bytes pairs) @ [NUL] in be_bytes 4 (4 + length body) @ body)"

definition startup_ok :: "(bytes \<times> bytes) list \<Rightarrow> bool" where
  "startup_ok pairs \<longleftrightarrow> list_all pair_ok pairs \<and> length (startup_bytes pairs) \<le> maxStartupLen"

lemma pg_startup_read:
  assumes "readable (wconn w) = be_bytes 4 (4 + length body) @ body @ rest"
    and "4 \<le> length body" "4 + length body \<le> maxStartupLen"
  shows "\<exists>w1. read_full 4 w = (Inr (be_bytes 4 (4 + length body)), w1)
    \<and> read_full (length body) w1 = (Inr body, w\<lparr>wconn := consume (4 + length body) (wconn w)\<rparr>)"
proof -
  let ?w1 = "w\<lparr>wconn := consume 4 (wconn w)\<rparr>"
  have "read_full 4 w = (Inr (be_bytes 4 (4 + length body)), ?w1)"
    using read_full_readable [OF assms(1)] by simp
  moreover have "readable (wconn ?w1) = body @ rest" using assms(1) by (simp add: readable_consume)
  from read_full_readable [OF this]
  have "read_full (length body) ?w1 = (Inr body, w\<lparr>wconn := consume (4 + length body) (wconn w)\<rparr>)"
    by (simp add: consume_consume)
  ultimately show ?thesis by blast
qed

lemma pg_startup_step_body:
  assumes "readable (wconn w) = be_bytes 4 (4 + length body) @ body @ rest"
    and "body = be_bytes 4 req @ data" "4 + length body \<le> maxStartupLen" "req < 2 ^ 32"
  shows "pg_startup_step (x, w) =
    (let w2 = w\<lparr>wconn := consume (4 + length body) (wconn w)\<rparr> in
     if req = sslRequest then (case write_bytes ''N'' w2 of (Some e, w3) \<Rightarrow> Return (Inl e, w3) | (None, w3) \<Rightarrow> Continue (x, w3))
     else if req = cancelRequest then Return (Inl (ErrorS ''cancel request''), w2)
     else if req = protoVersion then
       (case parseStartupParams data of None \<Rightarrow> Crash
        | Some params \<Rightarrow> let user = get_param params ''user''; db = get_param params ''database''
                          in Return (Inr (user, if db = [] then user else db), w2))
     else Return (Inl (ErrorS ''unknown startup request''), w2))"
proof -
  have l: "4 \<le> length body" using assms(2) by simp
  obtain w1 where r: "read_full 4 w = (Inr (be_bytes 4 (4 + length body)), w1)"
      "read_full (length body) w1 = (Inr body, w\<lparr>wconn := consume (4 + length body) (wconn w)\<rparr>)"
    using pg_startup_read [OF assms(1) l assms(3)] by blast
  have n: "be_nat (be_bytes 4 (4 + length body)) = 4 + length body"
    using assms(3) by (simp add: maxStartupLen_def)
  have u: "be_uint32 body = Some req" "drop 4 body = data" using assms(2,4) by simp_all
  show ?thesis
    unfolding pg_startup_step_def snd_conv fst_conv r(1) prod.case sum.case Let_def n
    using r(2) l u assms(3) by simp
qed

lemma pg_startup_ssl:
  assumes "readable (wconn w) = ssl_bytes @ rest" "wr_open (consume 8 (wconn w))"
  shows "\<exists>w1. pg_startup_step (x, w) = Continue (x, w1) \<and> readable (wconn w1) = rest
    \<and> wconn w1 = (consume 8 (wconn w))\<lparr>out := out (wconn w) @ ''N''\<rparr> \<and> same_rest w w1"
proof -
  let ?w2 = "w\<lparr>wconn := consume 8 (wconn w)\<rparr>"
  let ?w3 = "?w2\<lparr>wconn := (wconn ?w2)\<lparr>out := out (wconn w) @ ''N''\<rparr>\<rparr>"
  have "pg_startup_step (x, w) = (case write_bytes ''N'' ?w2 of
      (Some e, w3) \<Rightarrow> Return (Inl e, w3) | (None, w3) \<Rightarrow> Continue (x, w3))"
    by (subst pg_startup_step_body [where body = "be_bytes 4 sslRequest" and req = sslRequest and data = "[]"])
      (use assms(1) in \<open>simp_all add: ssl_bytes_def sslRequest_def maxStartupLen_def\<close>)
  moreover have "write_bytes ''N'' ?w2 = (None, ?w3)" using assms by (simp add: write_wr_open)
  moreover have "length ssl_bytes = 8" by (simp add: ssl_bytes_def)
  then have "readable (wconn ?w3) = rest"
    using assms(1) readable_consume [of 8 "wconn w"] by simp
  ultimately show ?thesis by (auto simp: same_rest_def)
qed

lemma pg_startup_version:
  assumes "readable (wconn w) = startup_bytes pairs @ rest" "startup_ok pairs"
  shows "pg_startup_step (x, w) =
    (let user = get_param (map_of (rev pairs)) ''user''; db = get_param (map_of (rev pairs)) ''database''
     in Return (Inr (user, if db = [] then user else db),
                w\<lparr>wconn := consume (length (startup_bytes pairs)) (wconn w)\<rparr>))"
proof -
  let ?data = "concat (map pair_bytes pairs) @ [NUL]"
  let ?body = "be_bytes 4 protoVersion @ ?data"
  have p: "parseStartupParams ?data = Some (map_of (rev pairs))"
    using pg_params_loop_pairs [of pairs Map.empty] assms(2) by (simp add: startup_ok_def parseStartupParams_def)
  have l: "length (startup_bytes pairs) = 4 + length ?body" by (simp add: startup_bytes_def Let_def)
  show ?thesis
    by (subst pg_startup_step_body [where body = ?body and req = protoVersion and data = ?data])
      (use assms l p in \<open>simp_all add: startup_ok_def startup_bytes_def protoVersion_def sslRequest_def
         cancelRequest_def Let_def\<close>)
qed

lemma pg_startup_loop_captures:
  assumes "readable (wconn w) = concat (replicate k ssl_bytes) @ startup_bytes pairs @ rest" "startup_ok pairs"
    and "wr_open (consume (8 * k + length (startup_bytes pairs)) (wconn w))"
  shows "\<exists>w1. pg_startup_loop (x, w) =
      (let user = get_param (map_of (rev pairs)) ''user''; db = get_param (map_of (rev pairs)) ''database''
       in Some (Inr (user, if db = [] then user else db), w1))
    \<and> readable (wconn w1) = rest \<and> same_rest w w1
    \<and> wconn w1 = (consume (8 * k + length (startup_bytes pairs)) (wconn w))\<lparr>out := out (wconn w) @ replicate k CHR ''N''\<rparr>"
  using assms
proof (induction k arbitrary: w)
  case 0
  let ?w1 = "w\<lparr>wconn := consume (length (startup_bytes pairs)) (wconn w)\<rparr>"
  have r: "readable (wconn w) = startup_bytes pairs @ rest" using 0 by simp
  have "readable (wconn ?w1) = rest" using r by (simp add: readable_consume)
  moreover have "wconn ?w1 = (wconn ?w1)\<lparr>out := out (wconn w)\<rparr>" by simp
  moreover note pg_startup_version [OF r assms(2), of x]
  ultimately show ?case by (subst pg_startup_loop.simps) (auto simp: Let_def same_rest_def)
next
  case (Suc k)
  have "readable (wconn w) = ssl_bytes @ concat (replicate k ssl_bytes) @ startup_bytes pairs @ rest"
    using Suc.prems by simp
  from pg_startup_ssl [OF this wr_open_earlier [OF Suc.prems(3)], of x]
  obtain v where v: "pg_startup_step (x, w) = Continue (x, v)" "wconn v = (consume 8 (wconn w))\<lparr>out := out (wconn w) @ ''N''\<rparr>"
      "readable (wconn v) = concat (replicate k ssl_bytes) @ startup_bytes pairs @ rest" "same_rest w v" by auto
  have c: "consume (8 * k + length (startup_bytes pairs)) (wconn v)
      = (consume (8 * Suc k + length (startup_bytes pairs)) (wconn w))\<lparr>out := out (wconn w) @ ''N''\<rparr>"
    unfolding v(2) by (simp add: consume_out consume_consume add.assoc)
  have "wr_open (consume (8 * k + length (startup_bytes pairs)) (wconn v))" using Suc.prems(3) unfolding c by simp
  from Suc.IH [OF v(3) assms(2) this] obtain w1 where w1: "pg_startup_loop (x, v) =
      (let user = get_param (map_of (rev pairs)) ''user''; db = get_param (map_of (rev pairs)) ''database''
       in Some (Inr (user, if db = [] then user else db), w1))" "readable (wconn w1) = rest" "same_rest v w1"
      "wconn w1 = (consume (8 * k + length (startup_bytes pairs)) (wconn v))\<lparr>out := out (wconn v) @ replicate k CHR ''N''\<rparr>"
    by blast
  have o: "out (wconn v) = out (wconn w) @ ''N''" by (simp add: v(2))
  have "wconn w1 = (consume (8 * Suc k + length (startup_bytes pairs)) (wconn w))\<lparr>out := out (wconn w) @ replicate (Suc k) CHR ''N''\<rparr>"
    using w1(4) unfolding c o by simp
  moreover have "pg_startup_loop (x, w) = pg_startup_loop (x, v)" using v(1) by (subst pg_startup_loop.simps) simp
  ultimately show ?case using w1(1-3) same_rest_trans [OF v(4) w1(3)] by (intro exI [of _ w1]) simp
qed

text \<open>Startup captures who is connecting, however often the client asks for SSL first: each
  request is declined with the single byte N, then the user and the database of the version 3
  startup message are returned, the database defaulting to the user name, and exactly the startup
  traffic has been consumed.\<close>

theorem pg_doStartup_captures:
  assumes "readable (wconn (set_read_deadline 30 w)) = concat (replicate k ssl_bytes) @ startup_bytes pairs @ rest"
    and "startup_ok pairs" "wr_open (consume (8 * k + length (startup_bytes pairs)) (wconn w))"
  shows "\<exists>w1. pg_doStartup w =
      (let user = get_param (map_of (rev pairs)) ''user''; db = get_param (map_of (rev pairs)) ''database''
       in Some (Inr (user, if db = [] then user else db), w1))
    \<and> readable (wconn w1) = rest \<and> out (wconn w1) = out (wconn w) @ replicate k CHR ''N''"
proof -
  let ?w = "set_read_deadline 30 w"
  have "wr_open (consume (8 * k + length (startup_bytes pairs)) (wconn ?w))"
    using assms(3) by (simp add: consume_deadline)
  from pg_startup_loop_captures [OF assms(1,2) this, of "Inr ([], [])"] obtain w1 where
    "pg_startup_loop (Inr ([], []), ?w) =
      (let user = get_param (map_of (rev pairs)) ''user''; db = get_param (map_of (rev pairs)) ''database''
       in Some (Inr (user, if db = [] then user else db), w1))" "readable (wconn w1) = rest"
    "out (wconn w1) = out (wconn w) @ replicate k CHR ''N''" by auto
  then show ?thesis unfolding pg_doStartup_def by blast
qed

theorem pg_doStartup_captures_witness:
  "\<exists>w1. pg_doStartup (quiet_world [] (ssl_bytes @ startup_bytes [(''user'', ''bob'')] @ ''p''))
      = Some (Inr (''bob'', ''bob''), w1) \<and> out (wconn w1) = ''N'' \<and> readable (wconn w1) = ''p''"
proof -
  let ?w = "quiet_world [] (ssl_bytes @ startup_bytes [(''user'', ''bob'')] @ ''p'')"
  have "readable (wconn (set_read_deadline 30 ?w)) = concat (replicate 1 ssl_bytes) @ startup_bytes [(''user'', ''bob'')] @ ''p''"
    by simp
  moreover have "startup_ok [(''user'', ''bob'')]"
    by (simp add: startup_ok_def pair_ok_def startup_bytes_def pair_bytes_def maxStartupLen_def Let_def)
  moreover have "wr_open (consume (8 * 1 + length (startup_bytes [(''user'', ''bob'')])) (wconn ?w))" "out (wconn ?w) = []"
    by (simp_all add: quiet_world_def quiet_conn_def wr_open_def)
  ultimately show ?thesis using pg_doStartup_captures [of ?w 1 "[(''user'', ''bob'')]" "''p''"]
    by (auto simp: get_param_def Let_def)
qed

section \<open>The session\<close>

text \<open>Messages survive the wire: any sequence of typed messages of at most 1 MB, written back to
  back, is read back as the same sequence, with what follows left unread.\<close>

theorem pg_message_stream_roundtrip:
  assumes "list_all pg_valid ms" "readable (wconn w) = concat (map pg_bytes ms) @ rest"
  shows "fst (read_msgs pg_readMessage (length ms) w) = ms
    \<and> readable (wconn (snd (read_msgs pg_readMessage (length ms) w))) = rest"
  using assms by (intro pg_messages.read_stream) (simp_all add: list_all_iff)

theorem pg_message_stream_roundtrip_witness:
  "fst (read_msgs pg_readMessage 2 (quiet_world []
      (pg_bytes (CHR ''Q'', ''SELECT 1'') @ pg_bytes (CHR ''X'', []) @ ''z'')))
    = [(CHR ''Q'', ''SELECT 1''), (CHR ''X'', [])]"
  using pg_message_stream_roundtrip [of "[(CHR ''Q'', ''SELECT 1''), (CHR ''X'', [])]"
      "quiet_world [] (pg_bytes (CHR ''Q'', ''SELECT 1'') @ pg_bytes (CHR ''X'', []) @ ''z'')" "''z''"]
  by (simp add: pg_valid_def pg_maxMsgLen_def numeral_2_eq_2)

lemma pg_startup_step_facts:
  "pg_startup_step st \<noteq> Crash"
  "pg_startup_step st = Continue st' \<or> pg_startup_step st = Return st' \<Longrightarrow>
     evolves (snd st) (snd st') \<and> same_rest (snd st) (snd st')"
proof -
  have tot: "parseStartupParams d = None \<Longrightarrow> False" for d using parseStartupParams_total [of d] by auto
  show "pg_startup_step st \<noteq> Crash"
    by (auto simp: pg_startup_step_def Let_def be_uint32_None split: prod.splits sum.splits option.splits
        dest: tot)
  obtain r1 w1 where r1: "read_full 4 (snd st) = (r1, w1)" by fastforce
  obtain r2 w2 where r2: "read_full (be_nat (projr r1) - 4) w1 = (r2, w2)" by fastforce
  obtain e w3 where wr: "write_bytes ''N'' w2 = (e, w3)" by fastforce
  note e1 = evolves_read_full [OF r1] and s1 = same_rest_read [OF r1]
  note e2 = evolves_trans [OF e1 evolves_read_full [OF r2]] and s2 = same_rest_trans [OF s1 same_rest_read [OF r2]]
  note e3 = evolves_trans [OF e2 evolves_write [OF wr]] and s3 = same_rest_trans [OF s2 same_rest_write [OF wr]]
  show "pg_startup_step st = Continue st' \<or> pg_startup_step st = Return st' \<Longrightarrow>
     evolves (snd st) (snd st') \<and> same_rest (snd st) (snd st')"
    using r1 r2 wr e1 s1 e2 s2 e3 s3
    by (auto simp: pg_startup_step_def Let_def split: sum.splits if_splits option.splits)
qed

lemma pg_startup_step_paced:
  "pg_startup_step st = Continue st' \<Longrightarrow> paced True (snd st) (snd st')"
  "pg_startup_step st = Return st' \<Longrightarrow> paced (\<not> isl (fst st')) (snd st) (snd st')"
proof -
  obtain r1 w1 where r1: "read_full 4 (snd st) = (r1, w1)" by fastforce
  obtain r2 w2 where r2: "read_full (be_nat (projr r1) - 4) w1 = (r2, w2)" by fastforce
  obtain e w3 where wr: "write_bytes ''N'' w2 = (e, w3)" by fastforce
  note p1 = paced_read_full [OF r1]
  note p2 = paced_trans [OF _ paced_read_full [OF r2], of "snd st"]
  note p3 = paced_trans [OF _ sends_paced [OF sends_write [OF wr]], of "snd st"]
  show "pg_startup_step st = Continue st' \<Longrightarrow> paced True (snd st) (snd st')"
    using r1 p1 r2 p2 wr p3
    by (auto simp: pg_startup_step_def Let_def split: sum.splits if_splits option.splits)
  show "pg_startup_step st = Return st' \<Longrightarrow> paced (\<not> isl (fst st')) (snd st) (snd st')"
    using r1 p1 r2 p2 wr p3 paced_weaken [of "snd st"]
    by (auto simp: pg_startup_step_def Let_def split: sum.splits if_splits option.splits)
qed

lemma pg_doStartup_facts:
  "\<exists>r w1. pg_doStartup w = Some (r, w1) \<and> evolves w w1 \<and> same_rest w w1
    \<and> paced (\<not> isl r) (set_read_deadline 30 w) w1"
proof -
  let ?st = "(Inr ([], []) :: goerr + bytes \<times> bytes, set_read_deadline 30 w)"
  obtain st' where s: "pg_startup_loop ?st = Some st'"
    using pg_start.run_returns [of "\<lambda>_. True" ?st] pg_startup_step_facts(1) by blast
  have "evolves (snd ?st) (snd st') \<and> same_rest (snd ?st) (snd st')"
    using s
  proof (rule pg_start.run_related [where R = "\<lambda>a b. evolves (snd a) (snd b) \<and> same_rest (snd a) (snd b)"])
    fix a b c assume "evolves (snd a) (snd b) \<and> same_rest (snd a) (snd b)"
      "evolves (snd b) (snd c) \<and> same_rest (snd b) (snd c)"
    then show "evolves (snd a) (snd c) \<and> same_rest (snd a) (snd c)"
      using evolves_trans same_rest_trans by blast
  qed (simp, rule pg_startup_step_facts(2))
  then have e: "evolves w (snd st')" "same_rest w (snd st')"
    using evolves_deadline evolves_trans same_rest_deadline same_rest_trans by (metis snd_conv)+
  have "paced (\<not> isl (fst st')) (snd ?st) (snd st')"
    using s
  proof (rule pg_start.run_invariant [where I = "\<lambda>st. paced True (snd ?st) (snd st)"])
    fix a b :: "(goerr + bytes \<times> bytes) \<times> world"
    assume "paced True (snd ?st) (snd a)"
    then show "pg_startup_step a = Continue b \<Longrightarrow> paced True (snd ?st) (snd b)"
        "pg_startup_step a = Return b \<Longrightarrow> paced (\<not> isl (fst b)) (snd ?st) (snd b)"
      using pg_startup_step_paced paced_trans by blast+
  qed simp
  then show ?thesis using s e by (intro exI [of _ "fst st'"] exI [of _ "snd st'"]) (simp add: pg_doStartup_def)
qed

lemma pg_answer_keeps:
  assumes "send_all (pg_answer t) w = (e, w1)"
  shows "evolves w w1" "same_rest w w1" "sends (e = None) w w1"
  using send_all_writes_keep [OF assms pg_answer_writes]
  by blast+

lemma pg_step_cases:
  assumes "pg_step src u d w = Continue w' \<or> pg_step src u d w = Return w'"
  obtains (stop) "w' = w" "pg_step src u d w = Return w'"
  | (reads) r w1 where "\<not> ctx_Done w" "pg_readMessage w = (r, w1)" "w' = w1" "pg_step src u d w = Return w'"
  | (answers) r w1 w2 w3 t e where "\<not> ctx_Done w" "pg_readMessage w = (Inr r, w1)" "w2 = w1 \<or> (\<exists>ev. loggable ev \<and> w2 = log_event ev w1)"
      "send_all (pg_answer t) w2 = (e, w3)"
      "if e = None then pg_step src u d w = Continue w' \<and> w' = set_read_deadline 60 w3 else pg_step src u d w = Return w' \<and> w' = w3"
proof (cases "ctx_Done w")
  case True
  then show thesis using assms stop by (auto simp: pg_step_def)
next
  case False
  obtain r w1 where r: "pg_readMessage w = (r, w1)" by fastforce
  show thesis
  proof (cases "\<exists>t p. r = Inr (t, p) \<and> t \<noteq> CHR ''X''")
    case True
    then obtain t p where t: "r = Inr (t, p)" "t \<noteq> CHR ''X''" by blast
    define w2 where "w2 = (if t = CHR ''Q'' then log_event (pg_event src u d [] (go_truncate (nullTermString p) 2048)) w1 else w1)"
    obtain e w3 where s: "send_all (pg_answer t) w2 = (e, w3)" by fastforce
    have "pg_step src u d w = (if e = None then Continue (set_read_deadline 60 w3) else Return w3)"
      using False r t s by (cases e) (simp_all add: pg_step_def w2_def Let_def)
    moreover have "w2 = w1 \<or> (\<exists>ev. loggable ev \<and> w2 = log_event ev w1)"
      unfolding w2_def using loggable_pg_event by (metis (full_types))
    ultimately show thesis using answers [OF False r [unfolded t(1)] _ s] assms by (auto split: if_splits)
  next
    case other: False
    then have "pg_step src u d w = Return w1"
      using False r by (cases r) (auto simp: pg_step_def)
    then show thesis using assms reads [OF False r] by simp
  qed
qed

lemma pg_step_facts:
  "pg_step src u d w \<noteq> Crash"
  "pg_step src u d w = Continue w' \<or> pg_step src u d w = Return w' \<Longrightarrow> evolves w w'"
proof -
  show "pg_step src u d w \<noteq> Crash"
    by (auto simp: pg_step_def Let_def split: prod.splits sum.splits option.splits)
  show "evolves w w'" if "pg_step src u d w = Continue w' \<or> pg_step src u d w = Return w'"
    using that
  proof (cases rule: pg_step_cases)
    case (answers r w1 w2 w3 t e)
    have "evolves w w3"
      using evolves_pg_readMessage [OF answers(2)] answers(3) pg_answer_keeps(1) [OF answers(4)] evolves_log evolves_trans
      by metis
    then show ?thesis using answers(5) evolves_trans [OF _ evolves_deadline] by (auto split: if_splits)
  qed (use evolves_pg_readMessage in auto)
qed

lemma pg_step_round:
  "pg_step src u d w = Continue w' \<Longrightarrow> goes_on w w'"
  "pg_step src u d w = Return w' \<Longrightarrow> gives_up w w'"
proof -
  have "(pg_step src u d w = Continue w' \<longrightarrow> goes_on w w') \<and> (pg_step src u d w = Return w' \<longrightarrow> gives_up w w')"
    if "pg_step src u d w = Continue w' \<or> pg_step src u d w = Return w'"
    using that
  proof (cases rule: pg_step_cases)
    case stop
    then show ?thesis by (simp add: gives_up_now)
  next
    case (reads r w1)
    then show ?thesis using round_reads(1) [OF reads(1) pg_readMessage_paced [OF reads(2)]] by auto
  next
    case (answers r w1 w2 w3 t e)
    have "goes_on w w1" using round_reads(2) [OF answers(1) pg_readMessage_paced [OF answers(2)]] by simp
    then have "goes_on w w2" using answers(3) goes_on_log by blast
    then show ?thesis
      using goes_on_sends [OF _ pg_answer_keeps(3) [OF answers(4)]] goes_on_deadline answers(5) by (auto split: if_splits)
  qed
  then show "pg_step src u d w = Continue w' \<Longrightarrow> goes_on w w'" "pg_step src u d w = Return w' \<Longrightarrow> gives_up w w'"
    by blast+
qed

lemma pg_loop_facts:
  "\<exists>w'. pg_loop src u d w = Some w' \<and> evolves w w' \<and> (watched T w \<longrightarrow> expired T w')"
proof -
  obtain w' where l: "pg_loop src u d w = Some w'"
    using pg.run_returns [of "\<lambda>_. True" w src u d] pg_step_facts(1) by blast
  have "evolves w w'"
    using l by (rule pg.run_related) (auto intro: evolves_trans pg_step_facts(2))
  moreover have "expired T w'" if "watched T w"
    using l that
    by (rule pg.run_invariant [where I = "watched T"]) (use pg_step_round in \<open>auto simp: goes_on_def gives_up_def\<close>)
  ultimately show ?thesis using l by blast
qed

lemma pg_startup_responses_writes: "set (pg_startup_responses order v pid key) \<subseteq> range write_bytes"
  by (auto simp: pg_startup_responses_def pg_senders_range)

lemma pg_serve_facts:
  assumes "PGPID (entropy w) = Some (pid, e2)" "RandUint32 e2 = Some (key, e3)"
  shows "\<exists>w'. pg_serve order v src u d w = Some w' \<and> evolves w w' \<and> (watched T w \<longrightarrow> expired T w')"
proof -
  obtain e w1 where s: "send_all (pg_startup_responses order v pid key) (w\<lparr>entropy := e3\<rparr>) = (e, w1)" by fastforce
  have k: "evolves w w1" "sends (e = None) w w1"
    using send_all_writes_keep [OF s pg_startup_responses_writes] evolves_trans [OF evolves_entropy, of e3 w w1]
      sends_trans [OF sends_entropy [of True w e3], of "e = None" w1] by blast+
  obtain w' where l: "pg_loop src u d (set_read_deadline 60 w1) = Some w'"
      "evolves (set_read_deadline 60 w1) w'" "watched T (set_read_deadline 60 w1) \<longrightarrow> expired T w'"
    using pg_loop_facts by blast
  have "evolves w w'" using k(1) evolves_deadline l(2) evolves_trans by blast
  moreover have "watched T w \<longrightarrow> expired T w1" "watched T w \<and> e = None \<longrightarrow> expired T w'"
    using sends_watched [OF k(2), of T] watched_deadline [of T w1] l(3) by blast+
  ultimately show ?thesis using assms s k l(1) by (cases e) (auto simp: pg_serve_def)
qed

lemma pg_readPasswordMessage_facts:
  assumes "pg_readPasswordMessage w = (r, w1)"
  shows "evolves w w1" "same_rest w w1"
    and "paced (\<not> isl r) w w1"
proof -
  obtain r1 w2 where r: "pg_readMessage w = (r1, w2)" by fastforce
  then have w1: "w1 = w2" using assms
    by (auto simp: pg_readPasswordMessage_def split: sum.splits prod.splits if_splits)
  show "evolves w w1" "same_rest w w1" using evolves_pg_readMessage [OF r] w1 by auto
  have "isl r1 \<Longrightarrow> isl r" using assms r
    by (auto simp: pg_readPasswordMessage_def split: sum.splits prod.splits if_splits)
  then show "paced (\<not> isl r) w w1" using pg_readMessage_paced [OF r] w1 paced_weaken by (cases "isl r1") auto
qed

lemma pg_authenticate_facts:
  assumes "PGSalt (entropy w) = Some (salt, e1)" "PGPID e1 = Some (pid, e2)" "RandUint32 e2 = Some (key, e3)"
  shows "\<exists>w'. pg_authenticate order v src u d w = Some w' \<and> evolves w w' \<and> (reading 30 T w \<longrightarrow> expired T w')"
proof -
  obtain b where b: "pg_sendAuthMD5 salt = write_bytes b" using pg_senders(1) by blast
  obtain e w1 where s: "write_bytes b (w\<lparr>entropy := e1\<rparr>) = (e, w1)" by fastforce
  have s1: "evolves w w1" "paced (e = None) w w1" "entropy w1 = e1"
    using evolves_trans [OF evolves_entropy evolves_write [OF s]] sends_paced [OF sends_trans [OF sends_entropy sends_write [OF s]]]
      same_rest_write [OF s] by (auto simp: same_rest_def)
  obtain r w2 where p: "pg_readPasswordMessage (set_read_deadline 30 w1) = (r, w2)" by fastforce
  note pf = pg_readPasswordMessage_facts [OF p]
  have p2: "evolves w w2" "entropy w2 = e1" using s1 pf(1,2) evolves_deadline evolves_trans
    by (blast, simp add: same_rest_def)
  have s2: "expired T w1" "e = None \<Longrightarrow> reading 60 T (set_read_deadline 30 w1)" if "reading 30 T w"
    using paced_reading [OF s1(2) that] reading_deadline [of 30 T w1 30] by simp_all
  have p3: "expired T w2" "\<not> isl r \<Longrightarrow> watched T w2" if "reading 30 T w" "e = None"
    using paced_reading [OF pf(3) s2(2) [OF that]] reading_watched [of 60 T w2] by simp_all
  show ?thesis
  proof (cases "e = None \<and> \<not> isl r")
    case False
    then show ?thesis using assms(1) b s p s1 p2(1) p3(1) s2(1)
      by (cases e; cases r) (auto simp: pg_authenticate_def)
  next
    case True
    then obtain h where h: "e = None" "r = Inr h" by (cases r) auto
    let ?w3 = "log_event (pg_event src u d h ''CONNECT'') w2"
    have "PGPID (entropy ?w3) = Some (pid, e2)" using p2(2) assms(2) by simp
    from pg_serve_facts [OF this assms(3), of order v src u d T]
    obtain w' where "pg_serve order v src u d ?w3 = Some w'" "evolves ?w3 w'" "watched T ?w3 \<longrightarrow> expired T w'"
      by blast
    moreover from this have "evolves w w'"
      using evolves_trans [OF evolves_trans [OF p2(1) evolves_log [OF loggable_pg_event]]] by blast
    ultimately show ?thesis using assms(1) b s p h p3(2) by (auto simp: pg_authenticate_def)
  qed
qed

lemma pg_Handler_facts:
  assumes "PGSalt (entropy w) = Some (salt, e1)" "PGPID e1 = Some (pid, e2)" "RandUint32 e2 = Some (key, e3)"
  shows "\<exists>w'. pg_Handler order version w = Some w' \<and> evolves w w' \<and> (settled T w \<longrightarrow> expired T w')"
proof -
  obtain r w1 where d: "pg_doStartup w = Some (r, w1)" "evolves w w1" "same_rest w w1"
      "paced (\<not> isl r) (set_read_deadline 30 w) w1"
    using pg_doStartup_facts [of w] by blast
  have t: "expired T w1" "\<not> isl r \<Longrightarrow> reading 30 T w1" if "settled T w"
    using paced_reading [OF d(4) settled_deadline [OF that]] by simp_all
  show ?thesis
  proof (cases r)
    case (Inl e)
    then show ?thesis using d t(1) by (simp add: pg_Handler_def)
  next
    case (Inr x)
    obtain u db where x: "x = (u, db)" by fastforce
    have "PGSalt (entropy w1) = Some (salt, e1)" using d(3) assms(1) by (simp add: same_rest_def)
    from pg_authenticate_facts [OF this assms(2,3), of order version "peer w" u db T]
    obtain w' where "pg_authenticate order version (peer w) u db w1 = Some w'" "evolves w1 w'"
        "reading 30 T w1 \<longrightarrow> expired T w'" by blast
    moreover from this have "evolves w w'" using d(2) evolves_trans by blast
    ultimately show ?thesis using d(1) t(2) Inr x by (auto simp: pg_Handler_def)
  qed
qed

definition pg_supplied :: "world \<Rightarrow> bool" where
  "pg_supplied w \<longleftrightarrow> (\<exists>salt e1 pid e2 key e3. PGSalt (entropy w) = Some (salt, e1) \<and> PGPID e1 = Some (pid, e2)
     \<and> RandUint32 e2 = Some (key, e3))"

interpretation pg_handler: protocol_handler "pg_Handler order version" pg_supplied for order version
proof unfold_locales
  fix w :: world and T c
  show "pg_supplied w \<Longrightarrow> \<exists>w'. pg_Handler order version w = Some w' \<and> evolves w w' \<and> (settled T w \<longrightarrow> expired T w')"
    using pg_Handler_facts unfolding pg_supplied_def by blast
  show "pg_supplied (w\<lparr>wconn := c\<rparr>) = pg_supplied w" by (simp add: pg_supplied_def)
qed

text \<open>C11. Whatever a PostgreSQL client sends, the handler comes to an end without a crash, provided
  the random source yields the salt, the process id and the cancel key; the log and the output only
  grow; and if the client is silent from time \<open>T\<close> on, or the context is cancelled by then, the handler
  is gone sixty seconds later and never blocks for good. A client that stops taking data holds the handler until the
  connection's write deadline, which therefore has to be over by then as well.\<close>

theorem pg_Handler_terminates_cleanly:
  assumes "PGSalt (entropy w) = Some (salt, e1)" "PGPID e1 = Some (pid, e2)" "RandUint32 e2 = Some (key, e3)"
    and "settled T w"
  shows "\<exists>w'. pg_Handler order version w = Some w' \<and> evolves w w' \<and> now w' \<le> T + 60 * second \<and> \<not> hung (wconn w')"
  using pg_Handler_facts [OF assms(1-3), of order version T] assms(4) by (auto simp: expired_def)

lemma pg_draws_zeros:
  "PGSalt (replicate 10 NUL) = Some (replicate 4 NUL, replicate 6 NUL)"
  "PGPID (replicate 6 NUL) = Some (2000, replicate 4 NUL)" "\<exists>key. RandUint32 (replicate 4 NUL) = Some (key, [])"
proof -
  have "PGPID (NUL # NUL # e) = Some (2000, e)" for e
    by (simp add: PGPID_def randIntRange_def rand_Int_def BitLen.simps Let_def rand_Int_loop.simps candidate_def be_nat_def)
  moreover have "replicate 6 NUL = NUL # NUL # replicate 4 NUL" by (simp add: numeral_eq_Suc)
  ultimately show "PGPID (replicate 6 NUL) = Some (2000, replicate 4 NUL)" by simp
qed (simp_all add: PGSalt_def RandUint32_def mustRead_def le_uint32_def)

theorem pg_Handler_terminates_cleanly_witness:
  "\<exists>w'. pg_Handler id ''14.9'' (quiet_world (replicate 10 NUL) (startup_bytes [(''user'', ''bob'')])) = Some w'
     \<and> now w' \<le> 60 * second"
proof -
  let ?w = "quiet_world (replicate 10 NUL) (startup_bytes [(''user'', ''bob'')])"
  obtain key where k: "RandUint32 (replicate 4 NUL) = Some (key, [])" using pg_draws_zeros(3) by blast
  have "PGSalt (entropy ?w) = Some (replicate 4 NUL, replicate 6 NUL)"
    using pg_draws_zeros(1) by (simp add: quiet_world_def)
  moreover have "settled 0 ?w" by simp
  ultimately show ?thesis
    using pg_Handler_terminates_cleanly [OF _ pg_draws_zeros(2) k, of ?w "replicate 4 NUL" 0 id "''14.9''"] by auto
qed

lemma nullTermString_NUL: "NUL \<notin> set s \<Longrightarrow> nullTermString (s @ NUL # r) = s"
  by (simp add: nullTermString_def)

lemma pg_authenticate_logs:
  assumes "PGSalt (entropy w) = Some (salt, e1)" "PGPID e1 = Some (pid, e2)" "RandUint32 e2 = Some (key, e3)"
    and "readable (wconn w) = pg_bytes (CHR ''p'', hash @ [NUL]) @ rest" "rd_deadline (wconn w) = Some dl"
    and "dl \<le> now w + 30 * second" "NUL \<notin> set hash" "length hash < pg_maxMsgLen"
    and "wr_open (wconn w)"
  shows "\<exists>w' t. pg_authenticate order v src u d w = Some w'
    \<and> log_extends (Log t (pg_event src u d hash ''CONNECT'') (wstore w)) (wstore w')"
proof -
  let ?m = "(CHR ''p'', hash @ [NUL])"
  obtain b where b: "pg_sendAuthMD5 salt = write_bytes b" using pg_senders(1) by blast
  define w1 where "w1 = w\<lparr>entropy := e1, wconn := (wconn w)\<lparr>out := out (wconn w) @ b\<rparr>\<rparr>"
  have wr: "write_bytes b (w\<lparr>entropy := e1\<rparr>) = (None, w1)"
    using assms(9) by (simp add: write_wr_open w1_def)
  have "prefix (readable (wconn w)) (readable (wconn (set_read_deadline 30 w1)))"
    using readable_later [of "wconn w1" dl "now w + 30 * second"] assms(5,6)
    by (simp add: w1_def set_read_deadline_def SetReadDeadline_def now_def)
  then obtain rest' where r: "readable (wconn (set_read_deadline 30 w1)) = pg_bytes ?m @ rest'"
    using assms(4) by (auto simp: prefix_def)
  define w2 where "w2 = (set_read_deadline 30 w1)\<lparr>wconn := consume (length (pg_bytes ?m)) (wconn (set_read_deadline 30 w1))\<rparr>"
  have "pg_readMessage (set_read_deadline 30 w1) = (Inr ?m, w2)"
    unfolding w2_def using assms(8) r by (intro pg_readMessage_bytes) (simp_all add: pg_valid_def)
  then have p: "pg_readPasswordMessage (set_read_deadline 30 w1) = (Inr hash, w2)"
    using assms(7) by (simp add: pg_readPasswordMessage_def nullTermString_NUL)
  let ?w3 = "log_event (pg_event src u d hash ''CONNECT'') w2"
  have w2: "entropy w2 = e1" "wstore w2 = wstore w" by (simp_all add: w2_def w1_def)
  then have "PGPID (entropy ?w3) = Some (pid, e2)" using assms(2) by simp
  from pg_serve_facts [OF this assms(3), of order v src u d 0] obtain w' where
    w': "pg_serve order v src u d ?w3 = Some w'" "evolves ?w3 w'" by blast
  have "pg_authenticate order v src u d w = Some w'" using assms(1) b wr p w'(1) by (simp add: pg_authenticate_def)
  moreover have "log_extends (wstore ?w3) (wstore w')" using w'(2) by (simp add: evolves_def)
  ultimately show ?thesis using w2 by auto
qed

text \<open>A PostgreSQL login is captured from the wire to the log: when the client's startup message
  (after any number of SSL requests) and its password message arrive within the thirty seconds the
  handler waits, the handler logs the CONNECT event with the user, the database and the MD5 response
  that were sent, before anything else, and whatever the client does next only adds to the log.\<close>

theorem pg_login_captured:
  assumes "readable (wconn (set_read_deadline 30 w)) = concat (replicate k ssl_bytes) @ startup_bytes pairs
        @ pg_bytes (CHR ''p'', hash @ [NUL]) @ rest"
    and "startup_ok pairs" "map_of (rev pairs) ''user'' = Some user" "map_of (rev pairs) ''database'' = Some db" "db \<noteq> []"
    and "NUL \<notin> set hash" "length hash < pg_maxMsgLen" "wr_open (consume (8 * k + length (startup_bytes pairs)) (wconn w))"
    and "PGSalt (entropy w) = Some (salt, e1)" "PGPID e1 = Some (pid, e2)" "RandUint32 e2 = Some (key, e3)"
  shows "\<exists>w' t. pg_Handler order version w = Some w'
    \<and> log_extends (Log t (pg_event (peer w) user db hash ''CONNECT'') (wstore w)) (wstore w')"
proof -
  let ?w0 = "set_read_deadline 30 w"
  have c: "wr_open (consume (8 * k + length (startup_bytes pairs)) (wconn ?w0))"
    using assms(8) by (simp add: consume_deadline)
  obtain w1 where l: "pg_startup_loop (Inr ([], []), ?w0) = Some (Inr (user, db), w1)"
      "readable (wconn w1) = pg_bytes (CHR ''p'', hash @ [NUL]) @ rest" "same_rest ?w0 w1"
      "wr_open (wconn w1)" "rd_deadline (wconn w1) = Some (now w + 30 * second)"
    using pg_startup_loop_captures [OF assms(1,2) c, of "Inr ([], [])"] assms(3-5) c
    by (auto simp: get_param_def Let_def)
  have s: "pg_doStartup w = Some (Inr (user, db), w1)" using l(1) by (simp add: pg_doStartup_def)
  obtain r' w'' where "pg_doStartup w = Some (r', w'')" "evolves w w''" using pg_doStartup_facts by blast
  then have "now w \<le> now w1" using s by (simp add: evolves_def)
  then have dl: "now w + 30 * second \<le> now w1 + 30 * second" by simp
  have "PGSalt (entropy w1) = Some (salt, e1)" "wstore w1 = wstore w"
    using l(3) assms(9) by (simp_all add: same_rest_def)
  with pg_authenticate_logs [OF _ assms(10,11) l(2) l(5) dl assms(6,7) l(4), of salt order version "peer w" user db]
  show ?thesis using s by (simp add: pg_Handler_def)
qed

theorem pg_login_captured_witness:
  "\<exists>w' t. pg_Handler id ''14.9'' (quiet_world (replicate 10 NUL)
        (ssl_bytes @ startup_bytes [(''user'', ''bob''), (''database'', ''shop'')]
          @ pg_bytes (CHR ''p'', ''md5abc'' @ [NUL]))) = Some w'
    \<and> log_extends (Log t (pg_event (''10.0.0.1'', 4000) ''bob'' ''shop'' ''md5abc'' ''CONNECT'') (wstore (quiet_world [] []))) (wstore w')"
proof -
  let ?p = "[(''user'', ''bob''), (''database'', ''shop'')]"
  let ?w = "quiet_world (replicate 10 NUL) (ssl_bytes @ startup_bytes ?p @ pg_bytes (CHR ''p'', ''md5abc'' @ [NUL]))"
  obtain key where k: "RandUint32 (replicate 4 NUL) = Some (key, [])" using pg_draws_zeros(3) by blast
  have r: "readable (wconn (set_read_deadline 30 ?w)) = concat (replicate 1 ssl_bytes) @ startup_bytes ?p
      @ pg_bytes (CHR ''p'', ''md5abc'' @ [NUL]) @ []" by simp
  have ok: "startup_ok ?p"
    by (simp add: startup_ok_def pair_ok_def startup_bytes_def pair_bytes_def maxStartupLen_def Let_def)
  have m: "map_of (rev ?p) ''user'' = Some ''bob''" "map_of (rev ?p) ''database'' = Some ''shop''" "''shop'' \<noteq> []"
      "NUL \<notin> set ''md5abc''" "length ''md5abc'' < pg_maxMsgLen" by (simp_all add: pg_maxMsgLen_def)
  have c: "wr_open (consume (8 * 1 + length (startup_bytes ?p)) (wconn ?w))"
      "PGSalt (entropy ?w) = Some (replicate 4 NUL, replicate 6 NUL)" "wstore ?w = wstore (quiet_world [] [])"
    using pg_draws_zeros(1) by (simp_all add: quiet_world_def quiet_conn_def wr_open_def)
  from pg_login_captured [OF r ok m c(1,2) pg_draws_zeros(2) k, of id "''14.9''"] show ?thesis unfolding c(3) by simp
qed

lemma pg_step_reads:
  assumes "\<not> ctx_Done w" "readable (wconn w) = pg_bytes (t, p) @ rest" "length p \<le> pg_maxMsgLen" "t \<noteq> CHR ''X''"
  shows "pg_step src u d w =
    (let w1 = w\<lparr>wconn := consume (5 + length p) (wconn w)\<rparr>;
         w2 = (if t = CHR ''Q'' then log_event (pg_event src u d [] (go_truncate (nullTermString p) 2048)) w1 else w1)
     in case send_all (pg_answer t) w2 of (Some e, w3) \<Rightarrow> Return w3 | (None, w3) \<Rightarrow> Continue (set_read_deadline 60 w3))"
proof -
  have "pg_readMessage w = (Inr (t, p), w\<lparr>wconn := consume (5 + length p) (wconn w)\<rparr>)"
    using pg_readMessage_bytes [of "(t, p)" w rest] assms by (simp add: pg_valid_def pg_bytes_def)
  then show ?thesis using assms(1,4) by (simp add: pg_step_def Let_def)
qed

text \<open>C34. A simple query is captured and answered: on a connection that takes data when it is in, a Query message
  makes one log entry with the first 2048 bytes of the query text under the session's user and
  database, the reply is EmptyQueryResponse and ReadyForQuery, and the read deadline is renewed.\<close>

theorem pg_query_captured:
  assumes "\<not> ctx_Done w" "readable (wconn w) = pg_bytes (CHR ''Q'', query @ [NUL]) @ rest"
    and "NUL \<notin> set query" "length query < pg_maxMsgLen" "wr_open (consume (6 + length query) (wconn w))"
  shows "\<exists>w'. pg_step src user db w = Continue w'
    \<and> wstore w' = Log (now w') (pg_event src user db [] (take 2048 query)) (wstore w)
    \<and> out (wconn w') = out (wconn w) @ pg_bytes (CHR ''I'', []) @ pg_bytes (CHR ''Z'', ''I'')
    \<and> incoming (wconn w') = drop (6 + length query) (incoming (wconn w))
    \<and> rd_deadline (wconn w') = Some (now w' + 60 * second)"
proof -
  let ?ev = "pg_event src user db [] (take 2048 query)"
  define w1 where "w1 = w\<lparr>wconn := consume (6 + length query) (wconn w)\<rparr>"
  have w1: "wr_open (wconn (log_event ?ev w1))" using assms(5) by (simp add: w1_def)
  have "pg_answer CHR ''Q'' = map write_bytes [pg_bytes (CHR ''I'', []), pg_bytes (CHR ''Z'', ''I'')]"
    by (simp add: pg_answer_def pg_sendEmptyQueryResponse_def pg_sendReadyForQuery_def pg_sendMsg_bytes)
  then have "send_all (pg_answer CHR ''Q'') (log_event ?ev w1) = (None, (log_event ?ev w1)\<lparr>wconn :=
      (wconn w1)\<lparr>out := out (wconn w1) @ pg_bytes (CHR ''I'', []) @ pg_bytes (CHR ''Z'', ''I'')\<rparr>\<rparr>)"
    using send_all_writes [OF w1, of "[pg_bytes (CHR ''I'', []), pg_bytes (CHR ''Z'', ''I'')]"]
    by (simp only: log_event_simps concat.simps append_Nil2)
  moreover have "pg_step src user db w = (case send_all (pg_answer CHR ''Q'') (log_event ?ev w1) of
      (Some e, w3) \<Rightarrow> Return w3 | (None, w3) \<Rightarrow> Continue (set_read_deadline 60 w3))"
    using pg_step_reads [OF assms(1,2)] assms(3,4)
    by (simp add: w1_def nullTermString_NUL go_truncate_eq_take)
  ultimately show ?thesis by (simp add: w1_def now_def)
qed

theorem pg_query_captured_witness:
  "\<exists>w'. pg_step (''10.0.0.1'', 4000) ''bob'' ''shop'' 
        (with_deadline (30 * int second) (quiet_world [] (pg_bytes (CHR ''Q'', ''SELECT 1'' @ [NUL])))) = Continue w'
    \<and> wstore w' = Log (now w') (pg_event (''10.0.0.1'', 4000) ''bob'' ''shop'' [] ''SELECT 1'')
        (wstore (quiet_world [] (pg_bytes (CHR ''Q'', ''SELECT 1'' @ [NUL]))))"
proof -
  let ?w = "with_deadline (30 * int second) (quiet_world [] (pg_bytes (CHR ''Q'', ''SELECT 1'' @ [NUL])))"
  have "\<not> ctx_Done ?w" "readable (wconn ?w) = pg_bytes (CHR ''Q'', ''SELECT 1'' @ [NUL]) @ []" "NUL \<notin> set ''SELECT 1''"
      "length ''SELECT 1'' < pg_maxMsgLen" "wr_open (consume (6 + length ''SELECT 1'') (wconn ?w))"
    by (simp_all add: pg_maxMsgLen_def second_def) (simp add: ctx_Done_def quiet_world_def)
  from pg_query_captured [OF this, of "(''10.0.0.1'', 4000)" "''bob''" "''shop''"] show ?thesis by auto
qed

text \<open>A message of an unknown type is ignored but keeps the session alive: nothing is logged or
  sent, and the read deadline moves to sixty seconds from now, whatever deadline the listener had
  put on the connection.\<close>

theorem pg_ignored_message_extends_deadline:
  assumes "\<not> ctx_Done w" "readable (wconn w) = pg_bytes (t, p) @ rest" "length p \<le> pg_maxMsgLen"
    and "t \<notin> {CHR ''Q'', CHR ''X'', CHR ''P'', CHR ''B'', CHR ''D'', CHR ''E'', CHR ''S''}"
  shows "\<exists>w'. pg_step src user db w = Continue w' \<and> wstore w' = wstore w \<and> out (wconn w') = out (wconn w)
    \<and> incoming (wconn w') = drop (5 + length p) (incoming (wconn w))
    \<and> rd_deadline (wconn w') = Some (now w' + 60 * second) \<and> wr_deadline (wconn w') = wr_deadline (wconn w)"
proof -
  have "pg_answer t = []" "t \<noteq> CHR ''Q''" using assms(4) by (auto simp: pg_answer_def)
  then show ?thesis using pg_step_reads [OF assms(1-3)] assms(4)
    by (simp add: Let_def set_read_deadline_def SetReadDeadline_def now_def)
qed

text \<open>The listener set an absolute deadline of thirty seconds; a message of unknown type at twenty
  seconds moves the read deadline to eighty.\<close>

theorem pg_ignored_message_extends_deadline_witness:
  "\<exists>c w'. c = SetDeadline (30 * second) (quiet_conn []\<lparr>incoming := map (\<lambda>b. (20 * second, b)) (pg_bytes (CHR ''z'', []))\<rparr>)
    \<and> pg_step (''10.0.0.1'', 4000) ''bob'' ''shop'' (quiet_world [] []\<lparr>wconn := c\<rparr>) = Continue w'
    \<and> rd_deadline (wconn w') = Some (80 * second)"
proof -
  define c where "c = SetDeadline (30 * second) (quiet_conn []\<lparr>incoming := map (\<lambda>b. (20 * second, b)) (pg_bytes (CHR ''z'', []))\<rparr>)"
  let ?w = "quiet_world [] []\<lparr>wconn := c\<rparr>"
  have "be_bytes 4 4 = [NUL, NUL, NUL, CHR 0x04]"
    by code_simp
  then have b: "pg_bytes (CHR ''z'', []) = [CHR ''z'', NUL, NUL, NUL, CHR 0x04]"
    by (simp add: pg_bytes_def)
  have "readable c = pg_bytes (CHR ''z'', [])"
    unfolding c_def b by (simp add: readable_def SetDeadline_def quiet_conn_def in_time_def second_def)
  then obtain w' where s: "pg_step (''10.0.0.1'', 4000) ''bob'' ''shop'' ?w = Continue w'"
      "rd_deadline (wconn w') = Some (now w' + 60 * second)"
    using pg_ignored_message_extends_deadline [of ?w "CHR ''z''" "[]" "[]" "(''10.0.0.1'', 4000)" "''bob''" "''shop''"]
    by (auto simp: quiet_world_def ctx_Done_def)
  have "pg_readMessage ?w = (Inr (CHR ''z'', []), ?w\<lparr>wconn := consume 5 c\<rparr>)"
    using pg_readMessage_bytes [of "(CHR ''z'', [])" ?w "[]"] \<open>readable c = _\<close> by (simp add: pg_valid_def pg_bytes_def)
  then have "now w' = 20 * second" using s(1)
    by (simp add: pg_step_def ctx_Done_def quiet_world_def pg_answer_def)
      (auto simp: now_def consume_def c_def b SetDeadline_def quiet_conn_def set_read_deadline_def SetReadDeadline_def)
  then show ?thesis using s c_def by auto
qed

end
