(* ===== verification/Redis.thy ===== *)
theory Redis
  imports Fingerprint Server
begin

text \<open>
  \<^verbatim>\<open>internal/proto/redis\<close>: the RESP reader and writers (\<^verbatim>\<open>resp.go\<close>), and the command loop
  (\<^verbatim>\<open>handler.go\<close>).

  The handler writes through a \<^verbatim>\<open>bufio.Writer\<close> of 32 KB. Its buffer and its sticky error are part
  of the handler's state, together with the three counters; a reply reaches the client only when
  the writer is flushed or overflows. The buffered reader is transparent: it hands out the bytes of
  the connection in order.

  \<open>U\<close> is the table of Unicode case mappings outside ASCII.
\<close>

record redis_world = world +
  wbuf :: bytes
  werr :: "goerr option"
  received :: "64 word"
  active :: "64 word"
  commands :: "64 word"

section \<open>RESP: reading\<close>

definition maxBulkLen :: int where "maxBulkLen = 16 * 1024 * 1024"
definition maxInlineLen :: nat where "maxInlineLen = 65536"
definition maxArgs :: int where "maxArgs = 1024"

record RCommand =
  Name :: bytes
  Args :: "bytes list"

definition readLine :: "('a) world_scheme \<Rightarrow> (goerr + bytes) \<times> ('a) world_scheme" where
  "readLine w =
    (case read_string LF w of
       (Inl e, w1) \<Rightarrow> (Inl e, w1)
     | (Inr line, w1) \<Rightarrow> (Inr (TrimSuffix (TrimSuffix line [LF]) [CR]), w1))"

definition readBulkString :: "('a) world_scheme \<Rightarrow> (goerr + bytes) \<times> ('a) world_scheme" where
  "readBulkString w =
    (case readLine w of
       (Inl e, w1) \<Rightarrow> (Inl e, w1)
     | (Inr line, w1) \<Rightarrow>
         if length line < 1 \<or> line ! 0 \<noteq> CHR ''$'' then (Inl (ErrProto ''expected bulk string''), w1)
         else case Atoi (drop 1 line) of
           None \<Rightarrow> (Inl (ErrProto ''invalid bulk length''), w1)
         | Some n \<Rightarrow>
             if n < -1 \<or> n > maxBulkLen then (Inl (ErrProto ''invalid bulk length''), w1)
             else if n = -1 then (Inr [], w1)
             else case read_full (nat n + 2) w1 of
               (Inl e, w2) \<Rightarrow> (Inl e, w2)
             | (Inr buf, w2) \<Rightarrow>
                 if buf ! nat n \<noteq> CR \<or> buf ! (nat n + 1) \<noteq> LF
                 then (Inl (ErrProto ''missing CRLF after bulk data''), w2)
                 else (Inr (take (nat n) buf), w2))"

text \<open>The loop of \<^verbatim>\<open>readMultiBulk\<close>: as many bulk strings as the header announced.\<close>

fun read_bulks :: "nat \<Rightarrow> ('a) world_scheme \<Rightarrow> (goerr + bytes list) \<times> ('a) world_scheme" where
  "read_bulks 0 w = (Inr [], w)"
| "read_bulks (Suc n) w =
    (case readBulkString w of
       (Inl e, w1) \<Rightarrow> (Inl e, w1)
     | (Inr bulk, w1) \<Rightarrow>
         (case read_bulks n w1 of
            (Inl e, w2) \<Rightarrow> (Inl e, w2)
          | (Inr args, w2) \<Rightarrow> (Inr (bulk # args), w2)))"

definition readMultiBulk :: "unicode_tables \<Rightarrow> bytes \<Rightarrow> ('a) world_scheme \<Rightarrow> (goerr + RCommand) \<times> ('a) world_scheme" where
  "readMultiBulk U header w =
    (case Atoi (drop 1 header) of
       None \<Rightarrow> (Inl (ErrProto ''invalid array count''), w)
     | Some count \<Rightarrow>
         if count < 1 \<or> count > maxArgs then (Inl (ErrProto ''invalid array count''), w)
         else case read_bulks (nat count) w of
           (Inl e, w1) \<Rightarrow> (Inl e, w1)
         | (Inr args, w1) \<Rightarrow>
             if length args = 0 then (Inl (ErrProto []), w1)
             else (Inr \<lparr>Name = ToUpper U (args ! 0), Args = args\<rparr>, w1))"

definition readInline :: "unicode_tables \<Rightarrow> bytes \<Rightarrow> goerr + RCommand" where
  "readInline U line =
    (if length line > maxInlineLen then Inl (ErrProto ''inline command too long'')
     else let parts = Fields line in
       if length parts = 0 then Inl (ErrProto [])
       else Inr \<lparr>Name = ToUpper U (parts ! 0), Args = parts\<rparr>)"

definition ReadCommand :: "unicode_tables \<Rightarrow> ('a) world_scheme \<Rightarrow> (goerr + RCommand) \<times> ('a) world_scheme" where
  "ReadCommand U w =
    (case readLine w of
       (Inl e, w1) \<Rightarrow> (Inl e, w1)
     | (Inr line, w1) \<Rightarrow>
         if length line = 0 then (Inl (ErrProto []), w1)
         else if line ! 0 = CHR ''*'' then readMultiBulk U line w1
         else (readInline U line, w1))"

section \<open>The buffered writer\<close>

definition bufio_size :: nat where "bufio_size = 32 * 1024"

definition bufio_Flush :: "redis_world sender" where
  "bufio_Flush w =
    (case werr w of
       Some e \<Rightarrow> (Some e, w)
     | None \<Rightarrow>
         if wbuf w = [] then (None, w)
         else case write_bytes (wbuf w) w of
           (None, w1) \<Rightarrow> (None, w1\<lparr>wbuf := []\<rparr>)
         | (Some e, w1) \<Rightarrow>
             (Some e, w1\<lparr>wbuf := drop (length (out (wconn w1)) - length (out (wconn w))) (wbuf w), werr := Some e\<rparr>))"

lemma write_frame:
  "write_bytes b w = (e, w1) \<Longrightarrow> wbuf w1 = wbuf w \<and> werr w1 = werr w \<and> received w1 = received w
     \<and> active w1 = active w \<and> commands w1 = commands w"
  by (auto simp: write_bytes_def split: prod.splits)

function bufio_Write :: "bytes \<Rightarrow> redis_world sender" where
  "bufio_Write p w =
    (let avail = bufio_size - length (wbuf w) in
     if length p > avail \<and> werr w = None then
       if wbuf w = [] then
         (case write_bytes p w of
            (None, w1) \<Rightarrow> bufio_Write [] w1
          | (Some e, w1) \<Rightarrow> (Some e, w1\<lparr>werr := Some e\<rparr>))
       else
         (case bufio_Flush (w\<lparr>wbuf := wbuf w @ take avail p\<rparr>) of
            (None, w1) \<Rightarrow> bufio_Write (drop avail p) w1
          | (Some e, w1) \<Rightarrow> (Some e, w1))
     else case werr w of
       Some e \<Rightarrow> (Some e, w)
     | None \<Rightarrow> (None, w\<lparr>wbuf := wbuf w @ p\<rparr>))"
  by pat_completeness auto
termination
proof (relation "measures [\<lambda>(p, w). length p, \<lambda>(p, w). length (wbuf w)]")
  fix p w avail x1 y e and w1 :: redis_world
  assume "avail = bufio_size - length (wbuf w)" "avail < length p \<and> werr w = None" "wbuf w \<noteq> []"
    "(e, w1) = bufio_Flush (w\<lparr>wbuf := wbuf w @ take avail p\<rparr>)" "e = None"
  then have "wbuf w1 = []"
    by (auto simp: bufio_Flush_def split: option.splits prod.splits)
  then show "((drop avail p, w1), p, w) \<in> measures [\<lambda>(p, w). length p, \<lambda>(p, w). length (wbuf w)]"
    using \<open>wbuf w \<noteq> []\<close> by auto
qed auto

declare bufio_Write.simps [simp del]

section \<open>RESP: writing\<close>

definition WriteSimple :: "bytes \<Rightarrow> redis_world sender" where
  "WriteSimple s = bufio_Write (''+'' @ s @ CRLF)"

definition WriteError :: "bytes \<Rightarrow> redis_world sender" where
  "WriteError s = bufio_Write (''-ERR '' @ s @ CRLF)"

definition WriteInt :: "int \<Rightarrow> redis_world sender" where
  "WriteInt n = bufio_Write ('':'' @ dec_int n @ CRLF)"

definition resp_bulk :: "bytes \<Rightarrow> bytes" where
  "resp_bulk s = ''$'' @ dec_nat (length s) @ CRLF @ s @ CRLF"

definition WriteBulk :: "bytes \<Rightarrow> redis_world sender" where
  "WriteBulk s = bufio_Write (resp_bulk s)"

definition WriteNull :: "redis_world sender" where
  "WriteNull = bufio_Write (''$-1'' @ CRLF)"

definition WriteArray :: "bytes list \<Rightarrow> redis_world sender" where
  "WriteArray items = send_all (bufio_Write (''*'' @ dec_nat (length items) @ CRLF) # map WriteBulk items)"

section \<open>INFO\<close>

definition info_lines :: "bytes list \<Rightarrow> bytes" where
  "info_lines ls = concat (map (\<lambda>l. l @ [LF]) ls)"

definition info_server :: "FP \<Rightarrow> bytes \<Rightarrow> bytes \<Rightarrow> nat \<Rightarrow> bytes" where
  "info_server fp version build t = info_lines
    [''# Server'',
     ''redis_version:'' @ version,
     ''redis_git_sha1:00000000'',
     ''redis_git_dirty:0'',
     ''redis_build_id:'' @ build,
     ''redis_mode:standalone'',
     ''os:Linux 5.15.0-1057-aws x86_64'',
     ''arch_bits:64'',
     ''monotonic_clock:POSIX clock_gettime'',
     ''multiplexing_api:epoll'',
     ''atomicvar_api:c11-builtin'',
     ''gcc_version:11.4.0'',
     ''process_id:'' @ dec_int (RedisProcessID fp),
     ''run_id:'' @ RedisRunID fp,
     ''tcp_port:6379'',
     ''server_time_usec:'' @ dec_nat (t div 1000),
     ''uptime_in_seconds:'' @ dec_int (UptimeSeconds fp t),
     ''uptime_in_days:'' @ dec_int (UptimeSeconds fp t div 86400),
     ''hz:10'',
     ''configured_hz:10'',
     ''aof_rewrites:0'',
     ''rdb_changes_since_last_save:0'',
     ''rdb_bgsave_in_progress:0'',
     ''rdb_last_save_time:'' @ dec_int (RedisSaveEpoch fp),
     ''rdb_last_bgsave_status:ok'',
     ''aof_enabled:0'']"

definition info_clients :: "bytes" where
  "info_clients = info_lines
    [''# Clients'',
     ''connected_clients:1'',
     ''cluster_connections:0'',
     ''maxclients:10000'',
     ''client_recent_max_input_buffer:20480'',
     ''client_recent_max_output_buffer:0'']"

definition info_stats :: "64 word \<Rightarrow> 64 word \<Rightarrow> bytes" where
  "info_stats conns cmds = info_lines
    [''# Stats'',
     ''total_connections_received:'' @ dec_int (sint conns),
     ''total_commands_processed:'' @ dec_int (sint cmds),
     ''instantaneous_ops_per_sec:0'',
     ''total_net_input_bytes:0'',
     ''total_net_output_bytes:0'',
     ''rejected_connections:0'']"

definition info_replication :: "FP \<Rightarrow> bytes" where
  "info_replication fp = info_lines
    [''# Replication'',
     ''role:master'',
     ''connected_slaves:0'',
     ''master_failover_state:no-failover'',
     ''master_replid:'' @ RedisMasterReplID fp,
     ''master_replid2:0000000000000000000000000000000000000000'',
     ''master_repl_offset:0'']"

definition info_cpu :: "bytes" where
  "info_cpu = info_lines
    [''# CPU'',
     ''used_cpu_sys:0.000000'',
     ''used_cpu_user:0.000000'']"

definition info_keyspace :: "bytes" where
  "info_keyspace = info_lines
    [''# Keyspace'']"

text \<open>The order of the sections in the full report, and the map from section names.\<close>

definition info_sections :: "FP \<Rightarrow> bytes \<Rightarrow> bytes \<Rightarrow> nat \<Rightarrow> 64 word \<Rightarrow> 64 word \<Rightarrow> (bytes \<times> bytes) list" where
  "info_sections fp version build t cmds conns =
    [(''server'', info_server fp version build t), (''clients'', info_clients), (''stats'', info_stats conns cmds),
     (''replication'', info_replication fp), (''cpu'', info_cpu), (''keyspace'', info_keyspace)]"

definition buildInfo :: "FP \<Rightarrow> bytes \<Rightarrow> bytes \<Rightarrow> 64 word \<Rightarrow> 64 word \<Rightarrow> nat \<Rightarrow> bytes option" where
  "buildInfo fp version sect cmds conns t =
    do { build \<leftarrow> go_slice (RedisRunID fp) 0 16;
         let sections = info_sections fp version build t cmds conns;
         Some (if sect \<in> {[], ''all'', ''default'', ''everything''} then concat (map snd sections)
               else case map_of sections sect of Some v \<Rightarrow> v | None \<Rightarrow> []) }"

section \<open>Commands\<close>

definition redis_event :: "bytes \<times> 64 word \<Rightarrow> bytes \<Rightarrow> bytes \<Rightarrow> bytes \<Rightarrow> Event" where
  "redis_event src user pass cmd = zero_Event\<lparr>Protocol := ProtoRedis, SrcIP := fst src, SrcPort := snd src,
     Username := user, Password := pass, Command := cmd\<rparr>"

lemma loggable_redis_event [simp]: "loggable (redis_event src user pass cmd)"
  by (simp add: loggable_def redis_event_def)

text \<open>The scan of \<^verbatim>\<open>HELLO\<close>'s arguments: the first \<^verbatim>\<open>AUTH\<close> followed by two more.\<close>

fun hello_auth :: "unicode_tables \<Rightarrow> bytes list \<Rightarrow> (bytes \<times> bytes) option" where
  "hello_auth U (a # u # p # rest) = (if ToUpper U a = ''AUTH'' then Some (u, p) else hello_auth U (u # p # rest))"
| "hello_auth U _ = None"

definition handleConfig :: "unicode_tables \<Rightarrow> RCommand \<Rightarrow> redis_world \<Rightarrow> (goerr option \<times> redis_world) option" where
  "handleConfig U cmd w =
    (if length (Args cmd) < 2 then Some (WriteError ''wrong number of arguments for 'config' command'' w)
     else do {
       a \<leftarrow> go_index (Args cmd) 1;
       let sub = ToUpper U a;
       if sub = ''GET'' then
         (if length (Args cmd) < 3 then Some (WriteError ''wrong number of arguments for 'config|get' command'' w)
          else Some (WriteArray [] w))
       else if sub = ''SET'' then
         (if length (Args cmd) < 4 then Some (WriteError ''wrong number of arguments for 'config|set' command'' w)
          else Some (WriteSimple ''OK'' w))
       else if sub = ''RESETSTAT'' then Some (WriteSimple ''OK'' w)
       else if sub = ''REWRITE'' then Some (WriteError ''The server is running without a config file'' w)
       else Some (WriteError (''unknown subcommand '' @ [CHR 0x27] @ ToLower U sub @ [CHR 0x27]) w) })"

definition handleCmd ::
  "unicode_tables \<Rightarrow> FP \<Rightarrow> bytes \<Rightarrow> bytes \<times> 64 word \<Rightarrow> RCommand \<Rightarrow> redis_world \<Rightarrow> (goerr option \<times> redis_world) option" where
  "handleCmd U fp version src cmd w =
    (let name = Name cmd; args = Args cmd; logged = (\<lambda>c. log_event (redis_event src [] [] c) w) in
     if name = ''HELLO'' then do {
       rest \<leftarrow> go_from args 1;
       let w1 = (case hello_auth U rest of
                   Some (user, pass) \<Rightarrow> log_event (redis_event src user pass ''HELLO AUTH'') w
                 | None \<Rightarrow> w);
       Some (WriteError (''NOPROTO sor'' @ ''ry, this server does not support HELLO'') w1) }
     else if name = ''COMMAND'' then Some (WriteSimple ''OK'' w)
     else if name = ''PING'' then
       (if length args > 1 then do { a \<leftarrow> go_index args 1; Some (WriteBulk a w) } else Some (WriteSimple ''PONG'' w))
     else if name = ''AUTH'' then
       (if length args < 2 then Some (WriteError ''wrong number of arguments for 'auth' command'' w)
        else do { password \<leftarrow> go_index args 1;
                  Some (WriteSimple ''OK'' (log_event (redis_event src [] password ''AUTH'') w)) })
     else if name = ''SELECT'' then Some (WriteSimple ''OK'' w)
     else if name = ''QUIT'' then (let (_, w1) = WriteSimple ''OK'' w in Some (Some EOF, w1))
     else if name = ''INFO'' then do {
       sect \<leftarrow> (if length args > 1 then do { a \<leftarrow> go_index args 1; Some (ToLower U a) } else Some []);
       info \<leftarrow> buildInfo fp version sect (commands w) (received w) (now w);
       Some (WriteBulk info w) }
     else if name = ''CONFIG'' then handleConfig U cmd w
     else if name = ''KEYS'' then Some (WriteArray [] w)
     else if name = ''DBSIZE'' then Some (WriteInt 0 w)
     else if name = ''SET'' then
       (if length args < 3 then Some (WriteError ''wrong number of arguments for 'set' command'' w)
        else do { key \<leftarrow> go_index args 1; Some (WriteSimple ''OK'' (logged (''SET '' @ key))) })
     else if name = ''GET'' then
       (if length args < 2 then Some (WriteError ''wrong number of arguments for 'get' command'' w)
        else Some (WriteNull w))
     else if name = ''DEL'' then Some (WriteInt 0 w)
     else if name = ''EXISTS'' then Some (WriteInt 0 w)
     else if name = ''TTL'' then Some (WriteInt (-1) w)
     else if name \<in> {''FLUSHALL'', ''FLUSHDB''} then Some (WriteSimple ''OK'' (logged name))
     else if name = ''CLIENT'' then
       (if length args > 1 then do {
          a \<leftarrow> go_index args 1;
          if ToUpper U a = ''SETNAME'' then Some (WriteSimple ''OK'' w)
          else if ToUpper U a = ''GETNAME'' then Some (WriteNull w)
          else Some (WriteSimple ''OK'' w) }
        else Some (WriteSimple ''OK'' w))
     else if name = ''CLUSTER'' then Some (WriteError ''This instance has cluster support disabled'' w)
     else if name \<in> {''DEBUG'', ''MONITOR'', ''SLOWLOG'', ''OBJECT'', ''WAIT''} then
       Some (WriteError (''unknown command '' @ [CHR 0x27] @ ToLower U name @ [CHR 0x27]) (logged name))
     else
       Some (WriteError (''unknown command '' @ [CHR 0x27] @ ToLower U name @ [CHR 0x27]
         @ '', with args beginning with: '') (logged name)))"

section \<open>The handler\<close>

definition redis_step :: "unicode_tables \<Rightarrow> FP \<Rightarrow> bytes \<Rightarrow> bytes \<times> 64 word \<Rightarrow> redis_world \<Rightarrow> redis_world ctl" where
  "redis_step U fp version src w =
    (if ctx_Done w then Return w
     else case ReadCommand U w of
       (Inl e, w1) \<Rightarrow> Return w1
     | (Inr cmd, w1) \<Rightarrow>
         let w2 = (set_read_deadline 60 w1)\<lparr>commands := commands w1 + 1\<rparr> in
         case handleCmd U fp version src cmd w2 of
           None \<Rightarrow> Crash
         | Some (Some e, w3) \<Rightarrow> Return w3
         | Some (None, w3) \<Rightarrow>
             (case bufio_Flush w3 of (Some e, w4) \<Rightarrow> Return w4 | (None, w4) \<Rightarrow> Continue w4))"

section \<open>What the reader does to the connection\<close>

lemma readLine_facts:
  assumes "readLine w = (r, w1)"
  shows "evolves w w1" "world.more w1 = world.more w" "\<And>l. r = Inr l \<Longrightarrow> length (incoming (wconn w1)) < length (incoming (wconn w))"
    "paced (\<not> isl r) w w1"
proof -
  obtain r1 w2 where "read_string LF w = (r1, w2)" by fastforce
  then have r1: "read_string LF w = (r1, w1)" using assms by (cases r1) (auto simp: readLine_def)
  show "evolves w w1" using r1 by (rule evolves_read_string)
  show "world.more w1 = world.more w" using r1 by (auto simp: read_string_def split: prod.splits)
  show "length (incoming (wconn w1)) < length (incoming (wconn w))" if rr: "r = Inr l" for l
  proof -
    obtain b where b: "r1 = Inr b" using assms r1 rr by (cases r1) (auto simp: readLine_def)
    note f = read_string_Inr [OF r1 [unfolded b]]
    have "0 < length b" using f(1) by simp
    then show ?thesis using f(4) by linarith
  qed
  show "paced (\<not> isl r) w w1"
    using paced_read_string [OF r1] assms r1 by (auto simp: readLine_def split: sum.splits)
qed

text \<open>A reader that only moves forward: the shape of the facts above.\<close>

definition reads :: "(('a) world_scheme \<Rightarrow> (goerr + 'm) \<times> ('a) world_scheme) \<Rightarrow> bool" where
  "reads rd \<longleftrightarrow> (\<forall>w r w1. rd w = (r, w1) \<longrightarrow> evolves w w1 \<and> world.more w1 = world.more w
     \<and> paced (\<not> isl r) w w1)"

lemma readsD:
  assumes "reads rd" "rd w = (r, w1)"
  shows "evolves w w1" "world.more w1 = world.more w"
    "paced (\<not> isl r) w w1"
  using assms unfolding reads_def by blast+

lemma reads_bind:
  assumes "reads rd" "\<And>m. reads (f m)"
  shows "reads (\<lambda>w. case rd w of (Inl e, w1) \<Rightarrow> (Inl e, w1) | (Inr m, w1) \<Rightarrow> f m w1)"
  unfolding reads_def
proof (intro allI impI)
  fix w r w1
  assume a: "(case rd w of (Inl e, w1) \<Rightarrow> (Inl e, w1) | (Inr m, w1) \<Rightarrow> f m w1) = (r, w1)"
  obtain r2 w2 where r: "rd w = (r2, w2)" by fastforce
  note d = readsD [OF assms(1) r]
  show "evolves w w1 \<and> world.more w1 = world.more w
     \<and> paced (\<not> isl r) w w1"
  proof (cases r2)
    case (Inl e)
    then show ?thesis using a r d by auto
  next
    case (Inr m)
    then have "f m w2 = (r, w1)" using a r by simp
    note d2 = readsD [OF assms(2) this]
    show ?thesis using d d2 Inr evolves_trans paced_trans [of w w2] by fastforce
  qed
qed

lemma reads_return: "reads (\<lambda>w. (x, w))"
  by (auto simp: reads_def split: sum.splits)

lemma reads_if: "reads f \<Longrightarrow> reads g \<Longrightarrow> reads (\<lambda>w. if P then f w else g w)"
  by (cases P) simp_all

lemma reads_option: "reads f \<Longrightarrow> (\<And>x. reads (g x)) \<Longrightarrow> reads (\<lambda>w. case y of None \<Rightarrow> f w | Some x \<Rightarrow> g x w)"
  by (cases y) simp_all

lemma reads_full: "reads (read_full n)"
proof -
  have "read_full n w = (r, w1) \<Longrightarrow> world.more w1 = world.more w" for w w1 :: "('a) world_scheme" and r
    by (auto simp: read_full_def split: prod.splits)
  then show ?thesis using evolves_read_full paced_read_full unfolding reads_def by blast
qed

lemma reads_readLine: "reads readLine"
  using readLine_facts by (fastforce simp: reads_def)

lemmas reads_intros = reads_bind reads_if reads_option reads_return reads_full reads_readLine

lemma reads_readBulkString: "reads readBulkString"
  unfolding readBulkString_def by (intro reads_intros)

lemma reads_bulks: "reads (read_bulks n)"
proof (induction n)
  case (Suc n)
  then show ?case unfolding read_bulks.simps by (intro reads_intros reads_readBulkString)
qed (simp add: reads_return)

lemma reads_MultiBulk: "reads (readMultiBulk U header)"
  unfolding readMultiBulk_def by (intro reads_intros reads_bulks)

lemma reads_ReadCommand: "reads (ReadCommand U)"
  unfolding ReadCommand_def by (intro reads_intros reads_MultiBulk)

lemma ReadCommand_progress:
  assumes "ReadCommand U w = (Inr cmd, w1)"
  shows "length (incoming (wconn w1)) < length (incoming (wconn w))"
proof -
  obtain l w2 where l: "readLine w = (Inr l, w2)"
    using assms by (auto simp: ReadCommand_def split: prod.splits sum.splits)
  have "w1 = w2 \<or> readMultiBulk U l w2 = (Inr cmd, w1)"
    using assms l by (auto simp: ReadCommand_def split: if_splits)
  then have "evolves w2 w1" using readsD(1) [OF reads_MultiBulk] by auto
  then show ?thesis using readLine_facts(3) [OF l] evolves_incoming [of w2 w1] by auto
qed

lemma ReadCommand_Args: "ReadCommand U w = (Inr cmd, w1) \<Longrightarrow> Args cmd \<noteq> [] \<and> Name cmd = ToUpper U (hd (Args cmd))"
  by (auto simp: ReadCommand_def readMultiBulk_def readInline_def Let_def hd_conv_nth
      split: prod.splits sum.splits if_splits option.splits)

section \<open>What the writers do\<close>

text \<open>Writing and logging never touch the counters or the input, and keep the read deadline.\<close>

definition redis_keeps :: "bool \<Rightarrow> redis_world \<Rightarrow> redis_world \<Rightarrow> bool" where
  "redis_keeps ok w w' \<longleftrightarrow> evolves w w' \<and> sends ok w w' \<and> received w' = received w
     \<and> active w' = active w \<and> commands w' = commands w"

definition keeping :: "redis_world sender \<Rightarrow> bool" where
  "keeping f \<longleftrightarrow> (\<forall>w e w1. f w = (e, w1) \<longrightarrow> redis_keeps (e = None) w w1)"

lemma redis_keeps_refl [simp]: "redis_keeps ok w w"
  by (simp add: redis_keeps_def)

lemma redis_keeps_trans: "redis_keeps True u v \<Longrightarrow> redis_keeps ok v w \<Longrightarrow> redis_keeps ok u w"
  unfolding redis_keeps_def using evolves_trans sends_trans by metis

lemma redis_keeps_weaken: "redis_keeps True u v \<Longrightarrow> redis_keeps ok u v"
  using redis_keeps_trans redis_keeps_refl by blast

lemma redis_keeps_buf [simp]: "redis_keeps ok w (w1\<lparr>wbuf := b\<rparr>) = redis_keeps ok w w1" "redis_keeps ok w (w1\<lparr>werr := e\<rparr>) = redis_keeps ok w w1"
    "redis_keeps ok (w\<lparr>wbuf := b\<rparr>) w1 = redis_keeps ok w w1"
  by (simp_all add: redis_keeps_def evolves_def now_def sends_def)

lemma redis_keeps_log [simp]: "loggable e \<Longrightarrow> redis_keeps ok w (log_event e w)"
  by (simp add: redis_keeps_def) (simp add: log_event_def)

lemma keeping_write: "keeping (write_bytes b)"
  by (auto simp: keeping_def redis_keeps_def write_frame dest: evolves_write sends_write)

lemma keeping_Flush: "keeping bufio_Flush"
  using keeping_write by (fastforce simp: keeping_def bufio_Flush_def split: option.splits if_splits prod.splits)

lemma keeping_Write: "keeping (bufio_Write p)"
proof -
  have "redis_keeps (e = None) w w1" if "bufio_Write p w = (e, w1)" for e w w1
    using that
  proof (induction p w rule: bufio_Write.induct)
    case (1 p w)
    let ?avail = "bufio_size - length (wbuf w)"
    obtain e1 v1 where wr: "write_bytes p w = (e1, v1)" by fastforce
    then have k1: "redis_keeps (e1 = None) w v1" using keeping_write by (auto simp: keeping_def)
    obtain e2 v2 where fl: "bufio_Flush (w\<lparr>wbuf := wbuf w @ take ?avail p\<rparr>) = (e2, v2)" by fastforce
    then have k2: "redis_keeps (e2 = None) w v2" using keeping_Flush unfolding keeping_def by (metis redis_keeps_buf(3))
    consider (direct) "length p > ?avail \<and> werr w = None" "wbuf w = []"
      | (fill) "length p > ?avail \<and> werr w = None" "wbuf w \<noteq> []"
      | (rest) "\<not> (length p > ?avail \<and> werr w = None)" by blast
    then show ?case
    proof cases
      case direct
      then show ?thesis
        using "1.IH"(1) [OF refl direct wr [symmetric]] "1.prems" wr k1 redis_keeps_trans
        by (subst (asm) bufio_Write.simps) (auto split: option.splits)
    next
      case fill
      then show ?thesis
        using "1.IH"(2) [OF refl fill fl [symmetric]] "1.prems" fl k2 redis_keeps_trans
        by (subst (asm) bufio_Write.simps) (auto simp: Let_def split: option.splits)
    next
      case rest
      then show ?thesis using "1.prems" by (subst (asm) bufio_Write.simps) (auto simp: Let_def split: option.splits)
    qed
  qed
  then show ?thesis by (auto simp: keeping_def)
qed

lemma keeping_writers:
  "keeping (WriteSimple s)" "keeping (WriteError s)" "keeping (WriteInt n)" "keeping (WriteBulk s)" "keeping WriteNull"
  by (simp_all add: WriteSimple_def WriteError_def WriteInt_def WriteBulk_def WriteNull_def keeping_Write)

lemma keeping_send_all:
  assumes "\<And>f. f \<in> set fs \<Longrightarrow> keeping f"
  shows "keeping (send_all fs)"
proof -
  have "redis_keeps (e = None) w w1" if "send_all fs w = (e, w1)" for e w w1
    using that assms
  proof (induction fs arbitrary: w)
    case (Cons f fs)
    obtain e' v where f: "f w = (e', v)" by fastforce
    then have k: "redis_keeps (e' = None) w v" using Cons.prems(2) [of f] by (simp add: keeping_def)
    show ?case
    proof (cases e')
      case None
      then have "redis_keeps (e = None) v w1" using Cons f by simp
      then show ?thesis using k None redis_keeps_trans by auto
    qed (use Cons.prems(1) f k in auto)
  qed simp
  then show ?thesis by (auto simp: keeping_def)
qed

lemma keeping_Array: "keeping (WriteArray items)"
  unfolding WriteArray_def by (rule keeping_send_all) (auto intro: keeping_Write keeping_writers)

lemmas keeping_all = keeping_writers keeping_Array

text \<open>Where a command's replies go through the writer, the handler keeps what the writer keeps.\<close>

lemma keepingD: "keeping f \<Longrightarrow> f w = (e, w1) \<Longrightarrow> redis_keeps (e = None) w w1"
  by (simp add: keeping_def)

lemma keepingD_log: "keeping f \<Longrightarrow> f (log_event (redis_event src u p c) w) = (e, w1) \<Longrightarrow> redis_keeps (e = None) w w1"
  using keepingD redis_keeps_log [OF loggable_redis_event] redis_keeps_trans by blast

section \<open>Commands never crash\<close>

text \<open>\<^verbatim>\<open>QUIT\<close> ignores how its reply went, but ends the session.\<close>

lemma keepingD_quit: "keeping f \<Longrightarrow> f w = (e, w1) \<Longrightarrow> redis_keeps False w w1"
  using keepingD redis_keeps_weaken by (cases "e = None") fastforce+

lemma handleConfig_keeps: "handleConfig U cmd w = Some (e, w1) \<Longrightarrow> redis_keeps (e = None) w w1"
  by (auto simp: handleConfig_def Let_def split: if_splits Option.bind_splits
      intro: keepingD [OF keeping_all(1)] keepingD [OF keeping_all(2)] keepingD [OF keeping_all(6)])

lemma handleConfig_returns: "\<exists>x. handleConfig U cmd w = Some x"
  by (auto simp: handleConfig_def go_index_def Let_def)

lemma buildInfo_returns:
  assumes "FP_wf fp"
  shows "\<exists>b. buildInfo fp version sect cmds conns t = Some b"
  using assms by (simp add: buildInfo_def go_slice_def FP_wf_def Let_def)

lemma handleCmd_keeps: "handleCmd U fp version src cmd w = Some (e, w1) \<Longrightarrow> redis_keeps (e = None) w w1"
  by (auto simp: handleCmd_def Let_def split: if_splits Option.bind_splits option.splits prod.splits
      intro: handleConfig_keeps keepingD [OF keeping_all(1)] keepingD [OF keeping_all(2)] keepingD [OF keeping_all(3)]
        keepingD [OF keeping_all(4)] keepingD [OF keeping_all(5)] keepingD [OF keeping_all(6)]
        keepingD_log [OF keeping_all(1)] keepingD_log [OF keeping_all(2)] keepingD_quit [OF keeping_all(1)])

lemma handleCmd_returns:
  assumes "FP_wf fp" "Args cmd \<noteq> []"
  shows "\<exists>x. handleCmd U fp version src cmd w = Some x"
proof -
  have "1 \<le> length (Args cmd)" using assms(2) by (cases "Args cmd") auto
  moreover obtain info where "\<forall>sect. buildInfo fp version sect (commands w) (received w) (now w) = Some (info sect)"
    using choice [of "\<lambda>sect b. buildInfo fp version sect (commands w) (received w) (now w) = Some b"]
      buildInfo_returns [OF assms(1)] by blast
  moreover obtain x where "handleConfig U cmd w = Some x" using handleConfig_returns by blast
  ultimately show ?thesis
    by (simp add: handleCmd_def Let_def go_from_def go_index_def split_beta)
qed

lemma more_counters:
  assumes "world.more w1 = world.more (w :: redis_world)"
  shows "active w1 = active w \<and> received w1 = received w \<and> commands w1 = commands w \<and> wbuf w1 = wbuf w \<and> werr w1 = werr w"
  using assms by (cases w; cases w1) simp

text \<open>One round of the loop, for a command that was read.\<close>

lemma redis_step_command:
  assumes "ReadCommand U w = (Inr cmd, w1)" "FP_wf fp" "\<not> ctx_Done w"
  shows "\<exists>e w3 e4 w4. handleCmd U fp version src cmd ((set_read_deadline 60 w1)\<lparr>commands := commands w1 + 1\<rparr>) = Some (e, w3)
    \<and> bufio_Flush w3 = (e4, w4)
    \<and> redis_step U fp version src w = (if e \<noteq> None then Return w3 else if e4 \<noteq> None then Return w4 else Continue w4)
    \<and> redis_keeps (e = None) ((set_read_deadline 60 w1)\<lparr>commands := commands w1 + 1\<rparr>) w3 \<and> redis_keeps (e4 = None) w3 w4"
proof -
  let ?w2 = "(set_read_deadline 60 w1)\<lparr>commands := commands w1 + 1\<rparr>"
  have "Args cmd \<noteq> []" using ReadCommand_Args [OF assms(1)] by simp
  then obtain e w3 where h: "handleCmd U fp version src cmd ?w2 = Some (e, w3)"
    using handleCmd_returns [OF assms(2)] by (metis surj_pair)
  obtain e4 w4 where f: "bufio_Flush w3 = (e4, w4)" by fastforce
  have "redis_step U fp version src w = (if e \<noteq> None then Return w3 else if e4 \<noteq> None then Return w4 else Continue w4)"
    using assms h f by (cases e; cases e4) (simp_all add: redis_step_def Let_def)
  then show ?thesis using h f handleCmd_keeps [OF h] keepingD [OF keeping_Flush f] by blast
qed

lemma redis_round:
  assumes "FP_wf fp"
  shows "(\<exists>w'. redis_step U fp version src w = Return w' \<and> evolves w w' \<and> active w' = active w \<and> received w' = received w
       \<and> gives_up w w')
    \<or> (\<exists>w'. redis_step U fp version src w = Continue w' \<and> evolves w w' \<and> active w' = active w \<and> received w' = received w
       \<and> goes_on w w' \<and> length (incoming (wconn w')) < length (incoming (wconn w)))"
proof (cases "ctx_Done w")
  case True
  then show ?thesis by (simp add: redis_step_def gives_up_now)
next
  case False
  obtain r w1 where r: "ReadCommand U w = (r, w1)" by fastforce
  note rr = round_reads [OF False readsD(3) [OF reads_ReadCommand r]]
  note d = readsD [OF reads_ReadCommand r] and m = more_counters [OF readsD(2) [OF reads_ReadCommand r]]
  show ?thesis
  proof (cases r)
    case (Inl e)
    then show ?thesis using False r d m rr(1) by (auto simp: redis_step_def)
  next
    case (Inr cmd)
    let ?w2 = "(set_read_deadline 60 w1)\<lparr>commands := commands w1 + 1\<rparr>"
    have w2: "evolves w ?w2" "active ?w2 = active w" "received ?w2 = received w" "incoming (wconn ?w2) = incoming (wconn w1)"
      using d(1) m by (simp_all add: evolves_def set_read_deadline_def SetReadDeadline_def now_def)
    have wt: "goes_on w ?w2"
      using goes_on_deadline [OF rr(2)] Inr by (simp add: goes_on_def watched_def cancelled_by_def)
    obtain e e4 :: "goerr option" and w3 w4 where s: "redis_step U fp version src w = (if e \<noteq> None then Return w3 else if e4 \<noteq> None then Return w4 else Continue w4)"
        "redis_keeps (e = None) ?w2 w3" "redis_keeps (e4 = None) w3 w4"
      using redis_step_command [OF r [unfolded Inr] assms False, of version src] by blast
    have k: "evolves w v \<and> active v = active w \<and> received v = received w \<and> gives_up w v \<and> (ok \<longrightarrow> goes_on w v)
        \<and> length (incoming (wconn v)) < length (incoming (wconn w))" if "redis_keeps ok ?w2 v" for ok v
    proof -
      have "evolves ?w2 v" "sends ok ?w2 v" using that by (simp_all add: redis_keeps_def)
      then have "evolves w v" "length (incoming (wconn v)) \<le> length (incoming (wconn w1))"
          "gives_up w v" "ok \<Longrightarrow> goes_on w v"
        using evolves_trans [OF w2(1)] evolves_incoming [of ?w2 v] w2(4) goes_on_sends [OF wt] by (blast, simp, blast+)
      then show ?thesis using ReadCommand_progress [OF r [unfolded Inr]] that w2 unfolding redis_keeps_def by auto
    qed
    have "redis_keeps (e4 = None) ?w2 w4" if "e = None" using redis_keeps_trans [of ?w2 w3] s(2,3) that by simp
    then show ?thesis using s(1) k [OF s(2)] k [of "e4 = None" w4] by (auto split: if_splits)
  qed
qed

section \<open>The loop and the handler\<close>

lemma redis_step_progress:
  assumes "redis_step U fp version src w = Continue w'"
  shows "length (incoming (wconn w')) < length (incoming (wconn w))"
proof -
  obtain cmd w1 where r: "ReadCommand U w = (Inr cmd, w1)"
    using assms by (auto simp: redis_step_def split: if_splits prod.splits sum.splits)
  let ?w2 = "(set_read_deadline 60 w1)\<lparr>commands := commands w1 + 1\<rparr>"
  obtain w3 where w3: "handleCmd U fp version src cmd ?w2 = Some (None, w3)" "bufio_Flush w3 = (None, w')"
    using assms r by (auto simp: redis_step_def Let_def split: if_splits prod.splits option.splits)
  have "redis_keeps True ?w2 w'"
    using handleCmd_keeps [OF w3(1)] keepingD [OF keeping_Flush w3(2)] redis_keeps_trans by simp
  then have "length (incoming (wconn w')) \<le> length (incoming (wconn w1))"
    using evolves_incoming [of ?w2 w'] by (simp add: redis_keeps_def)
  then show ?thesis using ReadCommand_progress [OF r] by simp
qed

function redis_loop :: "unicode_tables \<Rightarrow> FP \<Rightarrow> bytes \<Rightarrow> bytes \<times> 64 word \<Rightarrow> redis_world \<Rightarrow> redis_world option" where
  "redis_loop U fp version src w =
    (case redis_step U fp version src w of
       Continue w' \<Rightarrow> redis_loop U fp version src w'
     | Return w' \<Rightarrow> Some w'
     | Crash \<Rightarrow> None)"
  by pat_completeness auto
termination
  by (relation "measure (\<lambda>(U, fp, v, s, w). length (incoming (wconn w)))") (auto dest: redis_step_progress)

declare redis_loop.simps [simp del]

interpretation redis: session_loop "redis_step U fp v src" "redis_loop U fp v src" "\<lambda>w. length (incoming (wconn w))"
  for U fp v src
  by unfold_locales (rule redis_loop.simps, rule redis_step_progress)

definition redis_Handler :: "unicode_tables \<Rightarrow> FP \<Rightarrow> bytes \<Rightarrow> redis_world \<Rightarrow> redis_world option" where
  "redis_Handler U fp version w =
    do { let src = peer w;
         w1 \<leftarrow> redis_loop U fp version src
           (set_read_deadline 60 (w\<lparr>received := received w + 1, active := active w + 1, wbuf := [], werr := None\<rparr>));
         Some (w1\<lparr>active := active w1 - 1\<rparr>) }"

lemma redis_loop_facts:
  assumes "FP_wf fp"
  shows "\<exists>w'. redis_loop U fp version src w = Some w' \<and> evolves w w' \<and> active w' = active w \<and> received w' = received w
    \<and> (watched T w \<longrightarrow> expired T w')"
proof -
  note rnd = redis_round [OF assms, of U version src]
  have nc: "redis_step U fp version src v \<noteq> Crash" for v using rnd [of v] by auto
  have ev: "evolves v v' \<and> active v' = active v \<and> received v' = received v"
    if "redis_step U fp version src v = Continue v' \<or> redis_step U fp version src v = Return v'" for v v'
    using rnd [of v] that by auto
  have ct: "watched T v'" if "watched T v" "redis_step U fp version src v = Continue v'" for v v'
    using rnd [of v] that by (auto simp: goes_on_def)
  have rt: "expired T v'" if "watched T v" "redis_step U fp version src v = Return v'" for v v'
    using rnd [of v] that by (auto simp: gives_up_def)
  obtain w' where l: "redis_loop U fp version src w = Some w'"
    using redis.run_returns [of "\<lambda>_. True" w U fp version src] nc by blast
  have "evolves w w' \<and> active w' = active w \<and> received w' = received w"
    using l by (rule redis.run_related) (use ev evolves_trans in \<open>auto 0 4\<close>)
  moreover have "expired T w'" if "watched T w"
    using l that by (rule redis.run_invariant [where I = "watched T"]) (use ct rt in auto)
  ultimately show ?thesis using l by blast
qed

lemma redis_Handler_facts:
  assumes "FP_wf fp"
  shows "\<exists>w'. redis_Handler U fp version w = Some w' \<and> evolves w w' \<and> active w' = active w
    \<and> received w' = received w + 1 \<and> (settled T w \<longrightarrow> expired T w')"
proof -
  let ?w0 = "w\<lparr>received := received w + 1, active := active w + 1, wbuf := [], werr := None\<rparr>"
  let ?w1 = "set_read_deadline 60 ?w0"
  obtain w' where l: "redis_loop U fp version (peer w) ?w1 = Some w'" "evolves ?w1 w'"
      "active w' = active ?w1" "received w' = received ?w1" "watched T ?w1 \<longrightarrow> expired T w'"
    using redis_loop_facts [OF assms] by blast
  have "settled T w \<Longrightarrow> settled T ?w0" by (simp add: settled_def cancelled_by_def)
  then have "settled T w \<longrightarrow> expired T w'" using l(5) reading_watched [OF settled_deadline [of T ?w0 60] order_refl] by blast
  moreover have "evolves w w'" using l(2) by (simp add: evolves_def now_def set_read_deadline_def SetReadDeadline_def)
  ultimately show ?thesis using l(1,3,4)
    by (simp add: redis_Handler_def Let_def expired_def evolves_def now_def set_read_deadline_def)
qed

interpretation redis_handler: protocol_handler "redis_Handler U fp version" "\<lambda>_. FP_wf fp" for U fp version
proof unfold_locales
  fix w :: redis_world and T
  show "FP_wf fp \<Longrightarrow> \<exists>w'. redis_Handler U fp version w = Some w' \<and> evolves w w' \<and> (settled T w \<longrightarrow> expired T w')"
    using redis_Handler_facts [of fp U version w T] by blast
qed simp

text \<open>C9. Whatever a Redis client sends, the handler comes to an end without a crash: no index or
  slice is out of range in any command, the log and the output only grow, the active-connection
  counter is back where it was and the received counter has gone up by one; and if the client is
  silent from time \<open>T\<close> on, or the context is cancelled by then, the handler is gone sixty seconds later
  and never blocks for good. A client that stops taking data holds the handler until the
  connection's write deadline, which therefore has to be over by then as well.\<close>

theorem redis_Handler_terminates_cleanly:
  assumes "FP_wf fp" "settled T w"
  shows "\<exists>w'. redis_Handler U fp version w = Some w' \<and> evolves w w' \<and> active w' = active w
    \<and> received w' = received w + 1 \<and> now w' \<le> T + 60 * second \<and> \<not> hung (wconn w')"
  using redis_Handler_facts [OF assms(1), of U version w T] assms(2) by (auto simp: expired_def)

definition quiet_redis :: "bytes \<Rightarrow> redis_world" where
  "quiet_redis b = world.extend (quiet_world [] b) \<lparr>wbuf = [], werr = None, received = 0, active = 0, commands = 0\<rparr>"

lemma quiet_redis_simps [simp]:
  "wconn (quiet_redis b) = wconn (quiet_world [] b)" "wstore (quiet_redis b) = wstore (quiet_world [] b)"
  "cancelled_at (quiet_redis b) = None" "wbuf (quiet_redis b) = []" "werr (quiet_redis b) = None" "active (quiet_redis b) = 0"
  "received (quiet_redis b) = 0" "now (quiet_redis b) = 0" "now (quiet_world [] b) = 0" "peer (quiet_redis b) = (''10.0.0.1'', 4000)"
  using peer_quiet [of "[]" b]
  by (simp_all add: quiet_redis_def world.defs quiet_world_def now_def quiet_conn_def peer_def)

lemma settled_quiet_redis [simp]: "settled T (quiet_redis b)"
  using settled_quiet [of T "[]" b] by (simp add: settled_def cancelled_by_def) (simp add: quiet_world_def)

theorem redis_Handler_terminates_cleanly_witness:
  "\<exists>fp w'. redis_Handler \<lparr>upper_tab = id, lower_tab = id\<rparr> fp ''7.2.4'' (quiet_redis (''PING'' @ CRLF)) = Some w'
     \<and> received w' = 1 \<and> active w' = 0 \<and> now w' \<le> 60 * second"
proof -
  obtain fp where "FP_wf fp" using FP_wf_exists by blast
  moreover have "settled 0 (quiet_redis (''PING'' @ CRLF))" by simp
  ultimately show ?thesis
    using redis_Handler_terminates_cleanly [of fp 0 "quiet_redis (''PING'' @ CRLF)" "\<lparr>upper_tab = id, lower_tab = id\<rparr>" "''7.2.4''"]
    by auto
qed

section \<open>RESP round trip\<close>

definition resp_array :: "bytes list \<Rightarrow> bytes" where
  "resp_array args = ''*'' @ dec_nat (length args) @ CRLF @ concat (map resp_bulk args)"

definition resp_ok :: "bytes list \<Rightarrow> bool" where
  "resp_ok args \<longleftrightarrow> args \<noteq> [] \<and> int (length args) \<le> maxArgs \<and> list_all (\<lambda>a. int (length a) \<le> maxBulkLen) args"

lemma TrimSuffix_snoc [simp]: "TrimSuffix (s @ [c]) [c] = s"
  by (simp add: TrimSuffix_def HasSuffix_def)

lemma TrimSuffix_CRLF [simp]: "TrimSuffix (TrimSuffix (l @ CRLF) [LF]) [CR] = l"
  using TrimSuffix_snoc [of "l @ [CR]" LF] by simp

lemma readLine_readable:
  assumes "readable (wconn w) = l @ CRLF @ rest" "LF \<notin> set l"
  shows "readLine w = (Inr l, w\<lparr>wconn := consume (length l + 2) (wconn w)\<rparr>)"
proof -
  have "indexByte ((l @ [CR]) @ LF # rest) LF = Some (length (l @ [CR]))"
    using assms(2) by (intro indexByte_append) simp
  then have i: "indexByte (readable (wconn w)) LF = Some (length l + 1)" using assms(1) by simp
  have "take (length l + 1 + 1) (readable (wconn w)) = (l @ [CR]) @ [LF]" using assms(1) by simp
  then have "read_string LF w = (Inr ((l @ [CR]) @ [LF]), w\<lparr>wconn := consume (length l + 2) (wconn w)\<rparr>)"
    using i by (simp add: read_string_def ReadString_def)
  then show ?thesis by (simp add: readLine_def)
qed

lemma dec_nat_no_LF: "LF \<notin> set (dec_nat n)"
proof
  assume "LF \<in> set (dec_nat n)"
  then have "is_digit LF" using dec_nat_digits [of n] by (simp add: list_all_iff)
  then show False by (simp add: is_digit_def in_range_def)
qed

lemma Atoi_dec_nat: "n < 2 ^ 63 \<Longrightarrow> Atoi (dec_nat n) = Some (int n)"
  using Atoi_digits [OF dec_nat_digits dec_nat_not_Nil, of n] by (simp add: dec_val_dec_nat)

lemma length_resp_bulk: "length (resp_bulk s) = (length (''$'' @ dec_nat (length s)) + 2) + (length s + 2)"
  by (simp add: resp_bulk_def)

lemma readBulkString_resp:
  assumes "readable (wconn w) = resp_bulk s @ rest" "int (length s) \<le> maxBulkLen"
  shows "readBulkString w = (Inr s, w\<lparr>wconn := consume (length (resp_bulk s)) (wconn w)\<rparr>)"
proof -
  let ?l = "''$'' @ dec_nat (length s)"
  let ?w1 = "w\<lparr>wconn := consume (length ?l + 2) (wconn w)\<rparr>"
  have r: "readable (wconn w) = ?l @ CRLF @ (s @ CRLF @ rest)" using assms(1) by (simp add: resp_bulk_def)
  have l: "readLine w = (Inr ?l, ?w1)"
    by (rule readLine_readable [OF r]) (simp add: dec_nat_no_LF)
  have "readable (wconn ?w1) = (s @ CRLF) @ rest" using r by (simp add: readable_consume)
  from read_full_readable [OF this]
  have f: "read_full (length s + 2) ?w1 = (Inr (s @ CRLF), w\<lparr>wconn := consume (length (resp_bulk s)) (wconn w)\<rparr>)"
    by (simp add: consume_consume length_resp_bulk)
  have "Atoi (dec_nat (length s)) = Some (int (length s))"
    using assms(2) by (intro Atoi_dec_nat) (simp add: maxBulkLen_def)
  then show ?thesis using l f assms(2) by (simp add: readBulkString_def nth_append)
qed

lemma read_bulks_resp:
  assumes "readable (wconn w) = concat (map resp_bulk args) @ rest" "list_all (\<lambda>a. int (length a) \<le> maxBulkLen) args"
  shows "read_bulks (length args) w = (Inr args, w\<lparr>wconn := consume (length (concat (map resp_bulk args))) (wconn w)\<rparr>)"
  using assms
proof (induction args arbitrary: w)
  case Nil
  then show ?case by (simp add: consume_def)
next
  case (Cons a args)
  let ?w1 = "w\<lparr>wconn := consume (length (resp_bulk a)) (wconn w)\<rparr>"
  have r: "readable (wconn w) = resp_bulk a @ (concat (map resp_bulk args) @ rest)" using Cons.prems by simp
  have b: "readBulkString w = (Inr a, ?w1)" using r Cons.prems(2) by (intro readBulkString_resp) auto
  have "readable (wconn ?w1) = concat (map resp_bulk args) @ rest" using r by (simp add: readable_consume)
  from Cons.IH [OF this] Cons.prems(2) b show ?case by (simp add: consume_consume)
qed

lemma ReadCommand_resp:
  assumes "readable (wconn w) = resp_array args @ rest" "resp_ok args"
  shows "ReadCommand U w = (Inr \<lparr>Name = ToUpper U (hd args), Args = args\<rparr>,
    w\<lparr>wconn := consume (length (resp_array args)) (wconn w)\<rparr>)"
proof -
  let ?l = "''*'' @ dec_nat (length args)"
  let ?w1 = "w\<lparr>wconn := consume (length ?l + 2) (wconn w)\<rparr>"
  have r: "readable (wconn w) = ?l @ CRLF @ (concat (map resp_bulk args) @ rest)" using assms(1) by (simp add: resp_array_def)
  have l: "readLine w = (Inr ?l, ?w1)" by (rule readLine_readable [OF r]) (simp add: dec_nat_no_LF)
  have "readable (wconn ?w1) = concat (map resp_bulk args) @ rest" using r by (simp add: readable_consume)
  from read_bulks_resp [OF this] assms(2)
  have b: "read_bulks (length args) ?w1 = (Inr args, w\<lparr>wconn := consume (length (resp_array args)) (wconn w)\<rparr>)"
    by (simp add: resp_ok_def consume_consume resp_array_def)
  have "Atoi (dec_nat (length args)) = Some (int (length args))"
    using assms(2) by (intro Atoi_dec_nat) (simp add: resp_ok_def maxArgs_def)
  moreover have "1 \<le> int (length args)" "int (length args) \<le> maxArgs" "args \<noteq> []"
    using assms(2) by (cases args; simp add: resp_ok_def)+
  ultimately show ?thesis using l b by (simp add: ReadCommand_def readMultiBulk_def hd_conv_nth)
qed

interpretation redis_commands: framed_reader "ReadCommand U" "\<lambda>c. resp_array (Args c)"
    "\<lambda>c. resp_ok (Args c) \<and> Name c = ToUpper U (hd (Args c))" for U
proof unfold_locales
  fix m :: RCommand and w w1 :: "('a) world_scheme" and rest and r
  show "resp_ok (Args m) \<and> Name m = ToUpper U (hd (Args m)) \<Longrightarrow> readable (wconn w) = resp_array (Args m) @ rest \<Longrightarrow>
      ReadCommand U w = (Inr m, w\<lparr>wconn := consume (length (resp_array (Args m))) (wconn w)\<rparr>)"
    using ReadCommand_resp [of w "Args m" rest U] by (cases m) auto
  show "ReadCommand U w = (Inr m, w1) \<Longrightarrow> length (incoming (wconn w1)) < length (incoming (wconn w))"
    by (rule ReadCommand_progress)
  show "ReadCommand U w = (r, w1) \<Longrightarrow> evolves w w1"
    by (rule readsD(1) [OF reads_ReadCommand])
qed

text \<open>C26. RESP round trip: any sequence of commands of at most 1024 arguments of at most 16 MB each,
  arbitrary binary data included, sent back to back as arrays of bulk strings, is read back as the
  same commands, each with its arguments unchanged and its name in upper case, with what follows
  left unread.\<close>

theorem ReadCommand_roundtrip:
  assumes "list_all resp_ok cs" "readable (wconn w) = concat (map resp_array cs) @ rest"
  shows "fst (read_msgs (ReadCommand U) (length cs) w) = map (\<lambda>args. \<lparr>Name = ToUpper U (hd args), Args = args\<rparr>) cs
    \<and> readable (wconn (snd (read_msgs (ReadCommand U) (length cs) w))) = rest"
proof -
  let ?ms = "map (\<lambda>args. \<lparr>Name = ToUpper U (hd args), Args = args\<rparr>) cs"
  have "concat (map (\<lambda>c. resp_array (Args c)) ?ms) = concat (map resp_array cs)" by (simp add: comp_def)
  then show ?thesis using redis_commands.read_stream [of ?ms U w rest] assms by (simp add: list_all_iff)
qed

theorem ReadCommand_roundtrip_witness:
  "fst (read_msgs (ReadCommand \<lparr>upper_tab = id, lower_tab = id\<rparr>) 1 (quiet_redis (resp_array [''GET'', CRLF])))
     = [\<lparr>Name = ToUpper \<lparr>upper_tab = id, lower_tab = id\<rparr> ''GET'', Args = [''GET'', CRLF]\<rparr>]"
  using ReadCommand_roundtrip [of "[[''GET'', CRLF]]" "quiet_redis (resp_array [''GET'', CRLF])" "[]" "\<lparr>upper_tab = id, lower_tab = id\<rparr>"]
  by (simp add: resp_ok_def maxArgs_def maxBulkLen_def)

section \<open>The writer loses and reorders nothing\<close>

definition writable :: "redis_world \<Rightarrow> bool" where
  "writable w \<longleftrightarrow> wr_open (wconn w) \<and> werr w = None \<and> length (wbuf w) \<le> bufio_size"

definition sent :: "redis_world \<Rightarrow> bytes" where
  "sent w = out (wconn w) @ wbuf w"

lemma Flush_open:
  assumes "writable w"
  shows "\<exists>w1. bufio_Flush w = (None, w1) \<and> sent w1 = sent w \<and> wbuf w1 = [] \<and> writable w1 \<and> wstore w1 = wstore w
    \<and> commands w1 = commands w \<and> rd_deadline (wconn w1) = rd_deadline (wconn w) \<and> now w1 = now w"
proof (cases "wbuf w = []")
  case True
  then show ?thesis using assms by (simp add: bufio_Flush_def writable_def)
next
  case False
  have "write_bytes (wbuf w) w = (None, w\<lparr>wconn := (wconn w)\<lparr>out := out (wconn w) @ wbuf w\<rparr>\<rparr>)"
    using assms by (intro write_wr_open) (simp add: writable_def)
  then show ?thesis using False assms by (simp add: bufio_Flush_def writable_def sent_def now_def)
qed

lemma Write_open:
  assumes "writable w"
  shows "\<exists>w1. bufio_Write p w = (None, w1) \<and> sent w1 = sent w @ p \<and> writable w1 \<and> wstore w1 = wstore w
    \<and> commands w1 = commands w \<and> rd_deadline (wconn w1) = rd_deadline (wconn w) \<and> now w1 = now w
    \<and> (length (wbuf w @ p) \<le> bufio_size \<longrightarrow> out (wconn w1) = out (wconn w))"
  using assms
proof (induction p w rule: bufio_Write.induct)
  case (1 p w)
  let ?avail = "bufio_size - length (wbuf w)"
  have ok: "werr w = None" "length (wbuf w) \<le> bufio_size" using "1.prems" by (auto simp: writable_def)
  show ?case
  proof (cases "length p > ?avail")
    case False
    then show ?thesis using "1.prems" ok
      by (subst bufio_Write.simps) (auto simp: Let_def writable_def sent_def now_def)
  next
    case big: True
    show ?thesis
    proof (cases "wbuf w = []")
      case True
      let ?w1 = "w\<lparr>wconn := (wconn w)\<lparr>out := out (wconn w) @ p\<rparr>\<rparr>"
      have wr: "write_bytes p w = (None, ?w1)" using "1.prems" by (intro write_wr_open) (simp add: writable_def)
      have "bufio_Write [] ?w1 = (None, ?w1)" using ok True by (subst bufio_Write.simps) simp
      then have "bufio_Write p w = (None, ?w1)"
        using big True wr ok by (subst bufio_Write.simps) simp
      then show ?thesis using "1.prems" True big by (simp add: writable_def sent_def now_def)
    next
      case False
      let ?v = "w\<lparr>wbuf := wbuf w @ take ?avail p\<rparr>"
      have "writable ?v" using "1.prems" big by (auto simp: writable_def now_def)
      then obtain w1 where f: "bufio_Flush ?v = (None, w1)" "sent w1 = sent ?v" "wbuf w1 = []" "writable w1"
          "wstore w1 = wstore w" "commands w1 = commands w" "rd_deadline (wconn w1) = rd_deadline (wconn w)" "now w1 = now w"
        using Flush_open [of ?v] by (auto simp: now_def)
      have "bufio_Write p w = bufio_Write (drop ?avail p) w1"
        using big False f(1) ok by (subst bufio_Write.simps) simp
      moreover have "sent w1 @ drop ?avail p = sent w @ p" using f(2) by (simp add: sent_def)
      moreover have "\<not> length (wbuf w @ p) \<le> bufio_size" using big by simp
      ultimately show ?thesis using "1.IH"(2) [OF refl _ False f(1) [symmetric]] big ok f(4-8) by auto
    qed
  qed
qed

lemma send_all_Bulk_open:
  assumes "writable w"
  shows "\<exists>w1. send_all (map WriteBulk items) w = (None, w1) \<and> sent w1 = sent w @ concat (map resp_bulk items) \<and> writable w1"
  using assms
proof (induction items arbitrary: w)
  case (Cons s items)
  obtain w1 where w1: "bufio_Write (resp_bulk s) w = (None, w1)" "sent w1 = sent w @ resp_bulk s" "writable w1"
    using Write_open [OF Cons.prems, of "resp_bulk s"] by blast
  then show ?case using Cons.IH [OF w1(3)] by (auto simp: WriteBulk_def)
qed simp

text \<open>C36. Replies reach the client complete and in order: on a connection that takes data, writing an
  array of strings of any sizes through the 32 KB buffer, after whatever is buffered already, puts
  exactly its RESP encoding behind the earlier bytes; the buffer never exceeds its size, and a
  flush leaves nothing behind.\<close>

theorem WriteArray_delivers:
  assumes "writable w"
  shows "\<exists>w1 w2. WriteArray items w = (None, w1) \<and> sent w1 = sent w @ resp_array items \<and> length (wbuf w1) \<le> bufio_size
    \<and> bufio_Flush w1 = (None, w2) \<and> out (wconn w2) = out (wconn w) @ wbuf w @ resp_array items \<and> wbuf w2 = []"
proof -
  let ?h = "''*'' @ dec_nat (length items) @ CRLF"
  obtain w0 where w0: "bufio_Write ?h w = (None, w0)" "sent w0 = sent w @ ?h" "writable w0"
    using Write_open [OF assms, of ?h] by blast
  obtain w1 where w1: "send_all (map WriteBulk items) w0 = (None, w1)"
      "sent w1 = sent w0 @ concat (map resp_bulk items)" "writable w1"
    using send_all_Bulk_open [OF w0(3)] by blast
  obtain w2 where w2: "bufio_Flush w1 = (None, w2)" "sent w2 = sent w1" "wbuf w2 = []" using Flush_open [OF w1(3)] by blast
  have "WriteArray items w = (None, w1)" using w0(1) w1(1) by (simp add: WriteArray_def)
  moreover have "sent w1 = sent w @ resp_array items" using w0(2) w1(2) by (simp add: resp_array_def)
  moreover have "length (wbuf w1) \<le> bufio_size" using w1(3) by (simp add: writable_def)
  ultimately show ?thesis using w2 by (auto simp: sent_def)
qed

theorem WriteArray_delivers_witness:
  "\<exists>w1 w2. WriteArray [''a''] (quiet_redis []) = (None, w1) \<and> bufio_Flush w1 = (None, w2)
    \<and> out (wconn w2) = resp_array [''a'']"
proof -
  have "writable (quiet_redis [])" by (simp add: writable_def)
  from WriteArray_delivers [OF this, of "[''a'']"] show ?thesis by (auto simp: quiet_world_def quiet_conn_def)
qed

section \<open>What commands do\<close>

text \<open>A command that answers with one write, on a connection that takes data and a writer that holds
  nothing back: the reply is on the wire when the loop goes on.\<close>

lemma step_reply:
  assumes "\<not> ctx_Done w" "ReadCommand U w = (Inr cmd, w1)"
    and "handleCmd U fp version src cmd ((set_read_deadline 60 w1)\<lparr>commands := commands w1 + 1\<rparr>) = Some (bufio_Write b v)"
    and "writable v" "wbuf v = []"
  shows "\<exists>w'. redis_step U fp version src w = Continue w' \<and> out (wconn w') = out (wconn v) @ b \<and> wbuf w' = []
    \<and> wstore w' = wstore v \<and> commands w' = commands v \<and> rd_deadline (wconn w') = rd_deadline (wconn v) \<and> now w' = now v"
proof -
  obtain v1 where v1: "bufio_Write b v = (None, v1)" "sent v1 = sent v @ b" "writable v1" "wstore v1 = wstore v"
      "commands v1 = commands v" "rd_deadline (wconn v1) = rd_deadline (wconn v)" "now v1 = now v"
    using Write_open [OF assms(4), of b] by blast
  obtain v2 where v2: "bufio_Flush v1 = (None, v2)" "sent v2 = sent v1" "wbuf v2 = []" "wstore v2 = wstore v1"
      "commands v2 = commands v1" "rd_deadline (wconn v2) = rd_deadline (wconn v1)" "now v2 = now v1"
    using Flush_open [OF v1(3)] by blast
  have "redis_step U fp version src w = Continue v2"
    using assms(1-3) v1(1) v2(1) by (simp add: redis_step_def Let_def)
  then show ?thesis using v1 v2 assms(5) by (auto simp: sent_def)
qed

text \<open>The state in which the command read off the wire is handled.\<close>

definition after_read :: "bytes list \<Rightarrow> redis_world \<Rightarrow> redis_world" where
  "after_read args w =
    (set_read_deadline 60 (w\<lparr>wconn := consume (length (resp_array args)) (wconn w)\<rparr>))\<lparr>commands := commands w + 1\<rparr>"

definition ready :: "redis_world \<Rightarrow> bool" where
  "ready w \<longleftrightarrow> \<not> ctx_Done w \<and> wr_cap (wconn w) = None \<and> wr_deadline (wconn w) = None \<and> wbuf w = [] \<and> werr w = None"

lemma after_read_simps [simp]:
  "wstore (after_read args w) = wstore w" "commands (after_read args w) = commands w + 1"
  "out (wconn (after_read args w)) = out (wconn w)" "wbuf (after_read args w) = wbuf w" "werr (after_read args w) = werr w"
  "rd_deadline (wconn (after_read args w)) = Some (now (after_read args w) + 60 * second)"
  by (simp_all add: after_read_def set_read_deadline_def SetReadDeadline_def now_def)

lemma ready_writable: "ready w \<Longrightarrow> writable (after_read args w) \<and> writable (log_event e (after_read args w))"
  by (simp add: ready_def writable_def wr_open_def after_read_def set_read_deadline_def SetReadDeadline_def log_event_def)

lemma log_event_redis [simp]:
  "wbuf (log_event e w) = wbuf w" "werr (log_event e w) = werr w" "commands (log_event e (w :: redis_world)) = commands w"
  by (simp_all add: log_event_def)

lemma command_reply:
  assumes "ready w" "readable (wconn w) = resp_array args @ rest" "resp_ok args"
    and "handleCmd U fp version src \<lparr>Name = ToUpper U (hd args), Args = args\<rparr> (after_read args w) = Some (bufio_Write b v)"
    and "v = (case ev of None \<Rightarrow> after_read args w | Some e \<Rightarrow> log_event e (after_read args w))"
  shows "\<exists>w'. redis_step U fp version src w = Continue w' \<and> out (wconn w') = out (wconn w) @ b
    \<and> wstore w' = (case ev of None \<Rightarrow> wstore w | Some e \<Rightarrow> Log (now w') e (wstore w))
    \<and> commands w' = commands w + 1 \<and> rd_deadline (wconn w') = Some (now w' + 60 * second)"
proof -
  have "ReadCommand U w = (Inr \<lparr>Name = ToUpper U (hd args), Args = args\<rparr>,
      w\<lparr>wconn := consume (length (resp_array args)) (wconn w)\<rparr>)"
    using assms(2,3) by (rule ReadCommand_resp)
  moreover have "\<not> ctx_Done w" "writable v" "wbuf v = []"
    using assms(1,5) ready_writable [OF assms(1), of args] by (auto simp: ready_def split: option.splits)
  ultimately obtain w' where "redis_step U fp version src w = Continue w'" "out (wconn w') = out (wconn v) @ b"
      "wstore w' = wstore v" "commands w' = commands v" "rd_deadline (wconn w') = rd_deadline (wconn v)" "now w' = now v"
    using step_reply [of w U _ _ fp version src b v] assms(4) unfolding after_read_def by fastforce
  then show ?thesis using assms(5) by (auto split: option.splits)
qed

text \<open>An AUTH command is captured and accepted: whatever the case of the command word and the
  number of arguments, one event is logged with the first argument as the password, +OK is on the
  wire, the command is counted and the read deadline is renewed.\<close>

theorem redis_AUTH_captured:
  assumes "ready w" "readable (wconn w) = resp_array (name # password # others) @ rest" "resp_ok (name # password # others)"
    and "ToUpper U name = ''AUTH''"
  shows "\<exists>w'. redis_step U fp version src w = Continue w' \<and> out (wconn w') = out (wconn w) @ ''+OK'' @ CRLF
    \<and> wstore w' = Log (now w') (redis_event src [] password ''AUTH'') (wstore w)
    \<and> commands w' = commands w + 1 \<and> rd_deadline (wconn w') = Some (now w' + 60 * second)"
proof -
  let ?args = "name # password # others"
  let ?v = "log_event (redis_event src [] password ''AUTH'') (after_read ?args w)"
  have "handleCmd U fp version src \<lparr>Name = ToUpper U (hd ?args), Args = ?args\<rparr> (after_read ?args w)
      = Some (bufio_Write (''+OK'' @ CRLF) ?v)"
    using assms(4) by (simp add: handleCmd_def Let_def go_index_def WriteSimple_def)
  from command_reply [OF assms(1-3) this, of "Some (redis_event src [] password ''AUTH'')"] show ?thesis by simp
qed

text \<open>The two-argument form \<^verbatim>\<open>AUTH user secret\<close>: the user name is logged as the password.\<close>

theorem redis_AUTH_captured_witness:
  "\<exists>fp w' w. w = quiet_redis (resp_array [''auth'', ''bob'', ''secret''])
    \<and> redis_step \<lparr>upper_tab = id, lower_tab = id\<rparr> fp ''7.2.4'' (''10.0.0.1'', 4000) w = Continue w'
    \<and> wstore w' = Log (now w') (redis_event (''10.0.0.1'', 4000) [] ''bob'' ''AUTH'') (wstore w)
    \<and> out (wconn w') = out (wconn w) @ ''+OK'' @ CRLF"
proof -
  let ?w = "quiet_redis (resp_array [''auth'', ''bob'', ''secret''])" and ?U = "\<lparr>upper_tab = id, lower_tab = id\<rparr>"
  have "ready ?w" by (simp add: ready_def ctx_Done_def) (simp add: quiet_world_def quiet_conn_def)
  moreover have "readable (wconn ?w) = resp_array [''auth'', ''bob'', ''secret''] @ []" by simp
  moreover have "resp_ok [''auth'', ''bob'', ''secret'']" by (simp add: resp_ok_def maxArgs_def maxBulkLen_def)
  moreover have "ToUpper ?U ''auth'' = ''AUTH''" by code_simp
  ultimately show ?thesis using redis_AUTH_captured [of ?w "''auth''" "''bob''" "[''secret'']" "[]" ?U] by blast
qed

lemma hello_auth_first:
  assumes "\<forall>x \<in> set pre. ToUpper U x \<noteq> ''AUTH''" "ToUpper U a = ''AUTH''"
  shows "hello_auth U (pre @ a # user # pass # others) = Some (user, pass)"
  using assms
proof (induction pre)
  case (Cons x pre)
  then show ?case by (cases pre; cases "tl pre") auto
qed simp

text \<open>Credentials inside HELLO are captured before the command is declined: the first AUTH among
  the arguments that two more follow gives the logged user and password, wherever it stands, and
  the client gets the NOPROTO error.\<close>

theorem redis_HELLO_captured:
  assumes "ready w" "readable (wconn w) = resp_array (name # pre @ a # user # pass # others) @ rest"
    and "resp_ok (name # pre @ a # user # pass # others)" "ToUpper U name = ''HELLO''" "ToUpper U a = ''AUTH''"
    and "\<forall>x \<in> set pre. ToUpper U x \<noteq> ''AUTH''"
  shows "\<exists>w'. redis_step U fp version src w = Continue w'
    \<and> out (wconn w') = out (wconn w) @ ''-ERR NOPROTO sor'' @ ''ry, this server does not support HELLO'' @ CRLF
    \<and> wstore w' = Log (now w') (redis_event src user pass ''HELLO AUTH'') (wstore w)
    \<and> commands w' = commands w + 1 \<and> rd_deadline (wconn w') = Some (now w' + 60 * second)"
proof -
  let ?args = "name # pre @ a # user # pass # others" and ?ev = "redis_event src user pass ''HELLO AUTH''"
  let ?b = "''-ERR NOPROTO sor'' @ ''ry, this server does not support HELLO'' @ CRLF"
  have "handleCmd U fp version src \<lparr>Name = ToUpper U (hd ?args), Args = ?args\<rparr> (after_read ?args w)
      = Some (bufio_Write ?b (log_event ?ev (after_read ?args w)))"
    using assms(4) hello_auth_first [OF assms(6,5), of user pass others]
    by (simp add: handleCmd_def Let_def go_from_def WriteError_def)
  from command_reply [OF assms(1-3) this, of "Some ?ev"] show ?thesis by simp
qed

theorem redis_HELLO_captured_witness:
  "\<exists>fp w' w. w = quiet_redis (resp_array [''HELLO'', ''3'', ''AUTH'', ''default'', ''redis''])
    \<and> redis_step \<lparr>upper_tab = id, lower_tab = id\<rparr> fp ''7.2.4'' (''10.0.0.1'', 4000) w = Continue w'
    \<and> wstore w' = Log (now w') (redis_event (''10.0.0.1'', 4000) ''default'' ''redis'' ''HELLO AUTH'') (wstore w)"
proof -
  let ?w = "quiet_redis (resp_array [''HELLO'', ''3'', ''AUTH'', ''default'', ''redis''])"
    and ?U = "\<lparr>upper_tab = id, lower_tab = id\<rparr>"
  have r: "ready ?w" by (simp add: ready_def ctx_Done_def) (simp add: quiet_world_def quiet_conn_def)
  have b: "readable (wconn ?w) = resp_array (''HELLO'' # [''3''] @ ''AUTH'' # ''default'' # ''redis'' # []) @ []" by simp
  have k: "resp_ok (''HELLO'' # [''3''] @ ''AUTH'' # ''default'' # ''redis'' # [])"
    by (simp add: resp_ok_def maxArgs_def maxBulkLen_def)
  have u: "ToUpper ?U ''HELLO'' = ''HELLO''" "ToUpper ?U ''AUTH'' = ''AUTH''" "ToUpper ?U ''3'' = ''3''" by code_simp+
  then have "\<forall>x \<in> set [''3'']. ToUpper ?U x \<noteq> ''AUTH''" by simp
  from redis_HELLO_captured [OF r b k u(1,2) this] show ?thesis by blast
qed

text \<open>C39. The reply to QUIT never reaches the client: the handler returns with the +OK still in its
  buffer, nothing written to the connection and nothing logged.\<close>

theorem redis_QUIT_reply_lost:
  assumes "ready w" "readable (wconn w) = resp_array (name # others) @ rest" "resp_ok (name # others)" "ToUpper U name = ''QUIT''"
  shows "\<exists>w'. redis_step U fp version src w = Return w' \<and> out (wconn w') = out (wconn w) \<and> wbuf w' = ''+OK'' @ CRLF
    \<and> wstore w' = wstore w"
proof -
  let ?args = "name # others"
  let ?v = "after_read ?args w"
  have "ReadCommand U w = (Inr \<lparr>Name = ToUpper U (hd ?args), Args = ?args\<rparr>,
      w\<lparr>wconn := consume (length (resp_array ?args)) (wconn w)\<rparr>)"
    using assms(2,3) by (rule ReadCommand_resp)
  moreover have e: "wbuf ?v = []" "\<not> ctx_Done w" using assms(1) by (simp_all add: ready_def)
  obtain v1 where v1: "bufio_Write (''+OK'' @ CRLF) ?v = (None, v1)" "sent v1 = sent ?v @ ''+OK'' @ CRLF"
      "wstore v1 = wstore ?v" "length (wbuf ?v @ ''+OK'' @ CRLF) \<le> bufio_size \<longrightarrow> out (wconn v1) = out (wconn ?v)"
    using Write_open [of ?v "''+OK'' @ CRLF"] ready_writable [OF assms(1), of ?args] by blast
  moreover have "out (wconn v1) = out (wconn w)" using v1(4) e by (simp add: bufio_size_def)
  ultimately show ?thesis using assms(4) e
    by (simp add: redis_step_def Let_def handleCmd_def WriteSimple_def sent_def) (simp add: after_read_def sent_def)
qed

theorem redis_QUIT_reply_lost_witness:
  "\<exists>fp w' w. w = quiet_redis (resp_array [''quit''])
    \<and> redis_step \<lparr>upper_tab = id, lower_tab = id\<rparr> fp ''7.2.4'' (''10.0.0.1'', 4000) w = Return w'
    \<and> out (wconn w') = []"
proof -
  let ?w = "quiet_redis (resp_array [''quit''])" and ?U = "\<lparr>upper_tab = id, lower_tab = id\<rparr>"
  have "ready ?w" "out (wconn ?w) = []"
    by (simp_all add: ready_def ctx_Done_def) (simp_all add: quiet_world_def quiet_conn_def)
  moreover have "readable (wconn ?w) = resp_array [''quit''] @ []" by simp
  moreover have "resp_ok [''quit'']" by (simp add: resp_ok_def maxArgs_def maxBulkLen_def)
  moreover have "ToUpper ?U ''quit'' = ''QUIT''" by code_simp
  ultimately show ?thesis using redis_QUIT_reply_lost [of ?w "''quit''" "[]" "[]" ?U] by metis
qed

text \<open>The full INFO report is the six sections one after the other, each exactly what INFO returns
  for that section alone; a section of any other name is empty.\<close>

theorem buildInfo_sections:
  assumes "FP_wf fp"
  shows "\<exists>info. (\<forall>sect. buildInfo fp version sect cmds conns t = Some (info sect))
    \<and> info [] = concat (map info [''server'', ''clients'', ''stats'', ''replication'', ''cpu'', ''keyspace''])
    \<and> (\<forall>sect. sect \<notin> {[], ''all'', ''default'', ''everything'', ''server'', ''clients'', ''stats'', ''replication'', ''cpu'', ''keyspace''}
         \<longrightarrow> info sect = [])"
proof -
  let ?s = "info_sections fp version (take 16 (RedisRunID fp)) t cmds conns"
  let ?info = "\<lambda>sect. if sect \<in> {[], ''all'', ''default'', ''everything''} then concat (map snd ?s)
    else case map_of ?s sect of Some v \<Rightarrow> v | None \<Rightarrow> []"
  have "\<forall>sect. buildInfo fp version sect cmds conns t = Some (?info sect)"
    using assms by (simp add: buildInfo_def go_slice_def FP_wf_def)
  then show ?thesis by (intro exI [of _ ?info]) (simp add: info_sections_def)
qed

theorem buildInfo_sections_witness:
  "\<exists>fp info. FP_wf fp \<and> (\<forall>sect. buildInfo fp ''7.2.4'' sect 3 1 0 = Some (info sect)) \<and> info ''memory'' = []"
proof -
  obtain fp where fp: "FP_wf fp" using FP_wf_exists by blast
  obtain info where i: "\<forall>sect. buildInfo fp ''7.2.4'' sect 3 1 0 = Some (info sect)"
    "\<forall>sect. sect \<notin> {[], ''all'', ''default'', ''everything'', ''server'', ''clients'', ''stats'', ''replication'', ''cpu'', ''keyspace''}
       \<longrightarrow> info sect = []"
    using buildInfo_sections [OF fp, of "''7.2.4''" 3 1 0] by (elim exE conjE)
  have "info ''memory'' = []" using i(2) [rule_format, of "''memory''"] by simp
  then show ?thesis using fp i(1) by blast
qed

end
