(* ===== verification/Tacoma.thy ===== *)
theory Tacoma
  imports Config Http LogReader Mongo Mysql Postgres Redis
begin

text \<open>
  \<^verbatim>\<open>cmd/tacoma/main.go\<close>: how the parts are put together at start-up.

  \<open>main_setup\<close> is \<^verbatim>\<open>main\<close> up to the point where it waits: load the configuration, build the webhook
  client, open the log, draw the fingerprint, and prepare one listener per enabled service; how these are
  started, run and end is the theory \<open>Lifecycle\<close>. Its inputs are
  the outcomes of the system calls: the configuration file, how opening the log ends, the disk, the random
  source, and the two readings of the clock. A fatal error ends the process with a message; \<^const>\<open>None\<close> is
  a panic, which only an exhausted random source can cause.
\<close>

text \<open>A listener with what its handler is given besides the connection, the store and the fingerprint.\<close>

datatype listener =
    RedisListener bytes Server bytes
  | MySQLListener bytes Server bytes
  | PostgresListener bytes Server bytes
  | MongoDBListener bytes Server bytes
  | ElasticsearchListener bytes ESConfig int
  | CouchDBListener bytes bytes int

text \<open>\<^verbatim>\<open>time.Duration(secs) * time.Second\<close> is a 64-bit product.\<close>

definition conn_timeout :: "int \<Rightarrow> int" where
  "conn_timeout secs = sint (word_of_int (secs * int second) :: 64 word)"

definition listen_on :: "Config \<Rightarrow> int \<Rightarrow> bytes" where
  "listen_on cfg port = JoinHostPort (ListenAddr cfg) (dec_int port)"

definition tcp_server :: "Config \<Rightarrow> Server" where
  "tcp_server cfg = Server_New (MaxConnections cfg) (conn_timeout (ConnectionTimeoutSecs cfg))"

definition es_config :: "Config \<Rightarrow> ESConfig" where
  "es_config cfg = \<lparr>ESVersion = Version (cfgElasticsearch cfg), ESClusterName = ClusterName (cfgElasticsearch cfg),
     ESNodeName = NodeName (cfgElasticsearch cfg)\<rparr>"

definition main_listeners :: "Config \<Rightarrow> listener list" where
  "main_listeners cfg =
    (if Enabled (cfgRedis cfg)
     then [RedisListener (listen_on cfg (Port (cfgRedis cfg))) (tcp_server cfg) (Version (cfgRedis cfg))] else [])
    @ (if Enabled (cfgMySQL cfg)
       then [MySQLListener (listen_on cfg (Port (cfgMySQL cfg))) (tcp_server cfg) (Version (cfgMySQL cfg))] else [])
    @ (if Enabled (cfgPostgres cfg)
       then [PostgresListener (listen_on cfg (Port (cfgPostgres cfg))) (tcp_server cfg) (Version (cfgPostgres cfg))] else [])
    @ (if Enabled (cfgMongoDB cfg)
       then [MongoDBListener (listen_on cfg (Port (cfgMongoDB cfg))) (tcp_server cfg) (Version (cfgMongoDB cfg))] else [])
    @ (if Enabled (cfgElasticsearch cfg)
       then [ElasticsearchListener (listen_on cfg (Port (cfgElasticsearch cfg))) (es_config cfg) (MaxRequestBodyBytes cfg)]
       else [])
    @ (if Enabled (cfgCouchDB cfg)
       then [CouchDBListener (listen_on cfg (Port (cfgCouchDB cfg))) (Version (cfgCouchDB cfg)) (MaxRequestBodyBytes cfg)]
       else [])"

datatype startup =
    Fatal bytes
  | Running Store FP "listener list" "bytes list"

text \<open>The client, if one is wanted, and what building it prints.\<close>

definition main_webhook :: "Config \<Rightarrow> (goerr + webhookClient option) \<times> bytes list" where
  "main_webhook cfg =
    (if WhEnabled (cfgWebhook cfg) then
       (case NewWebhook (URL (cfgWebhook cfg)) (AuthHeader (cfgWebhook cfg)) (TLSVerify (cfgWebhook cfg)) of
          (Inl e, lines) \<Rightarrow> (Inl e, lines)
        | (Inr wh, lines) \<Rightarrow> (Inr (Some wh), lines))
     else (Inr None, []))"

definition main_setup ::
  "goerr + bytes \<Rightarrow> (bytes \<Rightarrow> goerr + bytes) \<Rightarrow> nat option \<Rightarrow> nat \<Rightarrow> nat \<Rightarrow> bytes \<Rightarrow> startup option" where
  "main_setup config_file open_log disk t0 t1 entropy0 =
    (case Load config_file of
       Inl e \<Rightarrow> Some (Fatal ''config'')
     | Inr cfg \<Rightarrow>
         (case main_webhook cfg of
            (Inl e, lines) \<Rightarrow> Some (Fatal ''webhook'')
          | (Inr wh, lines) \<Rightarrow>
              (case New (open_log (LogFile cfg)) disk wh of
                 Inl e \<Rightarrow> Some (Fatal ''capture store'')
               | Inr store \<Rightarrow> do {
                   (fp, e1) \<leftarrow> FP_New (NodeName (cfgElasticsearch cfg)) t0 t1 entropy0;
                   Some (Running store fp (main_listeners cfg) lines) })))"

text \<open>The message printed once all services are started.\<close>

definition running_line :: "FP \<Rightarrow> bytes option" where
  "running_line fp = do {
     node \<leftarrow> go_slice (ESNodeUUID fp) 0 8;
     Some (''White Toyota Tacoma running (fingerprint node_id='' @ node @ '' pid='' @ dec_int (RedisProcessID fp) @ '')'') }"

section \<open>Start-up\<close>

lemma main_webhook_ok: "usable cfg \<Longrightarrow> \<exists>wh lines. main_webhook cfg = (Inr wh, lines)"
  by (auto simp: main_webhook_def NewWebhook_def usable_def)

lemma main_setup_cases:
  assumes "Load f = Inr cfg"
  obtains (nolog) e where "open_log (LogFile cfg) = Inl e" "main_setup f open_log disk t0 t1 ent = Some (Fatal ''capture store'')"
  | (nornd) b where "open_log (LogFile cfg) = Inr b" "FP_New (NodeName (cfgElasticsearch cfg)) t0 t1 ent = None"
      "main_setup f open_log disk t0 t1 ent = None"
  | (ok) b fp e1 wh lines where "open_log (LogFile cfg) = Inr b" "FP_New (NodeName (cfgElasticsearch cfg)) t0 t1 ent = Some (fp, e1)"
      "FP_wf fp" "main_setup f open_log disk t0 t1 ent = Some (Running
        \<lparr>logf = b, file_open = True, disk_space = disk, webhook = wh, deliveries = [], diag = []\<rparr> fp (main_listeners cfg) lines)"
proof -
  have u: "usable cfg" using Load_usable [OF assms] .
  obtain wh lines where wh: "main_webhook cfg = (Inr wh, lines)" using main_webhook_ok [OF u] by blast
  show thesis
  proof (cases "open_log (LogFile cfg)")
    case (Inl e)
    then show thesis using assms wh nolog by (simp add: main_setup_def New_def)
  next
    case (Inr b)
    show thesis
    proof (cases "FP_New (NodeName (cfgElasticsearch cfg)) t0 t1 ent")
      case None
      then show thesis using assms wh Inr nornd by (simp add: main_setup_def New_def)
    next
      case (Some x)
      obtain fp e1 where x: "x = (fp, e1)" by fastforce
      have wf: "FP_wf fp" using FP_New_wf Some x by blast
      then show thesis using assms wh Inr Some x wf ok by (simp add: main_setup_def New_def)
    qed
  qed
qed


lemma running_line_wf: "FP_wf fp \<Longrightarrow> \<exists>line. running_line fp = Some line"
  by (simp add: running_line_def go_slice_def FP_wf_def)

lemma conn_timeout_exact:
  assumes "0 \<le> secs" "secs * int second < 2 ^ 63"
  shows "conn_timeout secs = secs * int second"
proof -
  have "signed_take_bit 63 (secs * int second) = secs * int second"
    using assms by (intro signed_take_bit_int_eq_self) (simp_all add: second_def)
  then show ?thesis unfolding conn_timeout_def signed_of_int by simp
qed

text \<open>A server nobody has connected to yet.\<close>

abbreviation fresh_server :: "int \<Rightarrow> int \<Rightarrow> Server" where
  "fresh_server n timeout \<equiv> \<lparr>maxConns = n, connTimeout = timeout, sem_used = 0, totalConns = 0, totalCmds = 0,
     ipCounts = Map.empty, done_closed = False, wg = 0\<rparr>"

lemma tcp_server_fresh:
  assumes "Load f = Inr cfg" "ConnectionTimeoutSecs cfg * int second < 2 ^ 63"
  shows "tcp_server cfg = fresh_server (MaxConnections cfg) (ConnectionTimeoutSecs cfg * int second)"
proof -
  have u: "usable cfg" by (rule Load_usable [OF assms(1)])
  then have "conn_timeout (ConnectionTimeoutSecs cfg) = ConnectionTimeoutSecs cfg * int second"
    using assms(2) by (intro conn_timeout_exact) (simp_all add: usable_def)
  then show ?thesis using u by (simp add: tcp_server_def Server_New_def usable_def)
qed

text \<open>C21. Start-up does what the configuration says: once a configuration loads, only an unreadable log
  file or an exhausted random source keeps the program from running. Then exactly the enabled services are
  started, each on its own port of the listen address and with its own version; each of the four database
  services with a fresh server of the configured connection limit and timeout, the two HTTP services with the
  configured names and body limit.\<close>

theorem main_starts_enabled_services:
  assumes "Load f = Inr cfg" "open_log (LogFile cfg) = Inr b" "FP_New (NodeName (cfgElasticsearch cfg)) t0 t1 ent = Some (fp, e1)"
    and "ConnectionTimeoutSecs cfg * int second < 2 ^ 63"
  shows "\<exists>wh lines ls. main_setup f open_log disk t0 t1 ent = Some (Running
      \<lparr>logf = b, file_open = True, disk_space = disk, webhook = wh, deliveries = [], diag = []\<rparr> fp ls lines)
    \<and> (\<forall>a sv v. RedisListener a sv v \<in> set ls \<longleftrightarrow> Enabled (cfgRedis cfg)
        \<and> a = JoinHostPort (ListenAddr cfg) (dec_int (Port (cfgRedis cfg))) \<and> v = Version (cfgRedis cfg)
        \<and> sv = fresh_server (MaxConnections cfg) (ConnectionTimeoutSecs cfg * int second))
    \<and> (\<forall>a sv v. MySQLListener a sv v \<in> set ls \<longleftrightarrow> Enabled (cfgMySQL cfg)
        \<and> a = JoinHostPort (ListenAddr cfg) (dec_int (Port (cfgMySQL cfg))) \<and> v = Version (cfgMySQL cfg)
        \<and> sv = fresh_server (MaxConnections cfg) (ConnectionTimeoutSecs cfg * int second))
    \<and> (\<forall>a sv v. PostgresListener a sv v \<in> set ls \<longleftrightarrow> Enabled (cfgPostgres cfg)
        \<and> a = JoinHostPort (ListenAddr cfg) (dec_int (Port (cfgPostgres cfg))) \<and> v = Version (cfgPostgres cfg)
        \<and> sv = fresh_server (MaxConnections cfg) (ConnectionTimeoutSecs cfg * int second))
    \<and> (\<forall>a sv v. MongoDBListener a sv v \<in> set ls \<longleftrightarrow> Enabled (cfgMongoDB cfg)
        \<and> a = JoinHostPort (ListenAddr cfg) (dec_int (Port (cfgMongoDB cfg))) \<and> v = Version (cfgMongoDB cfg)
        \<and> sv = fresh_server (MaxConnections cfg) (ConnectionTimeoutSecs cfg * int second))
    \<and> (\<forall>a c mb. ElasticsearchListener a c mb \<in> set ls \<longleftrightarrow> Enabled (cfgElasticsearch cfg)
        \<and> a = JoinHostPort (ListenAddr cfg) (dec_int (Port (cfgElasticsearch cfg)))
        \<and> c = \<lparr>ESVersion = Version (cfgElasticsearch cfg), ESClusterName = ClusterName (cfgElasticsearch cfg),
            ESNodeName = NodeName (cfgElasticsearch cfg)\<rparr>
        \<and> mb = MaxRequestBodyBytes cfg)
    \<and> (\<forall>a v mb. CouchDBListener a v mb \<in> set ls \<longleftrightarrow> Enabled (cfgCouchDB cfg)
        \<and> a = JoinHostPort (ListenAddr cfg) (dec_int (Port (cfgCouchDB cfg))) \<and> v = Version (cfgCouchDB cfg)
        \<and> mb = MaxRequestBodyBytes cfg)
    \<and> length ls = length (filter id [Enabled (cfgRedis cfg), Enabled (cfgMySQL cfg), Enabled (cfgPostgres cfg),
        Enabled (cfgMongoDB cfg), Enabled (cfgElasticsearch cfg), Enabled (cfgCouchDB cfg)])"
proof -
  obtain wh lines where m: "main_setup f open_log disk t0 t1 ent = Some (Running
      \<lparr>logf = b, file_open = True, disk_space = disk, webhook = wh, deliveries = [], diag = []\<rparr> fp (main_listeners cfg) lines)"
    using main_setup_cases [OF assms(1), of open_log disk t0 t1 ent] assms(2,3) by fastforce
  show ?thesis unfolding tcp_server_fresh [OF assms(1,4), symmetric]
    by (intro exI [of _ wh] exI [of _ lines] exI [of _ "main_listeners cfg"] conjI)
      (rule m, auto simp: main_listeners_def listen_on_def es_config_def)
qed

lemma sample_load: "Load (Inr (json_marshal (config_json sample_cfg))) = Inr (applyDefaults sample_cfg)"
  using Load_written [OF sample_config, of "[]"] by simp

lemma sample_defaults:
  "NodeName (cfgElasticsearch (applyDefaults sample_cfg)) = ''node-1''" "ConnectionTimeoutSecs (applyDefaults sample_cfg) = 30"
  by (simp_all add: applyDefaults_def sample_cfg_def zero_Config_def or_string_def or_int_def zero_service_def
      service.defs es_service.defs)

lemma sample_settings:
  "\<not> Enabled (cfgRedis (applyDefaults sample_cfg))" "\<not> Enabled (cfgMySQL (applyDefaults sample_cfg))"
  "\<not> Enabled (cfgPostgres (applyDefaults sample_cfg))" "Enabled (cfgMongoDB (applyDefaults sample_cfg))"
  "\<not> Enabled (cfgElasticsearch (applyDefaults sample_cfg))" "\<not> Enabled (cfgCouchDB (applyDefaults sample_cfg))"
  "JoinHostPort (ListenAddr (applyDefaults sample_cfg)) (dec_int (Port (cfgMongoDB (applyDefaults sample_cfg)))) = ''0.0.0.0:'' @ dec_int 27017"
  "Version (cfgMongoDB (applyDefaults sample_cfg)) = ''7.0.8''" "MaxConnections (applyDefaults sample_cfg) = 7"
proof -
  have "JoinHostPort ''0.0.0.0'' (dec_int 27017) = ''0.0.0.0:'' @ dec_int 27017" by (simp add: JoinHostPort_def)
  moreover have "ListenAddr (applyDefaults sample_cfg) = ''0.0.0.0''" "Port (cfgMongoDB (applyDefaults sample_cfg)) = 27017"
    by (simp_all add: applyDefaults_def sample_cfg_def zero_Config_def or_string_def or_int_def service_defaults_def zero_service_def)
  ultimately show "JoinHostPort (ListenAddr (applyDefaults sample_cfg)) (dec_int (Port (cfgMongoDB (applyDefaults sample_cfg)))) = ''0.0.0.0:'' @ dec_int 27017"
    by (simp only:)
qed (simp_all add: applyDefaults_def sample_cfg_def zero_Config_def or_string_def or_int_def service_defaults_def zero_service_def
      service.defs es_service.defs redis_service.defs)

lemma sample_listeners:
  "\<exists>addr. main_listeners (applyDefaults sample_cfg) = [MongoDBListener addr (tcp_server (applyDefaults sample_cfg)) ''7.0.8'']"
  by (simp add: main_listeners_def applyDefaults_def sample_cfg_def zero_Config_def or_string_def service_defaults_def zero_service_def
      service.defs es_service.defs redis_service.defs)

lemma sample_launch:
  "\<exists>store fp lines addr. main_setup (Inr (json_marshal (config_json sample_cfg))) (\<lambda>_. Inr []) None 0 0 (replicate 129 NUL)
      = Some (Running store fp [MongoDBListener addr (tcp_server (applyDefaults sample_cfg)) ''7.0.8''] lines)
    \<and> FP_wf fp \<and> logf store = []"
proof -
  obtain fp where fp: "FP_New ''node-1'' 0 0 (replicate 129 NUL) = Some (fp, [])" using FP_New_zeros by blast
  obtain addr where "main_listeners (applyDefaults sample_cfg) = [MongoDBListener addr (tcp_server (applyDefaults sample_cfg)) ''7.0.8'']"
    using sample_listeners by blast
  then show ?thesis
    by (cases rule: main_setup_cases [OF sample_load, of "\<lambda>_. Inr []" None 0 0 "replicate 129 NUL"])
      (use fp in \<open>auto simp: sample_defaults\<close>)
qed

theorem main_starts_enabled_services_witness:
  "\<exists>store fp lines ls. main_setup (Inr (json_marshal (config_json sample_cfg))) (\<lambda>_. Inr []) None 0 0 (replicate 129 NUL)
      = Some (Running store fp ls lines)
    \<and> MongoDBListener (''0.0.0.0:'' @ dec_int 27017) (fresh_server 7 (30 * int second)) ''7.0.8'' \<in> set ls \<and> length ls = 1"
proof -
  obtain fp where fp: "FP_New ''node-1'' 0 0 (replicate 129 NUL) = Some (fp, [])" using FP_New_zeros by blast
  have "ConnectionTimeoutSecs (applyDefaults sample_cfg) * int second < 2 ^ 63"
    by (simp add: sample_defaults second_def)
  note s = main_starts_enabled_services [OF sample_load _ _ this, of "\<lambda>_. Inr []" "[]" 0 0 "replicate 129 NUL" fp "[]" None,
      unfolded sample_settings(7-9) sample_defaults, OF refl fp]
  obtain store lines ls where m: "main_setup (Inr (json_marshal (config_json sample_cfg))) (\<lambda>_. Inr []) None 0 0 (replicate 129 NUL)
        = Some (Running store fp ls lines)"
      "MongoDBListener (''0.0.0.0:'' @ dec_int 27017) (fresh_server 7 (30 * int second)) ''7.0.8'' \<in> set ls"
      "length ls = length (filter id [Enabled (cfgRedis (applyDefaults sample_cfg)), Enabled (cfgMySQL (applyDefaults sample_cfg)),
        Enabled (cfgPostgres (applyDefaults sample_cfg)), Enabled (cfgMongoDB (applyDefaults sample_cfg)),
        Enabled (cfgElasticsearch (applyDefaults sample_cfg)), Enabled (cfgCouchDB (applyDefaults sample_cfg))])"
    using s by (elim exE conjE) (rule that, assumption, simp only: sample_settings(4), assumption)
  have "length ls = 1" using m(3) by (simp add: sample_settings(1-6))
  then show ?thesis using m(1,2) by blast
qed

text \<open>Without a deadline a MySQL client that does not take its greeting keeps the handler for good.\<close>

lemma mysql_greeting_hangs:
  assumes "timeout \<le> 0" "mysql_supplied w" "wr_cap (wconn w) = Some 0" "wr_stalls (wconn w)" "wr_deadline (wconn w) = None"
  shows "\<exists>w'. serve_conn timeout (mysql_Handler version) w = Some w' \<and> hung (wconn w')"
proof -
  obtain cid e1 scr e2 where d: "MySQLConnID (entropy w) = Some (cid, e1)" "MySQLScramble e1 = Some (scr, e2)"
    using assms(2) by (auto simp: mysql_supplied_def)
  obtain pkt err w1 where h: "greeting_packet version cid scr = Some pkt" "write_bytes pkt (w\<lparr>entropy := e2\<rparr>) = (err, w1)"
      "mysql_Handler version w = (if err \<noteq> None then Some w1 else mysql_session (peer w) w1)"
    using mysql_Handler_session [OF d] by blast
  have "0 < length pkt" using greeting_packet_layout [OF MySQLScramble_length [OF d(2)], of version cid] h(1)
    by (auto simp: packet_bytes_def)
  then have "err = Some Stuck \<and> hung (wconn w1)"
    using h(2) assms(3-5) by (auto simp: write_bytes_def conn_Write_def)
  then show ?thesis using h(3) assms(1) by (simp add: serve_conn_def with_deadline_def)
qed

definition stalled_world :: "world" where
  "stalled_world = (quiet_world (replicate 23 CHR 0x01) [])\<lparr>wconn := (quiet_conn [])\<lparr>wr_cap := Some 0, wr_stalls := True\<rparr>\<rparr>"

lemma stalled_world:
  "mysql_supplied stalled_world" "wr_cap (wconn stalled_world) = Some 0" "wr_stalls (wconn stalled_world)"
  "wr_deadline (wconn stalled_world) = None" "\<not> hung (wconn stalled_world)"
  using mysql_supplied_ones [of 20 "[]"] by (simp_all add: stalled_world_def mysql_supplied_def quiet_conn_def)

lemma conn_timeout_negative:
  assumes "9223372037 \<le> n" "n \<le> 18446744073"
  shows "conn_timeout n < 0"
proof -
  let ?x = "n * int second"
  have x: "2 ^ 64 \<le> ?x + 2 ^ 63" "?x < 2 ^ 64" using assms by (simp_all add: second_def)
  then have "(?x + 2 ^ 63) mod 2 ^ 64 = ?x + 2 ^ 63 - 2 ^ 64" by (intro int_mod_pos_eq [where q = 1]) simp_all
  then have "signed_take_bit 63 ?x = ?x - 2 ^ 64"
    by (simp add: signed_take_bit_eq_take_bit_shift take_bit_eq_mod)
  then show ?thesis using x(2) unfolding conn_timeout_def signed_of_int by simp
qed

text \<open>C40. A connection timeout from 9223372037 to 18446744073 seconds is accepted and disables the deadline it asks
  for: in nanoseconds it does not fit 64 bits with a sign and wraps to a negative duration, for which no deadline is
  set. (Larger values wrap further and can come out positive again.) A MySQL client that does not take its greeting
  then keeps its goroutine for good.\<close>

theorem conn_timeout_wraps:
  assumes "9223372037 \<le> n" "n \<le> 18446744073" "validate (c\<lparr>ConnectionTimeoutSecs := 0\<rparr>) = None"
    and "mysql_supplied w" "wr_cap (wconn w) = Some 0" "wr_stalls (wconn w)" "wr_deadline (wconn w) = None"
  shows "conn_timeout n < 0 \<and> validate (c\<lparr>ConnectionTimeoutSecs := n\<rparr>) = None
    \<and> (\<exists>w'. serve_conn (conn_timeout n) (mysql_Handler version) w = Some w' \<and> hung (wconn w'))"
proof -
  have neg: "conn_timeout n < 0" by (rule conn_timeout_negative [OF assms(1,2)])
  moreover have "validate (c\<lparr>ConnectionTimeoutSecs := n\<rparr>) = None"
    using assms(1,3) by (simp add: validate_def split: if_splits)
  ultimately show ?thesis using mysql_greeting_hangs [OF _ assms(4-7), of "conn_timeout n" version] by simp
qed

theorem conn_timeout_wraps_witness:
  "conn_timeout 10000000000 < 0 \<and> validate (zero_Config\<lparr>ConnectionTimeoutSecs := 10000000000\<rparr>) = None
    \<and> (\<exists>w'. serve_conn (conn_timeout 10000000000) (mysql_Handler ''8.0.36'') stalled_world = Some w' \<and> hung (wconn w'))"
proof -
  have "validate (zero_Config\<lparr>ConnectionTimeoutSecs := 0\<rparr>) = None" by (simp add: validate_None zero_Config_def)
  from conn_timeout_wraps [OF _ _ this stalled_world(1-4), of 10000000000 "''8.0.36''"] show ?thesis by simp
qed

section \<open>What every started service promises\<close>

text \<open>A session is over, without a panic, by \<open>D\<close>, nothing sent was taken back, and the log has only been appended
  to.\<close>

definition session_ends :: "nat \<Rightarrow> ('a) world_scheme option \<Rightarrow> ('a) world_scheme \<Rightarrow> bool" where
  "session_ends D outcome w \<longleftrightarrow> (\<exists>w'. outcome = Some w' \<and> log_extends (wstore w) (wstore w')
     \<and> prefix (out (wconn w)) (out (wconn w')) \<and> now w' \<le> D \<and> \<not> hung (wconn w'))"

definition request_answered :: "(http_outcome \<times> Store) option \<Rightarrow> Store \<Rightarrow> bool" where
  "request_answered outcome s \<longleftrightarrow> (\<exists>out s1. outcome = Some (out, s1) \<and> log_extends s s1)"

text \<open>The sessions are those that the listener runs, with its own timeout; that they end in time is measured
  against \<open>timeout\<close>, the one the configuration asks for.\<close>

definition listener_safe :: "FP \<Rightarrow> int \<Rightarrow> listener \<Rightarrow> bool" where
  "listener_safe fp timeout l \<longleftrightarrow>
    (case l of
       RedisListener _ sv v \<Rightarrow> \<forall>U w T. quiet_by T w \<longrightarrow>
         session_ends (over_by timeout T w) (serve_conn (connTimeout sv) (redis_Handler U fp v) w) w
     | MySQLListener _ sv v \<Rightarrow> \<forall>w T. mysql_supplied w \<and> quiet_by T w \<longrightarrow>
         session_ends (over_by timeout T w) (serve_conn (connTimeout sv) (mysql_Handler v) w) w
     | PostgresListener _ sv v \<Rightarrow> \<forall>order w T. pg_supplied w \<and> quiet_by T w \<longrightarrow>
         session_ends (over_by timeout T w) (serve_conn (connTimeout sv) (pg_Handler order v) w) w
     | MongoDBListener _ sv v \<Rightarrow> \<forall>U order w T. quiet_by T w \<longrightarrow>
         session_ends (over_by timeout T w) (serve_conn (connTimeout sv) (mongo_Handler U order fp v) w) w
     | ElasticsearchListener _ c mb \<Rightarrow> \<forall>t r s. request_answered (mux_ServeHTTP (es_mux fp c mb) t r s) s
     | CouchDBListener _ v mb \<Rightarrow> \<forall>t r s. request_answered (mux_ServeHTTP (couch_mux fp v mb) t r s) s)"

fun tcp_service :: "listener \<Rightarrow> (bytes \<times> Server) option" where
  "tcp_service (RedisListener addr sv v) = Some (addr, sv)"
| "tcp_service (MySQLListener addr sv v) = Some (addr, sv)"
| "tcp_service (PostgresListener addr sv v) = Some (addr, sv)"
| "tcp_service (MongoDBListener addr sv v) = Some (addr, sv)"
| "tcp_service _ = None"

lemma listener_safe_wf:
  assumes "FP_wf fp" "0 < timeout" "\<And>addr sv. tcp_service l = Some (addr, sv) \<Longrightarrow> connTimeout sv = timeout"
  shows "listener_safe fp timeout l"
proof (cases l)
  case (RedisListener a sv v)
  then show ?thesis using redis_handler.served_quiet [OF assms(1) _ assms(2)] assms(3) by (simp add: listener_safe_def session_ends_def)
next
  case (MySQLListener a sv v)
  then show ?thesis using mysql_handler.served_quiet [OF _ _ assms(2)] assms(3) by (simp add: listener_safe_def session_ends_def)
next
  case (PostgresListener a sv v)
  then show ?thesis using pg_handler.served_quiet [OF _ _ assms(2)] assms(3) by (simp add: listener_safe_def session_ends_def)
next
  case (MongoDBListener a sv v)
  then show ?thesis using mongo_handler.served_quiet [OF TrueI _ assms(2)] assms(3) by (simp add: listener_safe_def session_ends_def)
next
  case (ElasticsearchListener a c mb)
  then show ?thesis unfolding listener_safe_def request_answered_def using es_mux_answers by simp blast
next
  case (CouchDBListener a v mb)
  then show ?thesis unfolding listener_safe_def request_answered_def using couch_mux_answers [OF assms(1)] by simp blast
qed

text \<open>Whether some client can make a session of this service block for good.\<close>

definition can_hang :: "FP \<Rightarrow> listener \<Rightarrow> bool" where
  "can_hang fp l \<longleftrightarrow>
    (case l of
       RedisListener _ sv v \<Rightarrow> \<exists>U w w'. \<not> hung (wconn w) \<and> serve_conn (connTimeout sv) (redis_Handler U fp v) w = Some w' \<and> hung (wconn w')
     | MySQLListener _ sv v \<Rightarrow> \<exists>w w'. mysql_supplied w \<and> \<not> hung (wconn w)
         \<and> serve_conn (connTimeout sv) (mysql_Handler v) w = Some w' \<and> hung (wconn w')
     | PostgresListener _ sv v \<Rightarrow> \<exists>order w w'. pg_supplied w \<and> \<not> hung (wconn w)
         \<and> serve_conn (connTimeout sv) (pg_Handler order v) w = Some w' \<and> hung (wconn w')
     | MongoDBListener _ sv v \<Rightarrow> \<exists>U order w w'. \<not> hung (wconn w)
         \<and> serve_conn (connTimeout sv) (mongo_Handler U order fp v) w = Some w' \<and> hung (wconn w')
     | _ \<Rightarrow> False)"

lemma session_ends_not_hung:
  "(\<And>T. quiet_by T w \<Longrightarrow> session_ends (D T) outcome w) \<Longrightarrow> \<not> hung (wconn w) \<Longrightarrow> outcome = Some w' \<Longrightarrow> \<not> hung (wconn w')"
  using quiet_by_exists [of w] by (fastforce simp: session_ends_def)

lemma safe_not_hang: "listener_safe fp timeout l \<Longrightarrow> \<not> can_hang fp l"
proof (cases l)
  case (RedisListener a sv v)
  assume "listener_safe fp timeout l"
  then have "\<And>U w T. quiet_by T w \<Longrightarrow> session_ends (over_by timeout T w) (serve_conn (connTimeout sv) (redis_Handler U fp v) w) w"
    by (simp add: RedisListener listener_safe_def)
  from session_ends_not_hung [OF this] show ?thesis by (auto simp: RedisListener can_hang_def)
next
  case (MySQLListener a sv v)
  assume "listener_safe fp timeout l"
  then have "\<And>w T. mysql_supplied w \<Longrightarrow> quiet_by T w \<Longrightarrow> session_ends (over_by timeout T w) (serve_conn (connTimeout sv) (mysql_Handler v) w) w"
    by (simp add: MySQLListener listener_safe_def)
  from session_ends_not_hung [OF this] show ?thesis by (auto simp: MySQLListener can_hang_def)
next
  case (PostgresListener a sv v)
  assume "listener_safe fp timeout l"
  then have "\<And>order w T. pg_supplied w \<Longrightarrow> quiet_by T w \<Longrightarrow> session_ends (over_by timeout T w) (serve_conn (connTimeout sv) (pg_Handler order v) w) w"
    by (simp add: PostgresListener listener_safe_def)
  from session_ends_not_hung [OF this] show ?thesis by (auto simp: PostgresListener can_hang_def)
next
  case (MongoDBListener a sv v)
  assume "listener_safe fp timeout l"
  then have "\<And>U order w T. quiet_by T w \<Longrightarrow> session_ends (over_by timeout T w) (serve_conn (connTimeout sv) (mongo_Handler U order fp v) w) w"
    by (simp add: MongoDBListener listener_safe_def)
  from session_ends_not_hung [OF this] show ?thesis by (auto simp: MongoDBListener can_hang_def)
qed (simp_all add: can_hang_def)

text \<open>A server without a deadline can hang; so a listener of a wrapped timeout can.\<close>

lemma no_deadline_can_hang:
  assumes "connTimeout sv \<le> 0"
  shows "can_hang fp (MySQLListener addr sv v)"
  using mysql_greeting_hangs [OF assms stalled_world(1-4), of v] stalled_world(1,5) by (auto simp: can_hang_def)

text \<open>What \<^verbatim>\<open>main\<close> starts is safe, if the configured timeout fits 63 bits of nanoseconds.\<close>

lemma main_listener_timeout:
  assumes "l \<in> set (main_listeners cfg)" "tcp_service l = Some (addr, sv)"
  shows "sv = tcp_server cfg"
  using assms by (auto simp: main_listeners_def split: if_splits)

lemma main_listeners_safe:
  assumes "Load f = Inr cfg" "ConnectionTimeoutSecs cfg * int second < 2 ^ 63" "FP_wf fp"
  shows "list_all (listener_safe fp (ConnectionTimeoutSecs cfg * int second)) (main_listeners cfg)"
proof -
  have u: "0 < ConnectionTimeoutSecs cfg" using Load_usable [OF assms(1)] by (simp add: usable_def)
  then have "connTimeout (tcp_server cfg) = ConnectionTimeoutSecs cfg * int second"
    using assms(2) by (simp add: tcp_server_def Server_New_def conn_timeout_exact)
  moreover have "0 < ConnectionTimeoutSecs cfg * int second" using u by (simp add: second_def)
  ultimately show ?thesis unfolding list_all_iff
    using listener_safe_wf [OF assms(3)] main_listener_timeout by metis
qed

end
