(* ===== verification/Sessions.thy ===== *)
theory Sessions
  imports Net
begin

text \<open>
  What a session leaves in the log, for the handlers that answer one request after the other: a client that sends
  its requests in time, each within sixty seconds of the one before, gets the events of its requests
  logged, in order, and no others. The argument is the same for every protocol; \<open>capturing_loop\<close> is the
  contract it needs of the loop's step.
\<close>

section \<open>A client that sends requests in time\<close>

text \<open>The client sends the requests \<open>ms\<close>, each complete within the sixty seconds that the handler gives it after
  the one before, and takes data when they are in, before the connection's write deadline; the context is
  not cancelled (it is at \<open>stop\<close>, if at all) before the last of them begins to be read.\<close>

fun sends_in_time :: "('m \<Rightarrow> bytes) \<Rightarrow> nat option \<Rightarrow> 'm list \<Rightarrow> conn \<Rightarrow> bool" where
  "sends_in_time encode stop [] c = True"
| "sends_in_time encode stop (m # ms) c =
    (let c1 = SetReadDeadline (clock c + 60 * second) c; c2 = consume (length (encode m)) c1 in
     (case stop of None \<Rightarrow> True | Some t \<Rightarrow> clock c < t) \<and> prefix (encode m) (readable c1)
     \<and> wr_open c2 \<and> sends_in_time encode stop ms c2)"

lemma sends_in_time_frame [simp]:
  "sends_in_time encode stop ms (c\<lparr>out := b\<rparr>) = sends_in_time encode stop ms c"
  "sends_in_time encode stop ms (SetReadDeadline d c) = sends_in_time encode stop ms c"
proof -
  have o: "SetReadDeadline d (c\<lparr>out := b\<rparr>) = (SetReadDeadline d c)\<lparr>out := b\<rparr>" for d and c :: conn
    by (simp add: SetReadDeadline_def)
  show "sends_in_time encode stop ms (c\<lparr>out := b\<rparr>) = sends_in_time encode stop ms c"
    by (induction ms arbitrary: c) (simp_all add: Let_def o consume_out split: option.split)
  have "SetReadDeadline d' (SetReadDeadline d c) = SetReadDeadline d' c" "clock (SetReadDeadline d c) = clock c" for d'
    by (simp_all add: SetReadDeadline_def)
  then show "sends_in_time encode stop ms (SetReadDeadline d c) = sends_in_time encode stop ms c"
    by (cases ms) (simp_all add: Let_def split: option.split)
qed

text \<open>A client whose requests are all there when the handler starts.\<close>

lemma sends_at_once:
  assumes "wr_open c" "\<forall>tb \<in> set (incoming c). fst tb \<le> clock c" "prefix (concat (map encode ms)) (map snd (incoming c))"
  shows "sends_in_time encode None ms c"
  using assms
proof (induction ms arbitrary: c)
  case (Cons m ms)
  let ?n = "length (encode m)" and ?c1 = "SetReadDeadline (clock c + 60 * second) c"
  have "\<forall>tb \<in> set (incoming c). in_time ?c1 (fst tb)"
    using Cons.prems(2) by (auto simp: in_time_def SetReadDeadline_def second_def)
  then have "takeWhile (\<lambda>tb. in_time ?c1 (fst tb)) (incoming c) = incoming c" by (simp add: takeWhile_eq_all_conv)
  moreover have "incoming ?c1 = incoming c" by (simp add: SetReadDeadline_def)
  ultimately have r: "readable ?c1 = map snd (incoming c)" by (simp only: readable_def)
  have "\<forall>t \<in> set (map fst (take ?n (incoming c))). t \<le> clock c" using Cons.prems(2) by (auto dest: in_set_takeD)
  then have "fold max (map fst (take ?n (incoming c))) (clock c) = clock c"
    using fold_max_le fold_max_ge by (intro antisym) blast+
  then have k: "clock (consume ?n ?c1) = clock c" by (simp add: consume_def SetReadDeadline_def)
  obtain rest where rest: "map snd (incoming c) = encode m @ concat (map encode ms) @ rest"
    using Cons.prems(3) by (auto simp: prefix_def)
  have i: "incoming (consume ?n ?c1) = drop ?n (incoming c)" by (simp add: SetReadDeadline_def)
  then have "prefix (concat (map encode ms)) (map snd (incoming (consume ?n ?c1)))"
    using rest by (simp flip: drop_map)
  moreover have "\<forall>tb \<in> set (incoming (consume ?n ?c1)). fst tb \<le> clock (consume ?n ?c1)"
    unfolding i k using Cons.prems(2) by (auto dest: in_set_dropD)
  moreover have o: "wr_open (consume ?n ?c1)"
    using Cons.prems(1) k by (auto simp: wr_open_def SetReadDeadline_def split: option.splits)
  ultimately have "sends_in_time encode None ms (consume ?n ?c1)" by (intro Cons.IH)
  then show ?case using r rest o by (simp add: Let_def)
qed simp

section \<open>The events of a session\<close>

text \<open>The events of a list of requests: each gives its own in the state the ones before have led to, and a
  request that ends the session is the last.\<close>

fun session_events :: "('c \<Rightarrow> 'm \<Rightarrow> Event list) \<Rightarrow> ('c \<Rightarrow> 'm \<Rightarrow> 'c) \<Rightarrow> ('m \<Rightarrow> bool) \<Rightarrow> 'c \<Rightarrow> 'm list \<Rightarrow> Event list" where
  "session_events evs nxt ends c [] = []"
| "session_events evs nxt ends c (m # ms) = evs c m @ (if ends m then [] else session_events evs nxt ends (nxt c m) ms)"

text \<open>A connection with the output \<open>b\<close> and the read deadline sixty seconds ahead.\<close>

definition renewed :: "bytes \<Rightarrow> conn \<Rightarrow> conn" where
  "renewed b c = SetReadDeadline (clock c + 60 * second) (c\<lparr>out := b\<rparr>)"

lemma renewed_simps [simp]:
  "clock (renewed b c) = clock c" "rd_deadline (renewed b c) = Some (clock c + 60 * second)"
  "incoming (renewed b c) = incoming c" "sends_in_time encode stop ms (renewed b c) = sends_in_time encode stop ms c"
  by (simp_all add: renewed_def) (simp_all add: SetReadDeadline_def)

text \<open>
  The contract: a request that is valid and in is read, its events are logged, and unless it ends the session
  the loop goes on with the read deadline renewed, the input behind the request and the state that follows;
  with nothing left to read the loop ends without logging.
\<close>

locale capturing_loop = session_loop step run remaining
  for step :: "'s \<Rightarrow> 's ctl" and run :: "'s \<Rightarrow> 's option" and remaining :: "'s \<Rightarrow> nat" +
  fixes wld :: "'s \<Rightarrow> ('a) world_scheme" and state :: "'s \<Rightarrow> 'c" and idle :: "'s \<Rightarrow> bool"
    and encode :: "'m \<Rightarrow> bytes" and valid :: "'m \<Rightarrow> bool" and ends :: "'m \<Rightarrow> bool"
    and evs :: "'c \<Rightarrow> 'm \<Rightarrow> Event list" and nxt :: "'c \<Rightarrow> 'm \<Rightarrow> 'c"
  assumes captures: "idle s \<Longrightarrow> \<not> ctx_Done (wld s) \<Longrightarrow> valid m \<Longrightarrow> readable (wconn (wld s)) = encode m @ rest \<Longrightarrow>
      wr_open (consume (length (encode m)) (wconn (wld s))) \<Longrightarrow>
      \<exists>s' t b. step s = (if ends m then Return s' else Continue s')
        \<and> wstore (wld s') = fold (Log t) (evs (state s) m) (wstore (wld s))
        \<and> (\<not> ends m \<longrightarrow> idle s' \<and> state s' = nxt (state s) m \<and> cancelled_at (wld s') = cancelled_at (wld s)
            \<and> wconn (wld s') = renewed b (consume (length (encode m)) (wconn (wld s))))"
    and drained: "idle s \<Longrightarrow> incoming (wconn (wld s)) = [] \<Longrightarrow> \<exists>s'. step s = Return s' \<and> wstore (wld s') = wstore (wld s)"
    and run_evolves: "idle s \<Longrightarrow> \<exists>s'. run s = Some s' \<and> evolves (wld s) (wld s')"
begin

lemma run_captures:
  assumes "idle s" "rd_deadline (wconn (wld s)) = Some (now (wld s) + 60 * second)"
    and "sends_in_time encode (cancelled_at (wld s)) ms (wconn (wld s))" "list_all valid ms"
  shows "\<exists>s' tes fs. run s = Some s' \<and> map snd tes = session_events evs nxt ends (state s) ms
    \<and> (\<forall>(t, e) \<in> set fs. loggable e) \<and> wstore (wld s') = fold (\<lambda>(t, e). Log t e) (tes @ fs) (wstore (wld s))
    \<and> (list_ex ends ms \<or> map snd (incoming (wconn (wld s))) = concat (map encode ms) \<longrightarrow> fs = [])"
  using assms
proof (induction ms arbitrary: s)
  case Nil
  show ?case
  proof (cases "incoming (wconn (wld s)) = []")
    case True
    then obtain s' where "step s = Return s'" "wstore (wld s') = wstore (wld s)" using drained Nil.prems(1) by blast
    then show ?thesis by (subst run_unfold) (intro exI [of _ s'] exI [of _ "[]"], simp)
  next
    case False
    obtain s' where s': "run s = Some s'" "evolves (wld s) (wld s')" using run_evolves [OF Nil.prems(1)] by blast
    then obtain fs where "\<forall>(t, e) \<in> set fs. loggable e" "wstore (wld s') = fold (\<lambda>(t, e). Log t e) fs (wstore (wld s))"
      by (auto simp: evolves_def log_extends_def)
    then show ?thesis using s'(1) False by (intro exI [of _ s'] exI [of _ "[]"] exI [of _ fs]) simp
  qed
next
  case (Cons m ms)
  let ?c = "consume (length (encode m)) (wconn (wld s))"
  have "SetReadDeadline (now (wld s) + 60 * second) (wconn (wld s)) = wconn (wld s)"
    using Cons.prems(2) by (simp add: SetReadDeadline_def)
  then have sc: "\<not> ctx_Done (wld s)" "prefix (encode m) (readable (wconn (wld s)))" "wr_open ?c"
      "sends_in_time encode (cancelled_at (wld s)) ms ?c"
    using Cons.prems(3) by (auto simp: Let_def now_def ctx_Done_def split: option.splits)
  then obtain rest where rest: "readable (wconn (wld s)) = encode m @ rest" by (auto simp: prefix_def)
  have ok: "valid m" "list_all valid ms" using Cons.prems(4) by simp_all
  obtain s1 t b where st: "step s = (if ends m then Return s1 else Continue s1)"
      "wstore (wld s1) = fold (Log t) (evs (state s) m) (wstore (wld s))"
      "\<not> ends m \<longrightarrow> idle s1 \<and> state s1 = nxt (state s) m \<and> cancelled_at (wld s1) = cancelled_at (wld s)
        \<and> wconn (wld s1) = renewed b ?c"
    using captures [OF Cons.prems(1) sc(1) ok(1) rest sc(3)] by blast
  have tag: "fold (Log t) es st = fold (\<lambda>(t, e). Log t e) (map (Pair t) es) st" for es st
    by (induction es arbitrary: st) simp_all
  show ?case
  proof (cases "ends m")
    case True
    then show ?thesis using st(1,2) tag
      by (subst run_unfold) (intro exI [of _ s1] exI [of _ "map (Pair t) (evs (state s) m)"] exI [of _ "[]"], simp add: comp_def)
  next
    case False
    then have n: "idle s1" "state s1 = nxt (state s) m" "cancelled_at (wld s1) = cancelled_at (wld s)"
        "wconn (wld s1) = renewed b ?c" using st(3) by simp_all
    then have d: "rd_deadline (wconn (wld s1)) = Some (now (wld s1) + 60 * second)" by (simp add: now_def)
    have s: "sends_in_time encode (cancelled_at (wld s1)) ms (wconn (wld s1))"
      using sc(4) n(3,4) by simp
    obtain s' tes fs where ih: "run s1 = Some s'" "map snd tes = session_events evs nxt ends (nxt (state s) m) ms"
        "\<forall>(t, e) \<in> set fs. loggable e" "wstore (wld s') = fold (\<lambda>(t, e). Log t e) (tes @ fs) (wstore (wld s1))"
        "list_ex ends ms \<or> map snd (incoming (wconn (wld s1))) = concat (map encode ms) \<longrightarrow> fs = []"
      using Cons.IH [OF n(1) d s ok(2)] n(2) by auto
    have i: "incoming (wconn (wld s1)) = drop (length (encode m)) (incoming (wconn (wld s)))"
      using n(4) by simp
    have "map snd (incoming (wconn (wld s))) = concat (map encode (m # ms)) \<Longrightarrow>
        map snd (incoming (wconn (wld s1))) = concat (map encode ms)"
      unfolding i by (simp flip: drop_map)
    then have "list_ex ends (m # ms) \<or> map snd (incoming (wconn (wld s))) = concat (map encode (m # ms)) \<longrightarrow> fs = []"
      using ih(5) False by auto
    moreover have "run s = Some s'" using st(1) ih(1) False by (subst run_unfold) simp
    moreover have "wstore (wld s') = fold (\<lambda>(t, e). Log t e) ((map (Pair t) (evs (state s) m) @ tes) @ fs) (wstore (wld s))"
      using ih(4) st(2) tag by simp
    ultimately show ?thesis using ih(2,3) False
      by (intro exI [of _ s'] exI [of _ "map (Pair t) (evs (state s) m) @ tes"] exI [of _ fs]) (simp add: comp_def)
  qed
qed

end

end
