(* ===== verification/RedisSession.thy ===== *)
theory RedisSession
  imports Redis Sessions
begin

text \<open>
  What a Redis client leaves in the log: the commands of a session, in the order in which they come, give
  the events that the table \<open>redis_command_events\<close> lists for them, and nothing else is logged. The table
  is the specification; \<^const>\<open>handleCmd\<close> and the loop of \<^verbatim>\<open>handler.go\<close> are shown to implement it.
\<close>

section \<open>Which commands are captured\<close>

definition redis_silent :: "bytes set" where
  "redis_silent = {''COMMAND'', ''PING'', ''SELECT'', ''QUIT'', ''INFO'', ''CONFIG'', ''KEYS'', ''DBSIZE'', ''GET'',
     ''DEL'', ''EXISTS'', ''TTL'', ''CLIENT'', ''CLUSTER''}"

definition redis_command_events :: "unicode_tables \<Rightarrow> bytes \<times> 64 word \<Rightarrow> bytes list \<Rightarrow> Event list" where
  "redis_command_events U src args =
    (let name = ToUpper U (hd args) in
     if name = ''HELLO'' then
       (case hello_auth U (tl args) of
          Some (user, pass) \<Rightarrow> [redis_event src user pass ''HELLO AUTH'']
        | None \<Rightarrow> [])
     else if name = ''AUTH'' then (if length args < 2 then [] else [redis_event src [] (args ! 1) ''AUTH''])
     else if name = ''SET'' then (if length args < 3 then [] else [redis_event src [] [] (''SET '' @ args ! 1)])
     else if name \<in> redis_silent then []
     else [redis_event src [] [] name])"

lemma redis_command_events_loggable: "e \<in> set (redis_command_events U src args) \<Longrightarrow> loggable e"
  by (auto simp: redis_command_events_def Let_def split: if_splits option.splits)

section \<open>Writing leaves the store and the input alone\<close>

text \<open>A step that changes nothing but the output and the writer's buffer; on a connection that takes data
  every reply is one.\<close>

definition only_writes :: "redis_world \<Rightarrow> redis_world \<Rightarrow> bool" where
  "only_writes w w1 \<longleftrightarrow> (\<exists>b. wconn w1 = (wconn w)\<lparr>out := b\<rparr>) \<and> wstore w1 = wstore w \<and> cancelled_at w1 = cancelled_at w"

lemma only_writes_same [simp]: "only_writes w (w\<lparr>wbuf := b\<rparr>)" "only_writes w w"
    "only_writes w (w\<lparr>wconn := (wconn w)\<lparr>out := b\<rparr>\<rparr>)" "only_writes w (w\<lparr>wconn := (wconn w)\<lparr>out := b\<rparr>, wbuf := b'\<rparr>)"
  by (auto simp: only_writes_def intro: exI [of _ "out (wconn w)"])

lemma only_writes_trans: "only_writes u v \<Longrightarrow> only_writes v w \<Longrightarrow> only_writes u w"
  by (auto simp: only_writes_def)

definition replies :: "redis_world sender \<Rightarrow> bool" where
  "replies f \<longleftrightarrow> (\<forall>w. writable w \<longrightarrow> (\<exists>w1. f w = (None, w1) \<and> writable w1 \<and> only_writes w w1))"

lemma repliesE:
  assumes "replies f" "writable w"
  obtains w1 where "f w = (None, w1)" "writable w1" "only_writes w w1"
  using assms unfolding replies_def by blast

lemma repliesD: "replies f \<Longrightarrow> f w = (e, w1) \<Longrightarrow> writable w \<Longrightarrow> e = None \<and> writable w1 \<and> only_writes w w1"
  by (erule repliesE) auto

lemma Flush_replies:
  assumes "writable w"
  shows "\<exists>w1. bufio_Flush w = (None, w1) \<and> wbuf w1 = [] \<and> writable w1 \<and> only_writes w w1"
proof (cases "wbuf w = []")
  case True
  then show ?thesis using assms by (simp add: bufio_Flush_def writable_def)
next
  case False
  have "write_bytes (wbuf w) w = (None, w\<lparr>wconn := (wconn w)\<lparr>out := out (wconn w) @ wbuf w\<rparr>\<rparr>)"
    using assms by (intro write_wr_open) (simp add: writable_def)
  then show ?thesis using False assms by (simp add: bufio_Flush_def writable_def)
qed

lemma replies_Flush: "replies bufio_Flush"
  using Flush_replies unfolding replies_def by blast

lemma replies_Write: "replies (bufio_Write p)"
proof -
  have "\<exists>w1. bufio_Write p w = (None, w1) \<and> writable w1 \<and> only_writes w w1" if "writable w" for w
    using that
  proof (induction p w rule: bufio_Write.induct)
    case (1 p w)
    let ?avail = "bufio_size - length (wbuf w)"
    have ok: "werr w = None" "length (wbuf w) \<le> bufio_size" using "1.prems" by (auto simp: writable_def)
    consider "length p \<le> ?avail" | "length p > ?avail" "wbuf w = []" | "length p > ?avail" "wbuf w \<noteq> []" by linarith
    then show ?case
    proof cases
      case a: 1
      have "bufio_Write p w = (None, w\<lparr>wbuf := wbuf w @ p\<rparr>)" using a ok by (subst bufio_Write.simps) (simp add: Let_def)
      moreover have "writable (w\<lparr>wbuf := wbuf w @ p\<rparr>)" using "1.prems" a ok by (auto simp: writable_def)
      ultimately show ?thesis by simp
    next
      case a: 2
      let ?w1 = "w\<lparr>wconn := (wconn w)\<lparr>out := out (wconn w) @ p\<rparr>\<rparr>"
      have wr: "write_bytes p w = (None, ?w1)" using "1.prems" by (intro write_wr_open) (simp add: writable_def)
      have "bufio_Write [] ?w1 = (None, ?w1)" using ok a by (subst bufio_Write.simps) simp
      then have "bufio_Write p w = (None, ?w1)" using a wr ok by (subst bufio_Write.simps) simp
      then show ?thesis using "1.prems" by (simp add: writable_def)
    next
      case a: 3
      let ?v = "w\<lparr>wbuf := wbuf w @ take ?avail p\<rparr>"
      have "writable ?v" using "1.prems" a by (auto simp: writable_def)
      then obtain w1 where f: "bufio_Flush ?v = (None, w1)" "writable w1" "only_writes ?v w1"
        using Flush_replies by blast
      have w: "bufio_Write p w = bufio_Write (drop ?avail p) w1"
        using a f(1) ok by (subst bufio_Write.simps) simp
      obtain w2 where "bufio_Write (drop ?avail p) w1 = (None, w2)" "writable w2" "only_writes w1 w2"
        using "1.IH"(2) [OF refl _ a(2) f(1) [symmetric] refl f(2)] a ok by blast
      then show ?thesis using w f(3) only_writes_trans only_writes_same(1) by metis
    qed
  qed
  then show ?thesis unfolding replies_def by blast
qed

lemma replies_send_all: "\<forall>f \<in> set fs. replies f \<Longrightarrow> replies (send_all fs)"
proof (induction fs)
  case (Cons f fs)
  then have f: "replies f" and fs: "replies (send_all fs)" by simp_all
  show ?case unfolding replies_def
  proof (intro allI impI)
    fix w assume "writable w"
    then obtain w1 where w1: "f w = (None, w1)" "writable w1" "only_writes w w1" using f by (blast elim: repliesE)
    obtain w2 where "send_all fs w1 = (None, w2)" "writable w2" "only_writes w1 w2" using fs w1(2) by (blast elim: repliesE)
    then show "\<exists>w1. send_all (f # fs) w = (None, w1) \<and> writable w1 \<and> only_writes w w1"
      using w1 only_writes_trans by auto
  qed
qed (simp add: replies_def)

lemma replies_writers: "replies (WriteSimple s)" "replies (WriteError s)" "replies (WriteInt n)" "replies (WriteBulk s)" "replies WriteNull"
    "replies (WriteArray items)"
  using replies_Write replies_send_all
  by (simp_all add: WriteSimple_def WriteError_def WriteInt_def WriteBulk_def WriteNull_def WriteArray_def)

section \<open>One command\<close>

text \<open>What a command does to the world: it logs the events of the table and then only writes.\<close>

definition logs :: "Event list \<Rightarrow> redis_world \<Rightarrow> redis_world \<Rightarrow> bool" where
  "logs es w w1 \<longleftrightarrow> only_writes (fold log_event es w) w1"

lemma writable_log [simp]: "writable (log_event e w) = writable w"
  by (simp add: writable_def log_event_def)

lemma logs_reply:
  assumes "replies f" "f (fold log_event es w) = (e, w1)" "writable w"
  shows "e = None \<and> writable w1 \<and> logs es w w1"
proof -
  have "writable (fold log_event es w)" using assms(3) by (induction es arbitrary: w) simp_all
  from repliesD [OF assms(1,2) this] show ?thesis by (simp add: logs_def)
qed

lemma logs_reply0: "replies f \<Longrightarrow> f w = (e, w1) \<Longrightarrow> writable w \<Longrightarrow> e = None \<and> writable w1 \<and> logs [] w w1"
  using logs_reply [of f "[]"] by simp

lemma logs_reply1: "replies f \<Longrightarrow> f (log_event ev w) = (e, w1) \<Longrightarrow> writable w \<Longrightarrow> e = None \<and> writable w1 \<and> logs [ev] w w1"
  using logs_reply [of f "[ev]"] by simp

lemma handleConfig_logs:
  assumes "handleConfig U cmd w = Some (e, w1)" "writable w"
  shows "e = None \<and> writable w1 \<and> logs [] w w1"
  using assms(1) logs_reply0 [OF replies_writers(1) _ assms(2)] logs_reply0 [OF replies_writers(2) _ assms(2)]
    logs_reply0 [OF replies_writers(6) _ assms(2)]
  by (simp add: handleConfig_def Let_def split: if_splits Option.bind_splits)

lemma handleCmd_silent:
  assumes "handleCmd U fp version src cmd w = Some (e, w1)" "writable w" "Name cmd \<in> redis_silent"
  shows "writable w1 \<and> logs [] w w1 \<and> (e = None \<longleftrightarrow> Name cmd \<noteq> ''QUIT'')"
proof -
  note r = logs_reply0 [OF replies_writers(1) _ assms(2)] logs_reply0 [OF replies_writers(2) _ assms(2)]
    logs_reply0 [OF replies_writers(3) _ assms(2)] logs_reply0 [OF replies_writers(4) _ assms(2)]
    logs_reply0 [OF replies_writers(5) _ assms(2)] logs_reply0 [OF replies_writers(6) _ assms(2)]
    handleConfig_logs [OF _ assms(2)]
  show ?thesis using assms(1,3) unfolding redis_silent_def
    by (elim insertE emptyE)
      (auto simp: handleCmd_def Let_def split: if_splits Option.bind_splits prod.splits dest: r)
qed

lemma handleCmd_captured:
  assumes "handleCmd U fp version src cmd w = Some (e, w1)" "writable w" "Name cmd \<notin> redis_silent"
    and "cmd = \<lparr>Name = ToUpper U (hd args), Args = args\<rparr>" "args \<noteq> []"
  shows "e = None \<and> writable w1 \<and> logs (redis_command_events U src args) w w1"
proof -
  note r = logs_reply0 [OF replies_writers(2) _ assms(2)]
    logs_reply1 [OF replies_writers(1) _ assms(2)] logs_reply1 [OF replies_writers(2) _ assms(2)]
  have "go_from args 1 = Some (tl args)" using assms(5) by (cases args) (simp_all add: go_from_def)
  then show ?thesis using assms(1,3,4,5)
    by (simp add: handleCmd_def redis_silent_def redis_command_events_def Let_def)
      (auto simp: go_index_def split: if_splits option.splits dest: r)
qed

lemma handleCmd_logs:
  assumes "handleCmd U fp version src \<lparr>Name = ToUpper U (hd args), Args = args\<rparr> w = Some (e, w1)" "writable w" "args \<noteq> []"
  shows "writable w1 \<and> logs (redis_command_events U src args) w w1 \<and> (e = None \<longleftrightarrow> ToUpper U (hd args) \<noteq> ''QUIT'')"
proof (cases "ToUpper U (hd args) \<in> redis_silent")
  case True
  then have "redis_command_events U src args = []"
    by (auto simp: redis_command_events_def redis_silent_def Let_def)
  then show ?thesis using handleCmd_silent [OF assms(1,2)] True by simp
next
  case False
  then have "ToUpper U (hd args) \<noteq> ''QUIT''" by (auto simp: redis_silent_def)
  then show ?thesis using handleCmd_captured [OF assms(1,2) _ refl assms(3)] False by simp
qed

section \<open>One round of the loop\<close>

text \<open>A writer with nothing pending.\<close>

definition flushed :: "redis_world \<Rightarrow> bool" where
  "flushed w \<longleftrightarrow> wbuf w = [] \<and> werr w = None"

lemma logs_facts:
  assumes "logs es w w1"
  shows "\<exists>b. wconn w1 = (wconn w)\<lparr>out := b\<rparr>" "wstore w1 = fold (Log (now w)) es (wstore w)" "cancelled_at w1 = cancelled_at w"
proof -
  have "wconn (fold log_event es w) = wconn w \<and> wstore (fold log_event es w) = fold (Log (now w)) es (wstore w)
      \<and> cancelled_at (fold log_event es w) = cancelled_at w"
    by (induction es arbitrary: w) simp_all
  then show "\<exists>b. wconn w1 = (wconn w)\<lparr>out := b\<rparr>" "wstore w1 = fold (Log (now w)) es (wstore w)" "cancelled_at w1 = cancelled_at w"
    using assms by (auto simp: logs_def only_writes_def)
qed

lemma redis_step_logs:
  assumes "FP_wf fp" "flushed w" "\<not> ctx_Done w" "readable (wconn w) = resp_array args @ rest" "resp_ok args"
    and "wr_open (consume (length (resp_array args)) (wconn w))"
  shows "\<exists>w' b. redis_step U fp version src w = (if ToUpper U (hd args) = ''QUIT'' then Return w' else Continue w')
    \<and> wconn w' = (wconn (after_read args w))\<lparr>out := b\<rparr> \<and> cancelled_at w' = cancelled_at w
    \<and> (ToUpper U (hd args) \<noteq> ''QUIT'' \<longrightarrow> flushed w')
    \<and> wstore w' = fold (Log (now (after_read args w))) (redis_command_events U src args) (wstore w)"
proof -
  let ?cmd = "\<lparr>Name = ToUpper U (hd args), Args = args\<rparr>" and ?v = "after_read args w"
  have rd: "writable ?v"
    using assms(2,6) by (simp add: writable_def flushed_def after_read_def set_read_deadline_def SetReadDeadline_def)
  note r = ReadCommand_resp [OF assms(4,5), of U]
  have ne: "args \<noteq> []" using assms(5) by (simp add: resp_ok_def)
  obtain e w3 where h: "handleCmd U fp version src ?cmd ?v = Some (e, w3)"
    using handleCmd_returns [OF assms(1), of ?cmd U version src ?v] ne by auto
  have l: "writable w3" "logs (redis_command_events U src args) ?v w3" "e = None \<longleftrightarrow> ToUpper U (hd args) \<noteq> ''QUIT''"
    using handleCmd_logs [OF h rd ne] by blast+
  obtain w4 where f: "bufio_Flush w3 = (None, w4)" "wbuf w4 = []" "writable w4" "only_writes w3 w4"
    using Flush_replies [OF l(1)] by blast
  have st: "redis_step U fp version src w = (case e of None \<Rightarrow> Continue w4 | Some _ \<Rightarrow> Return w3)"
    using assms(3) r h f(1) by (simp add: redis_step_def after_read_def split: option.split)
  note lf = logs_facts [OF l(2)]
  have c: "cancelled_at ?v = cancelled_at w" "wstore ?v = wstore w"
    by (simp_all add: after_read_def set_read_deadline_def SetReadDeadline_def)
  show ?thesis
  proof (cases e)
    case None
    have "(\<exists>b. wconn w4 = (wconn ?v)\<lparr>out := b\<rparr>) \<and> wstore w4 = wstore w3 \<and> cancelled_at w4 = cancelled_at w3"
      using f(4) lf(1) by (auto simp: only_writes_def)
    moreover from this have "flushed w4" using f(2,3) by (simp add: flushed_def writable_def)
    ultimately show ?thesis using st None l(3) lf(2,3) c by auto
  next
    case Some
    then show ?thesis using st l(3) lf c by auto
  qed
qed

section \<open>A session\<close>

abbreviation quits :: "unicode_tables \<Rightarrow> bytes list \<Rightarrow> bool" where
  "quits U args \<equiv> ToUpper U (hd args) = ''QUIT''"

abbreviation redis_session_events :: "unicode_tables \<Rightarrow> bytes \<times> 64 word \<Rightarrow> bytes list list \<Rightarrow> Event list" where
  "redis_session_events U src cs \<equiv> concat (map (redis_command_events U src) (takeWhile (\<lambda>args. \<not> quits U args) cs))"

lemma redis_session_events:
  "session_events (\<lambda>_. redis_command_events U src) (\<lambda>_ _. ()) (quits U) () cs = redis_session_events U src cs"
  by (induction cs) (simp_all add: redis_command_events_def redis_silent_def Let_def)

text \<open>With nothing left to read the handler leaves without a further event.\<close>

lemma redis_step_drained:
  assumes "incoming (wconn w) = []"
  shows "\<exists>w'. redis_step U fp version src w = Return w' \<and> wstore w' = wstore w"
proof -
  have "readable (wconn w) = []" using assms by (simp add: readable_def)
  then obtain e c where "read_string LF w = (Inl e, w\<lparr>wconn := c\<rparr>)"
    by (cases "read_error (wconn w)") (auto simp: read_string_def ReadString_def)
  then show ?thesis by (simp add: redis_step_def ReadCommand_def readLine_def)
qed

interpretation redis_capture: capturing_loop "redis_step U fp v src" "redis_loop U fp v src" "\<lambda>w. length (incoming (wconn w))"
    "\<lambda>w. w" "\<lambda>_. ()" "\<lambda>w. FP_wf fp \<and> flushed w" resp_array resp_ok "quits U" "\<lambda>_. redis_command_events U src" "\<lambda>_ _. ()"
  for U fp v src
proof unfold_locales
  fix w :: redis_world and args rest
  assume a: "FP_wf fp \<and> flushed w" "\<not> ctx_Done w" "resp_ok args" "readable (wconn w) = resp_array args @ rest"
    "wr_open (consume (length (resp_array args)) (wconn w))"
  let ?C = "consume (length (resp_array args)) (wconn w)"
  have "wconn (after_read args w) = SetReadDeadline (clock ?C + 60 * second) ?C"
    by (simp add: after_read_def set_read_deadline_def now_def)
  then have "(wconn (after_read args w))\<lparr>out := b\<rparr> = renewed b ?C" for b
    by (simp add: renewed_def SetReadDeadline_def)
  then show "\<exists>w' t b. redis_step U fp v src w = (if quits U args then Return w' else Continue w')
      \<and> wstore w' = fold (Log t) (redis_command_events U src args) (wstore w)
      \<and> (\<not> quits U args \<longrightarrow> (FP_wf fp \<and> flushed w') \<and> () = () \<and> cancelled_at w' = cancelled_at w \<and> wconn w' = renewed b ?C)"
    using redis_step_logs [OF conjunct1 [OF a(1)] conjunct2 [OF a(1)] a(2,4,3,5), of U v src] a(1) by metis
next
  fix w :: redis_world
  show "incoming (wconn w) = [] \<Longrightarrow> \<exists>w'. redis_step U fp v src w = Return w' \<and> wstore w' = wstore w" by (rule redis_step_drained)
  show "FP_wf fp \<and> flushed w \<Longrightarrow> \<exists>w'. redis_loop U fp v src w = Some w' \<and> evolves w w'" using redis_loop_facts by blast
qed

lemma redis_Handler_session:
  assumes "FP_wf fp" "sends_in_time resp_array (cancelled_at w) cs (wconn w)" "list_all resp_ok cs"
  shows "\<exists>w' tes fs. redis_Handler U fp version w = Some w' \<and> map snd tes = redis_session_events U (peer w) cs
    \<and> (\<forall>(t, e) \<in> set (tes @ fs). loggable e) \<and> wstore w' = fold (\<lambda>(t, e). Log t e) (tes @ fs) (wstore w)
    \<and> (list_ex (quits U) cs \<or> map snd (incoming (wconn w)) = concat (map resp_array cs) \<longrightarrow> fs = [])"
proof -
  let ?w1 = "set_read_deadline 60 (w\<lparr>received := received w + 1, active := active w + 1, wbuf := [], werr := None\<rparr>)"
  have c: "wconn ?w1 = SetReadDeadline (now w + 60 * second) (wconn w)" by (simp add: set_read_deadline_def now_def)
  have "FP_wf fp \<and> flushed ?w1" using assms(1) by (simp add: flushed_def set_read_deadline_def)
  moreover have "sends_in_time resp_array (cancelled_at ?w1) cs (wconn ?w1)" using assms(2) unfolding c by simp
  ultimately obtain w' tes fs where l: "redis_loop U fp version (peer w) ?w1 = Some w'"
      "map snd tes = redis_session_events U (peer w) cs"
      "\<forall>(t, e) \<in> set fs. loggable e" "wstore w' = fold (\<lambda>(t, e). Log t e) (tes @ fs) (wstore ?w1)"
      "list_ex (quits U) cs \<or> map snd (incoming (wconn ?w1)) = concat (map resp_array cs) \<longrightarrow> fs = []"
    using redis_capture.run_captures [of fp ?w1 cs U version "peer w"] assms(3) unfolding redis_session_events by auto
  have "loggable e" if "(t, e) \<in> set tes" for t e
  proof -
    have "e \<in> set (map snd tes)" using that by force
    then show ?thesis unfolding l(2) by (auto dest: redis_command_events_loggable)
  qed
  then have "\<forall>(t, e) \<in> set (tes @ fs). loggable e" using l(3) by auto
  moreover have "redis_Handler U fp version w = Some (w'\<lparr>active := active w' - 1\<rparr>)"
    using l(1) by (simp add: redis_Handler_def Let_def)
  ultimately show ?thesis using l(2,4,5)
    by (intro exI [of _ "w'\<lparr>active := active w' - 1\<rparr>"] exI [of _ tes] exI [of _ fs]) simp
qed

end
