(* ===== verification/Evidence.thy ===== *)
theory Evidence
  imports Tacoma RedisSession
begin

text \<open>
  What the honeypot is for, end to end: the credentials a client puts on the wire are in the log file, as a
  reader of that file gets them. Each theorem joins a whole handler, from the bytes it reads to the calls of
  \<^verbatim>\<open>Log\<close>, with the store and with the decoder of theory \<open>LogReader\<close>.
\<close>

section \<open>From the calls of Log to the reader\<close>

lemma fold_Log: "fold (Log t) es s = fold (\<lambda>(t, e). Log t e) (map (Pair t) es) s"
  by (induction es arbitrary: s) simp_all

lemma captured_readable:
  assumes "store_ready s" "read_with decode_event (logf s) = Some old" "\<forall>e \<in> set es. loggable e"
    and "log_extends (fold (Log t) es s) s'"
  shows "\<exists>more. read_with decode_event (logf s') = Some (old @ map (recorded t) es @ more)"
proof -
  obtain fs where fs: "\<forall>(t, e) \<in> set fs. loggable e" "s' = fold (\<lambda>(t, e). Log t e) (map (Pair t) es @ fs) s"
    using assms(4) by (auto simp: log_extends_def fold_Log)
  have "\<forall>(t, e) \<in> set (map (Pair t) es @ fs). loggable e" using fs(1) assms(3) by auto
  from store_reader.log_all_refines [OF assms(1) this assms(2)]
  show ?thesis unfolding fs(2) by (auto simp: comp_def)
qed

lemma captured_one:
  assumes "store_ready s" "read_with decode_event (logf s) = Some old" "loggable e" "log_extends (Log t e s) s'"
  shows "\<exists>more. read_with decode_event (logf s') = Some (old @ recorded t e # more)"
  using captured_readable [OF assms(1,2), of "[e]" t s'] assms(3,4) by simp

text \<open>A field of printable characters that is not too long is logged as it was sent.\<close>

lemma sanitizeStr_printable:
  assumes "utf8_valid s" "length s \<le> 4096" "\<forall>r \<in> set (runes s). \<not> IsControl r"
  shows "sanitizeStr s = s"
proof -
  have "filter (\<lambda>r. \<not> IsControl r) (runes s) = runes s" using assms(3) by (simp add: filter_id_conv)
  then show ?thesis using assms(1,2) by (simp add: sanitizeStr_runes utf8_valid_def)
qed

lemma ctx_Done_deadline [simp]: "ctx_Done (set_read_deadline n w) = ctx_Done w"
  by (simp add: ctx_Done_def set_read_deadline_def SetReadDeadline_def now_def split: option.split)

lemma deadline_conn: "wconn (set_read_deadline n w) = SetReadDeadline (clock (wconn w) + n * second) (wconn w)"
  by (simp add: set_read_deadline_def now_def)

section \<open>The four database protocols\<close>

text \<open>C14. A MySQL login reaches the reader of the log: user, database and authentication hash.\<close>

theorem mysql_login_readable:
  assumes "mysql_supplied w"
    and "readable (wconn (set_read_deadline 30 w)) = packet_bytes (seq, login_payload caps reserved user auth db extra) @ rest"
    and "length (login_payload caps reserved user auth db extra) \<le> maxPacketSize"
    and "NUL \<notin> set user" "NUL \<notin> set db" "length auth < 256" "length reserved = 28"
    and "caps < 2 ^ 32" "caps AND capSecureConn \<noteq> 0" "caps AND capConnWithDB \<noteq> 0"
    and "wr_open (wconn w)" "store_ready (wstore w)" "read_with decode_event (logf (wstore w)) = Some old"
  shows "\<exists>w' t more. mysql_Handler version w = Some w' \<and> read_with decode_event (logf (wstore w'))
      = Some (old @ recorded t (mysql_event (peer w) user db (hex_encode auth) ''CONNECT'') # more)"
proof -
  obtain w' t where w': "mysql_Handler version w = Some w'"
      "log_extends (Log t (mysql_event (peer w) user db (hex_encode auth) ''CONNECT'') (wstore w)) (wstore w')"
    using mysql_login_captured [OF assms(1-11)] by blast
  show ?thesis using captured_one [OF assms(12,13) loggable_mysql_event w'(2)] w'(1) by blast
qed

text \<open>C15. A PostgreSQL login reaches the reader of the log, after any number of SSL requests: user, database and
  MD5 response, provided the connection still takes data when the startup message is in, that is, the client has not gone and
  the connection timeout is not over.\<close>

theorem pg_login_readable:
  assumes "readable (wconn (set_read_deadline 30 w)) = concat (replicate k ssl_bytes) @ startup_bytes pairs
        @ pg_bytes (CHR ''p'', hash @ [NUL]) @ rest"
    and "startup_ok pairs" "map_of (rev pairs) ''user'' = Some user" "map_of (rev pairs) ''database'' = Some db" "db \<noteq> []"
    and "NUL \<notin> set hash" "length hash < pg_maxMsgLen" "wr_open (consume (8 * k + length (startup_bytes pairs)) (wconn w))"
    and "PGSalt (entropy w) = Some (salt, e1)" "PGPID e1 = Some (pid, e2)" "RandUint32 e2 = Some (key, e3)"
    and "store_ready (wstore w)" "read_with decode_event (logf (wstore w)) = Some old"
  shows "\<exists>w' t more. pg_Handler order version w = Some w' \<and> read_with decode_event (logf (wstore w'))
      = Some (old @ recorded t (pg_event (peer w) user db hash ''CONNECT'') # more)"
proof -
  obtain w' t where w': "pg_Handler order version w = Some w'"
      "log_extends (Log t (pg_event (peer w) user db hash ''CONNECT'') (wstore w)) (wstore w')"
    using pg_login_captured [OF assms(1-11)] by blast
  show ?thesis using captured_one [OF assms(12,13) loggable_pg_event w'(2)] w'(1) by blast
qed


text \<open>A Redis client that authenticates first reaches the reader of the log: the password, whatever it does next.\<close>

theorem redis_login_readable:
  assumes "FP_wf fp" "\<not> ctx_Done w" "wr_open (consume (length (resp_array (name # password # others))) (wconn w))"
    and "readable (wconn (set_read_deadline 60 w)) = resp_array (name # password # others) @ rest"
    and "resp_ok (name # password # others)" "ToUpper U name = ''AUTH''"
    and "store_ready (wstore w)" "read_with decode_event (logf (wstore w)) = Some old"
  shows "\<exists>w' t more. redis_Handler U fp version w = Some w' \<and> read_with decode_event (logf (wstore w'))
      = Some (old @ recorded t (redis_event (peer w) [] password ''AUTH'') # more)"
proof -
  let ?a = "name # password # others"
  have "sends_in_time resp_array (cancelled_at w) [?a] (wconn w)"
    using assms(2-4) consume_deadline [of "length (resp_array ?a)" 60 w]
    by (simp add: Let_def set_read_deadline_def now_def ctx_Done_def split: option.splits)
  then obtain w' tes fs where h: "redis_Handler U fp version w = Some w'"
      "map snd tes = redis_session_events U (peer w) [?a]"
      "\<forall>(t, e) \<in> set (tes @ fs). loggable e" "wstore w' = fold (\<lambda>(t, e). Log t e) (tes @ fs) (wstore w)"
    using redis_Handler_session [OF assms(1), of w "[?a]" U version] assms(5) by auto
  have "map snd tes = [redis_event (peer w) [] password ''AUTH'']"
    using h(2) assms(6) by (simp add: redis_command_events_def Let_def)
  then obtain t where t: "tes = [(t, redis_event (peer w) [] password ''AUTH'')]" by auto
  have "read_with decode_event (logf (wstore w')) = Some (old @ map (\<lambda>(t, e). recorded t e) (tes @ fs))"
    using store_reader.log_all_refines [OF assms(7) h(3) assms(8)] h(4) by simp
  then show ?thesis using h(1) t by auto
qed










section \<open>CouchDB\<close>

text \<open>C18. A CouchDB login reaches the reader of the log: user name and password.\<close>

theorem couch_login_readable:
  assumes "Method r = ''POST''" "Path r = ''/_session''" "RequestURI r \<noteq> ''*''" "user \<noteq> [] \<or> pass \<noteq> []"
    and "(\<exists>body. Body r = Some body \<and> int (length body) \<le> mb \<and> utf8_valid user \<and> utf8_valid pass
          \<and> body = json_marshal (JObj [(''name'', JStr user), (''password'', JStr pass)]))
      \<or> (unmarshal_creds (fst (readLimitedBody mb r)) = None \<and> CHR '':'' \<notin> set user
          \<and> Authorization r = ''Basic '' @ b64_encode (user @ '':'' @ pass))"
    and "store_ready s" "read_with decode_event (logf s) = Some old"
  shows "\<exists>resp s'. mux_ServeHTTP (couch_mux fp version mb) t r s = Some (Served resp, s') \<and> Status resp = 200
    \<and> read_with decode_event (logf s') = Some (old @ [recorded t (session_event (RemoteAddr r) user pass)])"
proof -
  obtain resp where "mux_ServeHTTP (couch_mux fp version mb) t r s
      = Some (Served resp, Log t (session_event (RemoteAddr r) user pass) s)" "Status resp = 200"
    using couch_session_captured [OF assms(1-5)] by blast
  moreover have "loggable (session_event (RemoteAddr r) user pass)" by (simp add: loggable_def session_event_def)
  ultimately show ?thesis using store_reader.log_refines [OF assms(6) _ assms(7)] by blast
qed

section \<open>Samples\<close>

theorem mysql_login_readable_witness:
  "\<exists>w' t more. mysql_Handler ''8.0.36'' (quiet_world (replicate 23 CHR 0x01)
        (packet_bytes (1, login_payload 0x8008 (replicate 28 NUL) ''root'' ''xyz'' ''shop'' []))) = Some w'
    \<and> read_with decode_event (logf (wstore w'))
      = Some (recorded t (mysql_event (''10.0.0.1'', 4000) ''root'' ''shop'' (hex_encode ''xyz'') ''CONNECT'') # more)"
proof -
  let ?p = "login_payload 0x8008 (replicate 28 NUL) ''root'' ''xyz'' ''shop'' []"
  let ?w = "quiet_world (replicate 23 CHR 0x01) (packet_bytes (1, ?p))"
  have s: "mysql_supplied ?w" using mysql_supplied_ones [of 20] by simp
  have r: "readable (wconn (set_read_deadline 30 ?w)) = packet_bytes (1, ?p) @ []" by simp
  have l: "length ?p \<le> maxPacketSize" by (simp add: login_payload_def maxPacketSize_def)
  have f: "(0x8008 :: nat) AND capSecureConn \<noteq> 0" "(0x8008 :: nat) AND capConnWithDB \<noteq> 0"
    by (simp_all add: capSecureConn_def capConnWithDB_def)
  have c: "wr_open (wconn ?w)" "store_ready (wstore ?w)" "read_with decode_event (logf (wstore ?w)) = Some []"
    by (simp, simp_all add: quiet_world_def store_ready_def read_with_def)
  have p: "peer ?w = (''10.0.0.1'', 4000)" by simp
  show ?thesis
    using mysql_login_readable [OF s r l _ _ _ _ _ f c, of "''8.0.36''"] unfolding p by simp
qed

theorem pg_login_readable_witness:
  "\<exists>w' t more. serve_conn (30 * int second) (pg_Handler id ''14.9'') (quiet_world (replicate 10 NUL)
        (ssl_bytes @ startup_bytes [(''user'', ''bob''), (''database'', ''shop'')]
          @ pg_bytes (CHR ''p'', ''md5abc'' @ [NUL]))) = Some w'
    \<and> read_with decode_event (logf (wstore w'))
      = Some (recorded t (pg_event (''10.0.0.1'', 4000) ''bob'' ''shop'' ''md5abc'' ''CONNECT'') # more)"
proof -
  let ?p = "[(''user'', ''bob''), (''database'', ''shop'')]"
  let ?w = "with_deadline (30 * int second) (quiet_world (replicate 10 NUL)
      (ssl_bytes @ startup_bytes ?p @ pg_bytes (CHR ''p'', ''md5abc'' @ [NUL])))"
  obtain key where k: "RandUint32 (replicate 4 NUL) = Some (key, [])" using pg_draws_zeros(3) by blast
  have r: "readable (wconn (set_read_deadline 30 ?w)) = concat (replicate 1 ssl_bytes) @ startup_bytes ?p
      @ pg_bytes (CHR ''p'', ''md5abc'' @ [NUL]) @ []" by simp
  have ok: "startup_ok ?p"
    by (simp add: startup_ok_def pair_ok_def startup_bytes_def pair_bytes_def maxStartupLen_def Let_def)
  have m: "map_of (rev ?p) ''user'' = Some ''bob''" "map_of (rev ?p) ''database'' = Some ''shop''" "''shop'' \<noteq> []"
      "NUL \<notin> set ''md5abc''" "length ''md5abc'' < pg_maxMsgLen" by (simp_all add: pg_maxMsgLen_def)
  have o: "wr_open (consume (8 * 1 + length (startup_bytes ?p)) (wconn ?w))" by (simp add: second_def)
  have c: "PGSalt (entropy ?w) = Some (replicate 4 NUL, replicate 6 NUL)" "store_ready (wstore ?w)"
      "read_with decode_event (logf (wstore ?w)) = Some []"
    using pg_draws_zeros(1) by (simp_all add: quiet_world_def store_ready_def read_with_def)
  have p: "peer ?w = (''10.0.0.1'', 4000)" by simp
  from pg_login_readable [OF r ok m o c(1) pg_draws_zeros(2) k c(2,3), of id "''14.9''"] show ?thesis unfolding p serve_conn_def by simp
qed


theorem redis_login_readable_witness:
  "\<exists>fp w' t more. redis_Handler \<lparr>upper_tab = id, lower_tab = id\<rparr> fp ''7.2.4'' (quiet_redis (resp_array [''auth'', ''secret''])) = Some w'
    \<and> read_with decode_event (logf (wstore w')) = Some (recorded t (redis_event (''10.0.0.1'', 4000) [] ''secret'' ''AUTH'') # more)"
proof -
  let ?w = "quiet_redis (resp_array [''auth'', ''secret''])" and ?U = "\<lparr>upper_tab = id, lower_tab = id\<rparr>"
  obtain fp where fp: "FP_wf fp" using FP_wf_exists by blast
  have c: "\<not> ctx_Done ?w" "wr_open (consume (length (resp_array (''auth'' # ''secret'' # []))) (wconn ?w))"
    by (simp add: ctx_Done_def quiet_world_def) simp
  have s: "store_ready (wstore ?w)" "read_with decode_event (logf (wstore ?w)) = Some []"
    by (simp_all add: quiet_world_def store_ready_def read_with_def)
  have "wconn (set_read_deadline 60 ?w) = wconn (set_read_deadline 60 (quiet_world [] (resp_array [''auth'', ''secret''])))"
    by (simp add: deadline_conn)
  then have r: "readable (wconn (set_read_deadline 60 ?w)) = resp_array [''auth'', ''secret''] @ []" by simp
  have k: "resp_ok [''auth'', ''secret'']" by (simp add: resp_ok_def maxArgs_def maxBulkLen_def)
  have u: "ToUpper ?U ''auth'' = ''AUTH''" by code_simp
  have p: "peer ?w = (''10.0.0.1'', 4000)" by simp
  from redis_login_readable [OF fp c r k u s, of "''7.2.4''"] show ?thesis unfolding p append_Nil by blast
qed

theorem couch_login_readable_witness:
  "\<exists>fp resp s' t. mux_ServeHTTP (couch_mux fp ''3.3.3'' 100) t ((sample_request ''POST'' ''/_session'')\<lparr>Authorization :=
        ''Basic '' @ b64_encode ''admin:secret''\<rparr>) sample_store = Some (Served resp, s')
    \<and> read_with decode_event (logf s') = Some [recorded t (session_event ''10.0.0.1:4000'' ''admin'' ''secret'')]"
proof -
  let ?r = "(sample_request ''POST'' ''/_session'')\<lparr>Authorization := ''Basic '' @ b64_encode ''admin:secret''\<rparr>"
  have "json_value maxNestingDepth [] = None" by (subst json_value.simps) (simp add: skip_ws_def)
  then have "unmarshal_creds [] = None" by (simp add: unmarshal_creds_def json_parse_def)
  then have b: "unmarshal_creds (fst (readLimitedBody 100 ?r)) = None" by (simp add: readLimitedBody_def sample_request_def)
  have s: "store_ready sample_store" "read_with decode_event (logf sample_store) = Some []"
    by (simp_all add: sample_store_def store_ready_def read_with_def)
  have "\<exists>resp s'. mux_ServeHTTP (couch_mux fp ''3.3.3'' 100) 0 ?r sample_store = Some (Served resp, s') \<and> Status resp = 200
    \<and> read_with decode_event (logf s') = Some ([] @ [recorded 0 (session_event (RemoteAddr ?r) ''admin'' ''secret'')])" for fp
    by (rule couch_login_readable [OF _ _ _ _ _ s]) (use b in \<open>simp_all add: sample_request_def del: b64_encode.simps\<close>)
  moreover have "RemoteAddr ?r = ''10.0.0.1:4000''" by (simp add: sample_request_def)
  ultimately show ?thesis by (metis append_Nil)
qed


end
