(* ===== verification/Lifecycle.thy ===== *)
theory Lifecycle
  imports Tacoma
begin

text \<open>
  \<^verbatim>\<open>cmd/tacoma/main.go\<close> from the moment its listeners are prepared until the process is gone, with
  everything that runs concurrently.

  \<open>program\<close> holds the main goroutine's position, the services it has not yet started and those it has,
  each with its own state (a TCP service carries the \<^verbatim>\<open>sys\<close> of theory \<open>Server\<close>), the connections of
  the two HTTP servers with the request each is serving, the signal goroutine, the shared store, the wait
  group of \<^verbatim>\<open>main\<close> and the lines printed. Each rule of \<open>prog_act\<close> is one atomic action of one of them, so
  every interleaving is a path of \<open>prog_step\<close>; a step of a TCP server is a step of \<open>server_step\<close>. \<open>captured\<close>
  is a ghost: the events that database sessions have logged; that calls of \<^verbatim>\<open>Log\<close> with events that can be read
  back are all a session does to the store is what the theorems about the handlers show (\<open>evolves\<close>). \<^verbatim>\<open>net/http\<close> enters as documented: a server
  returns from \<^verbatim>\<open>ListenAndServe\<close> as soon as \<^verbatim>\<open>Shutdown\<close> is called, while requests may still be served.
  The errors of \<^verbatim>\<open>net.Listen\<close> are arguments of the rules. Whether a connection goroutine can block for good in
  its handler is not left open: \<open>tcp_runs\<close> allows it only where some client can make that handler hang
  (\<^const>\<open>can_hang\<close>).
\<close>

section \<open>State\<close>

datatype service_state =
    Spawned
  | Serving sys
  | HttpServing
  | Leaving "bytes option"
  | Gone "bytes option"

datatype os_signal = SIGINT | SIGTERM

fun signal_name :: "os_signal \<Rightarrow> bytes" where
  "signal_name SIGINT = ''interrupt''"
| "signal_name SIGTERM = ''terminated''"

datatype signal_goroutine = AwaitSignal | GotSignal | SignalDone

datatype main_position = StartingServices | WaitingServices | AllStopped | Cancelled | StoreClosed | Exited | Panicked

text \<open>\<^verbatim>\<open>main\<close> goes through its positions in this order.\<close>

fun position_rank :: "main_position \<Rightarrow> nat" where
  "position_rank StartingServices = 0" | "position_rank WaitingServices = 1" | "position_rank AllStopped = 2"
| "position_rank Cancelled = 3" | "position_rank StoreClosed = 4" | "position_rank Exited = 5" | "position_rank Panicked = 6"

instantiation main_position :: linorder
begin

definition less_eq_main_position :: "main_position \<Rightarrow> main_position \<Rightarrow> bool" where
  "less_eq_main_position a b \<longleftrightarrow> position_rank a \<le> position_rank b"

definition less_main_position :: "main_position \<Rightarrow> main_position \<Rightarrow> bool" where
  "less_main_position a b \<longleftrightarrow> position_rank a < position_rank b"

instance
proof
  fix a b :: main_position
  show "a \<le> b \<Longrightarrow> b \<le> a \<Longrightarrow> a = b" by (cases a; cases b) (simp_all add: less_eq_main_position_def)
qed (auto simp: less_eq_main_position_def less_main_position_def)

end

record program =
  fingerprint :: FP
  unstarted :: "listener list"
  services :: "(listener \<times> service_state) list"
  http_conns :: "(listener \<times> (nat \<times> Request) option) list"
  main_wg :: nat
  main_at :: main_position
  sigCh :: "os_signal option"
  sig_at :: signal_goroutine
  cancelled :: bool
  pstore :: Store
  printed :: "bytes list"
  captured :: "(nat \<times> Event) list"

definition program_init :: "Store \<Rightarrow> FP \<Rightarrow> listener list \<Rightarrow> bytes list \<Rightarrow> program" where
  "program_init store fp ls lines =
    \<lparr>fingerprint = fp, unstarted = ls, services = [], http_conns = [], main_wg = 0, main_at = StartingServices,
     sigCh = None, sig_at = AwaitSignal, cancelled = False, pstore = store, printed = lines, captured = []\<rparr>"

fun http_service :: "FP \<Rightarrow> listener \<Rightarrow> (bytes \<times> mux) option" where
  "http_service fp (ElasticsearchListener addr cfg mb) = Some (addr, es_mux fp cfg mb)"
| "http_service fp (CouchDBListener addr v mb) = Some (addr, couch_mux fp v mb)"
| "http_service fp _ = None"

text \<open>\<^verbatim>\<open>ServeElasticsearch\<close> and \<^verbatim>\<open>ServeCouchDB\<close>, by what \<^verbatim>\<open>ListenAndServe\<close> returns in the end.\<close>

fun serve_http :: "FP \<Rightarrow> listener \<Rightarrow> goerr \<Rightarrow> (goerr option \<times> bytes list) option" where
  "serve_http fp (ElasticsearchListener addr cfg mb) returned = Some (ServeElasticsearch (\<lambda>_. returned) addr fp cfg mb)"
| "serve_http fp (CouchDBListener addr v mb) returned = Some (ServeCouchDB (\<lambda>_. returned) addr fp v mb)"
| "serve_http fp _ returned = None"

fun service_name :: "listener \<Rightarrow> bytes" where
  "service_name (RedisListener addr sv v) = ''redis''"
| "service_name (MySQLListener addr sv v) = ''mysql''"
| "service_name (PostgresListener addr sv v) = ''postgres''"
| "service_name (MongoDBListener addr sv v) = ''mongodb''"
| "service_name (ElasticsearchListener addr cfg mb) = ''elasticsearch''"
| "service_name (CouchDBListener addr v mb) = ''couchdb''"

definition say :: "bytes \<Rightarrow> program \<Rightarrow> program" where
  "say line p = p\<lparr>printed := printed p @ [line]\<rparr>"

definition set_service :: "nat \<Rightarrow> service_state \<Rightarrow> program \<Rightarrow> program" where
  "set_service i st p = p\<lparr>services := (services p)[i := (fst (services p ! i), st)]\<rparr>"

definition is_service :: "program \<Rightarrow> nat \<Rightarrow> listener \<Rightarrow> service_state \<Rightarrow> bool" where
  "is_service p i l st \<longleftrightarrow> i < length (services p) \<and> services p ! i = (l, st)"

definition is_conn :: "program \<Rightarrow> nat \<Rightarrow> listener \<Rightarrow> (nat \<times> Request) option \<Rightarrow> bool" where
  "is_conn p j l r \<longleftrightarrow> j < length (http_conns p) \<and> http_conns p ! j = (l, r)"

text \<open>The context is one object: cancelling it is seen by every service.\<close>

fun cancel_service :: "service_state \<Rightarrow> service_state" where
  "cancel_service (Serving s) = Serving (s\<lparr>ctx_done := True\<rparr>)"
| "cancel_service st = st"

definition cancel_ctx :: "program \<Rightarrow> program" where
  "cancel_ctx p = p\<lparr>cancelled := True, services := map (apsnd cancel_service) (services p)\<rparr>"

text \<open>What a service that fails prints.\<close>

definition service_error :: "listener \<Rightarrow> bytes \<Rightarrow> bytes" where
  "service_error l e = service_name l @ '': '' @ e"

section \<open>Steps\<close>

inductive prog_act :: "program \<Rightarrow> program \<Rightarrow> bool" where
  start: "main_at p = StartingServices \<Longrightarrow> unstarted p = l # ls \<Longrightarrow>
    prog_act p (p\<lparr>unstarted := ls, services := services p @ [(l, Spawned)], main_wg := main_wg p + 1\<rparr>)"
| started: "main_at p = StartingServices \<Longrightarrow> unstarted p = [] \<Longrightarrow> running_line (fingerprint p) = Some line \<Longrightarrow>
    prog_act p (say line (p\<lparr>main_at := WaitingServices\<rparr>))"
| start_panic: "main_at p = StartingServices \<Longrightarrow> unstarted p = [] \<Longrightarrow> running_line (fingerprint p) = None \<Longrightarrow>
    prog_act p (p\<lparr>main_at := Panicked\<rparr>)"
| tcp_listen: "is_service p i l Spawned \<Longrightarrow> tcp_service l = Some (addr, sv) \<Longrightarrow> Serve_start addr sv None = Inr s \<Longrightarrow>
    prog_act p (say (''server: listening on '' @ addr @ '' (max='' @ dec_int (maxConns sv) @ '')'')
      (set_service i (Serving (s\<lparr>ctx_done := cancelled p\<rparr>)) p))"
| tcp_fails: "is_service p i l Spawned \<Longrightarrow> tcp_service l = Some (addr, sv) \<Longrightarrow> Serve_start addr sv (Some e) = Inl (ErrorS msg) \<Longrightarrow>
    prog_act p (say (service_error l msg) (set_service i (Leaving (Some msg)) p))"
| tcp_runs: "is_service p i l (Serving s) \<Longrightarrow> server_acts s s' \<Longrightarrow> ctx_done s' = ctx_done s \<Longrightarrow>
    blocked s' = blocked s \<or> can_hang (fingerprint p) l \<Longrightarrow>
    prog_act p (set_service i (Serving s') p)"
| tcp_logs: "is_service p i l (Serving s) \<Longrightarrow> 0 < handlers s \<Longrightarrow> loggable e \<Longrightarrow>
    prog_act p (p\<lparr>pstore := Log t e (pstore p), captured := captured p @ [(t, e)]\<rparr>)"
| tcp_returns: "is_service p i l (Serving s) \<Longrightarrow> acc s = Returned \<Longrightarrow> prog_act p (set_service i (Leaving None) p)"
| http_listen: "is_service p i l Spawned \<Longrightarrow> serve_http (fingerprint p) l returned = Some (r, [line]) \<Longrightarrow>
    prog_act p (say line (set_service i HttpServing p))"
| http_fails: "is_service p i l HttpServing \<Longrightarrow> serve_http (fingerprint p) l (ErrorS e) = Some (Some (ErrorS e), [line]) \<Longrightarrow>
    prog_act p (say (service_error l e) (set_service i (Leaving (Some e)) p))"
| http_closes: "is_service p i l HttpServing \<Longrightarrow> cancelled p \<Longrightarrow> serve_http (fingerprint p) l ErrServerClosed = Some (None, [line]) \<Longrightarrow>
    prog_act p (set_service i (Leaving None) p)"
| http_connect: "is_service p i l HttpServing \<Longrightarrow> prog_act p (p\<lparr>http_conns := http_conns p @ [(l, None)]\<rparr>)"
| http_request: "is_conn p j l None \<Longrightarrow> prog_act p (p\<lparr>http_conns := (http_conns p)[j := (l, Some (t, r))]\<rparr>)"
| http_served: "is_conn p j l (Some (t, r)) \<Longrightarrow> http_service (fingerprint p) l = Some (addr, m) \<Longrightarrow>
    mux_ServeHTTP m t r (pstore p) = Some (outcome, st) \<Longrightarrow>
    prog_act p (p\<lparr>pstore := st, http_conns := (http_conns p)[j := (l, None)]\<rparr>)"
| http_hangup: "is_conn p j l None \<Longrightarrow> prog_act p (p\<lparr>http_conns := take j (http_conns p) @ drop (j + 1) (http_conns p)\<rparr>)"
| service_done: "is_service p i l (Leaving why) \<Longrightarrow>
    prog_act p (set_service i (Gone why) (p\<lparr>main_wg := main_wg p - 1\<rparr>))"
| signal: "prog_act p (p\<lparr>sigCh := (case sigCh p of None \<Rightarrow> Some sig | Some first \<Rightarrow> Some first)\<rparr>)"
| signal_taken: "sig_at p = AwaitSignal \<Longrightarrow> sigCh p = Some sig \<Longrightarrow>
    prog_act p (say (''main: received '' @ signal_name sig @ '', shutting down'') (p\<lparr>sigCh := None, sig_at := GotSignal\<rparr>))"
| signal_cancels: "sig_at p = GotSignal \<Longrightarrow> prog_act p (cancel_ctx (p\<lparr>sig_at := SignalDone\<rparr>))"
| wait_over: "main_at p = WaitingServices \<Longrightarrow> main_wg p = 0 \<Longrightarrow>
    prog_act p (say ''main: all services stopped'' (p\<lparr>main_at := AllStopped\<rparr>))"
| deferred_cancel: "main_at p = AllStopped \<Longrightarrow> prog_act p (cancel_ctx (p\<lparr>main_at := Cancelled\<rparr>))"
| deferred_close: "main_at p = Cancelled \<Longrightarrow> prog_act p (p\<lparr>pstore := snd (Close (pstore p)), main_at := StoreClosed\<rparr>)"
| main_returns: "main_at p = StoreClosed \<Longrightarrow> prog_act p (p\<lparr>main_at := Exited\<rparr>)"

text \<open>When \<^verbatim>\<open>main\<close> returns or panics the process is gone, with every goroutine in it.\<close>

definition prog_step :: "program \<Rightarrow> program \<Rightarrow> bool" where
  "prog_step p p' \<longleftrightarrow> main_at p \<noteq> Exited \<and> main_at p \<noteq> Panicked \<and> prog_act p p'"

inductive prog_reachable :: "startup \<Rightarrow> program \<Rightarrow> bool" for launch where
  init: "launch = Running store fp ls lines \<Longrightarrow> prog_reachable launch (program_init store fp ls lines)"
| step: "prog_reachable launch p \<Longrightarrow> prog_step p p' \<Longrightarrow> prog_reachable launch p'"

section \<open>The invariant\<close>

lemma http_listener:
  assumes "tcp_service l = None"
  obtains addr m line where "http_service fp l = Some (addr, m)" "serve_http fp l ErrServerClosed = Some (None, [line])"
  using assms by (cases l) (auto simp: ServeElasticsearch_def ServeCouchDB_def)

lemma http_service_not_tcp: "http_service fp l = Some x \<Longrightarrow> tcp_service l = None" "serve_http fp l e = Some y \<Longrightarrow> tcp_service l = None"
  by (cases l; simp)+

definition gone :: "service_state \<Rightarrow> bool" where
  "gone st \<longleftrightarrow> (case st of Gone _ \<Rightarrow> True | _ \<Rightarrow> False)"

text \<open>What holds of one service: a TCP service is in a state its server can reach, having been built by
  \<open>Server_New\<close>, and sees the context; one that has ended without an error ended because of a signal.\<close>

fun service_right :: "bool \<Rightarrow> bool \<Rightarrow> listener \<times> service_state \<Rightarrow> bool" where
  "service_right ctx sg (l, Spawned) = True"
| "service_right ctx sg (l, Serving s) =
    ((\<exists>addr maxc t. tcp_service l = Some (addr, Server_New maxc t) \<and> server_reachable maxc t s)
     \<and> ctx_done s = ctx \<and> \<not> done_closed (srv s))"
| "service_right ctx sg (l, HttpServing) = (tcp_service l = None)"
| "service_right ctx sg (l, Leaving why) = (why = None \<longrightarrow> sg)"
| "service_right ctx sg (l, Gone why) = (why = None \<longrightarrow> sg)"

abbreviation service_ok :: "program \<Rightarrow> listener \<times> service_state \<Rightarrow> bool" where
  "service_ok p \<equiv> service_right (cancelled p) (sig_at p = SignalDone)"

definition built_listener :: "listener \<Rightarrow> bool" where
  "built_listener l \<longleftrightarrow> (\<forall>addr sv. tcp_service l = Some (addr, sv) \<longrightarrow> (\<exists>maxc t. sv = Server_New maxc t))"

definition prog_inv :: "program \<Rightarrow> bool" where
  "prog_inv p \<longleftrightarrow>
     list_all (service_ok p) (services p)
     \<and> list_all built_listener (map fst (services p) @ unstarted p)
     \<and> cnt (\<lambda>x. \<not> gone (snd x)) (services p) = main_wg p
     \<and> (main_at p \<noteq> StartingServices \<longrightarrow> unstarted p = [])
     \<and> (main_at p \<in> {AllStopped, Cancelled, StoreClosed, Exited} \<longrightarrow> main_wg p = 0)
     \<and> (cancelled p \<longrightarrow> sig_at p = SignalDone \<or> main_at p \<in> {Cancelled, StoreClosed, Exited})
     \<and> (sig_at p = SignalDone \<longrightarrow> cancelled p)
     \<and> FP_wf (fingerprint p) \<and> main_at p \<noteq> Panicked"

lemma set_service_simps [simp]:
  "unstarted (set_service i st p) = unstarted p" "http_conns (set_service i st p) = http_conns p"
  "main_wg (set_service i st p) = main_wg p" "main_at (set_service i st p) = main_at p"
  "sigCh (set_service i st p) = sigCh p" "sig_at (set_service i st p) = sig_at p" "cancelled (set_service i st p) = cancelled p"
  "pstore (set_service i st p) = pstore p" "printed (set_service i st p) = printed p" "captured (set_service i st p) = captured p"
  "fingerprint (set_service i st p) = fingerprint p"
  "services (set_service i st p) = (services p)[i := (fst (services p ! i), st)]"
  by (simp_all add: set_service_def)

lemma say_simps [simp]:
  "unstarted (say l p) = unstarted p" "services (say l p) = services p" "http_conns (say l p) = http_conns p"
  "main_wg (say l p) = main_wg p" "main_at (say l p) = main_at p" "sigCh (say l p) = sigCh p" "sig_at (say l p) = sig_at p"
  "cancelled (say l p) = cancelled p" "pstore (say l p) = pstore p" "captured (say l p) = captured p"
  "printed (say l p) = printed p @ [l]" "fingerprint (say l p) = fingerprint p"
  by (simp_all add: say_def)

lemma cancel_ctx_simps [simp]:
  "unstarted (cancel_ctx p) = unstarted p" "http_conns (cancel_ctx p) = http_conns p" "main_wg (cancel_ctx p) = main_wg p"
  "main_at (cancel_ctx p) = main_at p" "sigCh (cancel_ctx p) = sigCh p" "sig_at (cancel_ctx p) = sig_at p"
  "cancelled (cancel_ctx p)" "pstore (cancel_ctx p) = pstore p" "captured (cancel_ctx p) = captured p"
  "printed (cancel_ctx p) = printed p" "fingerprint (cancel_ctx p) = fingerprint p"
  "services (cancel_ctx p) = map (apsnd cancel_service) (services p)"
  by (simp_all add: cancel_ctx_def)

lemma gone_cancel [simp]: "gone (cancel_service st) = gone st"
  by (cases st) (simp_all add: gone_def)

lemma gone_simps [simp]: "gone (Gone w)" "\<not> gone Spawned" "\<not> gone (Serving s)" "\<not> gone HttpServing" "\<not> gone (Leaving w)"
  by (simp_all add: gone_def)

lemma cnt_map: "cnt P (map f xs) = cnt (\<lambda>x. P (f x)) xs"
  by (induction xs) simp_all

lemma cnt_same: "i < length xs \<Longrightarrow> P (xs ! i) = P y \<Longrightarrow> cnt P (xs[i := y]) = cnt P xs"
  using cnt_update [of i xs P y] by (auto split: if_splits)

lemma map_fst_update: "i < length xs \<Longrightarrow> map fst (xs[i := (fst (xs ! i), y)]) = map fst xs"
  by (induction xs arbitrary: i) (auto split: nat.split simp: nth_Cons)

lemma list_all_update: "list_all P xs \<Longrightarrow> P y \<Longrightarrow> list_all P (xs[i := y])"
  by (auto simp: list_all_iff dest: set_update_subset_insert [THEN subsetD])

text \<open>A step that only moves one service keeps the invariant if it keeps that service right.\<close>

lemma prog_inv_set_service:
  assumes "prog_inv p" "is_service p i l st" "gone st = gone st'" "service_ok p (l, st')"
  shows "prog_inv (set_service i st' p)"
proof -
  have i: "i < length (services p)" "services p ! i = (l, st)" using assms(2) by (simp_all add: is_service_def)
  have "list_all (service_ok (set_service i st' p)) (services (set_service i st' p))"
    using assms(1,4) i by (simp add: prog_inv_def list_all_update)
  moreover have "cnt (\<lambda>x. \<not> gone (snd x)) (services (set_service i st' p)) = cnt (\<lambda>x. \<not> gone (snd x)) (services p)"
    using i assms(3) by (simp add: cnt_same)
  moreover have "map fst (services (set_service i st' p)) = map fst (services p)"
    using map_fst_update [OF i(1), of st'] by simp
  ultimately show ?thesis using assms(1) by (simp only: prog_inv_def set_service_simps) auto
qed

lemma prog_inv_frame [simp]:
  "prog_inv (say l p) = prog_inv p" "prog_inv (p\<lparr>http_conns := c\<rparr>) = prog_inv p" "prog_inv (p\<lparr>sigCh := g\<rparr>) = prog_inv p"
  "prog_inv (p\<lparr>pstore := st\<rparr>) = prog_inv p" "prog_inv (p\<lparr>captured := es\<rparr>) = prog_inv p"
  by (simp_all add: prog_inv_def)

lemma service_right_cancel:
  assumes "service_right ctx sg x"
  shows "service_right True sg (apsnd cancel_service x)"
proof -
  obtain l st where x: "x = (l, st)" by fastforce
  show ?thesis
  proof (cases st)
    case (Serving s)
    then obtain addr maxc t where "tcp_service l = Some (addr, Server_New maxc t)" "server_reachable maxc t s"
      using assms x by auto
    moreover have "server_reachable maxc t (s\<lparr>ctx_done := True\<rparr>)"
      using \<open>server_reachable maxc t s\<close> server_step.cancel by (rule server_reachable.step)
    ultimately show ?thesis using assms Serving x by auto
  qed (use assms x in simp_all)
qed

lemma service_right_signal: "service_right ctx sg x \<Longrightarrow> service_right ctx True x"
  by (cases "(ctx, sg, x)" rule: service_right.cases) auto

lemma services_right_cancel:
  "list_all (service_right ctx sg) xs \<Longrightarrow> list_all (service_right True sg) (map (apsnd cancel_service) xs)"
  by (auto simp: list_all_iff intro: service_right_cancel)

lemma services_ok_at: "prog_inv p \<Longrightarrow> is_service p i l st \<Longrightarrow> service_ok p (l, st)"
  by (auto simp: prog_inv_def is_service_def list_all_length)

text \<open>While a service is left, a cancelled context means that a signal was handled.\<close>

lemma service_alive:
  assumes "prog_inv p" "is_service p i l st" "\<not> gone st"
  shows "0 < main_wg p" "cancelled p \<Longrightarrow> sig_at p = SignalDone"
    "main_at p = StartingServices \<or> main_at p = WaitingServices"
proof -
  have "i < length (services p)" "services p ! i = (l, st)" using assms(2) by (simp_all add: is_service_def)
  then have "(l, st) \<in> set (services p)" by (metis nth_mem)
  then have "(l, st) \<in> set (filter (\<lambda>x. \<not> gone (snd x)) (services p))" using assms(3) by simp
  then have "filter (\<lambda>x. \<not> gone (snd x)) (services p) \<noteq> []" by (metis empty_iff empty_set)
  then have "0 < cnt (\<lambda>x. \<not> gone (snd x)) (services p)" by (simp add: cnt_def)
  then show w: "0 < main_wg p" using assms(1) by (simp add: prog_inv_def)
  show "cancelled p \<Longrightarrow> sig_at p = SignalDone" using w assms(1) by (auto simp: prog_inv_def)
  show "main_at p = StartingServices \<or> main_at p = WaitingServices"
    using w assms(1) by (cases "main_at p") (auto simp: prog_inv_def)
qed

lemma built_at: "prog_inv p \<Longrightarrow> is_service p i l st \<Longrightarrow> built_listener l"
proof -
  assume p: "prog_inv p" "is_service p i l st"
  then have "l \<in> set (map fst (services p))" by (force simp: is_service_def in_set_conv_nth)
  then show ?thesis using p(1) by (auto simp: prog_inv_def list_all_iff)
qed

lemma server_returned_done:
  assumes "server_reachable maxc t s" "acc s = Returned"
  shows "ctx_done s \<or> done_closed (srv s)"
proof -
  have "acc s \<in> {Draining, Returned} \<longrightarrow> ctx_done s \<or> done_closed (srv s)"
    using assms(1)
  proof (induction rule: server_reachable.induct)
    case init
    then show ?case by (simp add: sys_init_def serving_def)
  next
    case (step s s')
    show ?case using step(2,3) server_step_monotone [OF step(2)]
      by (induction rule: server_step.induct) auto
  qed
  then show ?thesis using assms(2) by simp
qed

lemma prog_inv_act:
  assumes "prog_act p p'" "prog_inv p"
  shows "prog_inv p'"
  using assms
proof (induction rule: prog_act.induct)
  case (start p l ls)
  then show ?case by (auto simp: prog_inv_def)
next
  case (started p line)
  then show ?case by (auto simp: prog_inv_def)
next
  case (start_panic p)
  then show ?case using running_line_wf [of "fingerprint p"] by (auto simp: prog_inv_def)
next
  case (tcp_listen p i l addr sv s)
  have b: "built_listener l" using built_at tcp_listen by blast
  then obtain maxc t where sv: "sv = Server_New maxc t" using tcp_listen by (auto simp: built_listener_def)
  have s: "s = sys_init maxc t" using tcp_listen.hyps(3) by (simp add: Serve_start_def sys_init_def sv)
  have "server_reachable maxc t (s\<lparr>ctx_done := cancelled p\<rparr>)"
  proof (cases "cancelled p")
    case True
    then show ?thesis using server_reachable.step [OF server_reachable.init server_step.cancel] s by simp
  next
    case False
    then have "s\<lparr>ctx_done := cancelled p\<rparr> = s" by (simp add: s sys_init_def serving_def)
    then show ?thesis using s server_reachable.init by metis
  qed
  then have "service_ok p (l, Serving (s\<lparr>ctx_done := cancelled p\<rparr>))"
    using tcp_listen.hyps(2) sv by (auto simp: s sys_init_def serving_def Server_New_def)
  then show ?case using prog_inv_set_service tcp_listen by simp
next
  case (tcp_fails p i l addr sv e msg)
  then show ?case using prog_inv_set_service by simp
next
  case (tcp_runs p i l s s')
  have s: "service_ok p (l, Serving s)" using services_ok_at tcp_runs by blast
  then obtain addr maxc t where "tcp_service l = Some (addr, Server_New maxc t)" "server_reachable maxc t s"
    by auto
  moreover have "server_reachable maxc t s'"
    using \<open>server_reachable maxc t s\<close> tcp_runs.hyps(2) by (auto simp: server_acts_def intro: server_reachable.step)
  ultimately have "service_ok p (l, Serving s')"
    using s tcp_runs.hyps(2,3) by (auto simp: server_acts_def)
  then show ?case using prog_inv_set_service [OF tcp_runs.prems tcp_runs.hyps(1)] by simp
next
  case (tcp_returns p i l s)
  have s: "service_ok p (l, Serving s)" using services_ok_at tcp_returns by blast
  then obtain maxc t where r: "server_reachable maxc t s" "ctx_done s = cancelled p" "\<not> done_closed (srv s)" by auto
  have "ctx_done s" using server_returned_done [OF r(1) tcp_returns.hyps(2)] r(3) by simp
  then have "sig_at p = SignalDone" using r(2) service_alive(2) [OF tcp_returns.prems tcp_returns.hyps(1)] by simp
  then show ?case using prog_inv_set_service [OF tcp_returns.prems tcp_returns.hyps(1)] by simp
next
  case (http_listen p i l returned r line)
  then have "tcp_service l = None" using http_service_not_tcp(2) by blast
  then show ?case using prog_inv_set_service http_listen by simp
next
  case (http_fails p i l e line)
  then show ?case using prog_inv_set_service by simp
next
  case (http_closes p i l line)
  have "sig_at p = SignalDone" using service_alive(2) [OF http_closes.prems http_closes.hyps(1)] http_closes.hyps(2) by simp
  then show ?case using prog_inv_set_service [OF http_closes.prems http_closes.hyps(1)] by simp
next
  case (service_done p i l why)
  let ?n = "cnt (\<lambda>x. \<not> gone (snd x))"
  have i: "i < length (services p)" "services p ! i = (l, Leaving why)" using service_done.hyps by (simp_all add: is_service_def)
  have n: "?n ((services p)[i := (l, Gone why)]) + 1 = ?n (services p)" using cnt_update [OF i(1), of "\<lambda>x. \<not> gone (snd x)" "(l, Gone why)"] i(2) by simp
  have "service_ok p (l, Leaving why)" using services_ok_at service_done by blast
  then have ok: "list_all (service_ok p) ((services p)[i := (l, Gone why)])"
    using service_done.prems by (simp add: prog_inv_def list_all_update)
  have "main_at p = StartingServices \<or> main_at p = WaitingServices"
    using service_alive(3) [OF service_done.prems service_done.hyps] by simp
  moreover have "map fst ((services p)[i := (l, Gone why)]) = map fst (services p)"
    using map_fst_update [OF i(1), of "Gone why"] i(2) by simp
  moreover have "?n ((services p)[i := (l, Gone why)]) = ?n (services p) - 1" using n by simp
  ultimately show ?case using service_done.prems i(2) ok by (elim disjE) (simp_all add: prog_inv_def)
next
  case (signal_taken p sig)
  then show ?case by (simp add: prog_inv_def)
next
  case (signal_cancels p)
  then have "list_all (service_right (cancelled p) True) (services p)"
    using service_right_signal by (auto simp: prog_inv_def list_all_iff)
  then show ?case using signal_cancels.prems services_right_cancel by (simp add: prog_inv_def cnt_map comp_def)
next
  case (wait_over p)
  then show ?case by (simp add: prog_inv_def)
next
  case (deferred_cancel p)
  then have "list_all (service_ok p) (services p)" by (simp add: prog_inv_def)
  from services_right_cancel [OF this] show ?case using deferred_cancel by (simp add: prog_inv_def cnt_map comp_def)
next
  case (deferred_close p)
  then show ?case by (simp add: prog_inv_def)
next
  case (main_returns p)
  then show ?case by (simp add: prog_inv_def)
qed simp_all

lemma program_init_inv:
  assumes "main_setup f open_log disk t0 t1 ent = Some (Running store fp ls lines)"
  shows "prog_inv (program_init store fp ls lines)" "file_open store" "store_ready store \<longleftrightarrow> disk = None"
proof -
  obtain cfg where l: "Load f = Inr cfg" using assms by (auto simp: main_setup_def split: sum.splits)
  have wf: "FP_wf fp" and ls: "ls = main_listeners cfg" and fo: "file_open store" "store_ready store \<longleftrightarrow> disk = None"
    using main_setup_cases [OF l, of open_log disk t0 t1 ent] assms by (fastforce simp: store_ready_def)+
  have "list_all built_listener ls" by (auto simp: ls main_listeners_def built_listener_def tcp_server_def)
  then show "prog_inv (program_init store fp ls lines)" using wf by (simp add: prog_inv_def program_init_def)
  show "file_open store" "store_ready store \<longleftrightarrow> disk = None" by (fact fo)+
qed

text \<open>What \<^verbatim>\<open>main\<close> hands over when start-up succeeds.\<close>

definition launch_ok :: "startup \<Rightarrow> bool" where
  "launch_ok launch \<longleftrightarrow> (case launch of Running store fp ls lines \<Rightarrow> FP_wf fp \<and> list_all built_listener ls | Fatal m \<Rightarrow> False)"

lemma main_launch_ok:
  assumes "main_setup f open_log disk t0 t1 ent = Some launch" "launch = Running store fp ls lines"
  shows "launch_ok launch"
  using program_init_inv(1) [OF assms(1) [unfolded assms(2)]] assms(2)
  by (simp add: launch_ok_def prog_inv_def program_init_def)

lemma prog_reachable_inv:
  assumes "prog_reachable launch p" "launch_ok launch"
  shows "prog_inv p"
  using assms
proof (induction rule: prog_reachable.induct)
  case (init store fp ls lines)
  then show ?case by (simp add: launch_ok_def prog_inv_def program_init_def)
next
  case (step p p')
  then show ?case using prog_inv_act by (auto simp: prog_step_def)
qed

lemma prog_reachable_running: "prog_reachable launch p \<Longrightarrow> \<exists>store fp ls lines. launch = Running store fp ls lines"
  by (induction rule: prog_reachable.induct) auto

lemma started_inv:
  assumes "main_setup f open_log disk t0 t1 ent = Some launch" "prog_reachable launch p"
  shows "prog_inv p"
  using assms prog_reachable_running main_launch_ok prog_reachable_inv by metis

lemma main_moves_on: "prog_act p p' \<Longrightarrow> main_at p \<le> main_at p'"
  by (induction rule: prog_act.induct) (simp_all add: less_eq_main_position_def)

section \<open>The log over the whole run\<close>

lemma http_service_extends:
  assumes "FP_wf fp" "http_service fp l = Some (addr, m)" "mux_ServeHTTP m t r s = Some (outcome, st)"
  shows "log_extends s st"
proof (cases l)
  case (ElasticsearchListener a cfg mb)
  then show ?thesis using es_mux_answers [of fp cfg mb t r s] assms by auto
next
  case (CouchDBListener a v mb)
  then show ?thesis using couch_mux_answers [OF assms(1), of v mb t r s] assms by auto
qed (use assms in auto)

lemma Log_frame: "file_open (Log t e s) = file_open s" "\<not> file_open s \<Longrightarrow> logf (Log t e s) = logf s"
  by (simp_all add: Log_def file_write_def Let_def split: option.split)

lemma log_extends_preserves:
  assumes "log_extends s s'" "\<And>t e u. P u \<Longrightarrow> P (Log t e u)" "P s"
  shows "P s'"
proof -
  have "P u \<Longrightarrow> P (fold (\<lambda>(t, e). Log t e) es u)" for es u
    using assms(2) by (induction es arbitrary: u) auto
  then show ?thesis using assms(1,3) by (auto simp: log_extends_def)
qed

lemma log_extends_file_open: "log_extends s s' \<Longrightarrow> file_open s' = file_open s"
  by (rule log_extends_preserves [where P = "\<lambda>u. file_open u = file_open s"]) (simp_all add: Log_frame)

lemma log_extends_closed: "log_extends s s' \<Longrightarrow> \<not> file_open s \<Longrightarrow> logf s' = logf s \<and> \<not> file_open s'"
  by (rule log_extends_preserves [where P = "\<lambda>u. logf u = logf s \<and> \<not> file_open u"]) (simp_all add: Log_frame)

text \<open>\<open>es\<close> are the events written to the file so far.\<close>

definition logged :: "Store \<Rightarrow> program \<Rightarrow> (nat \<times> Event) list \<Rightarrow> bool" where
  "logged store p es \<longleftrightarrow> (\<forall>(t, e) \<in> set es. loggable e) \<and> subseq (captured p) es
     \<and> (if main_at p \<in> {StoreClosed, Exited}
        then logf (pstore p) = logf (fold (\<lambda>(t, e). Log t e) es store) \<and> \<not> file_open (pstore p)
        else pstore p = fold (\<lambda>(t, e). Log t e) es store)"

lemma logged_step:
  assumes "prog_act p p'" "prog_inv p" "logged store p es" "file_open store"
  shows "\<exists>es'. logged store p' es'"
proof -
  have keep: "\<exists>es'. logged store q es'" if "pstore q = pstore p" "captured q = captured p"
      "main_at p \<in> {StoreClosed, Exited} \<longleftrightarrow> main_at q \<in> {StoreClosed, Exited}" for q
    using assms(3) that unfolding logged_def by auto
  show ?thesis
    using assms(1)
  proof cases
    case (tcp_logs i l s e t)
    have m: "main_at p \<notin> {StoreClosed, Exited}" using service_alive(3) [OF assms(2) tcp_logs(2)] by auto
    have "logged store p' (es @ [(t, e)])"
      using assms(3) m tcp_logs by (auto simp: logged_def intro: list_emb_append_mono)
    then show ?thesis ..
  next
    case (http_served j l t r addr m outcome st)
    have x: "log_extends (pstore p) st" using http_service_extends http_served(3,4) assms(2) by (auto simp: prog_inv_def)
    then obtain fs where fs: "\<forall>(t, e) \<in> set fs. loggable e" "st = fold (\<lambda>(t, e). Log t e) fs (pstore p)"
      by (auto simp: log_extends_def)
    show ?thesis
    proof (cases "main_at p \<in> {StoreClosed, Exited}")
      case True
      then have "logged store p' es" using assms(3) log_extends_closed [OF x] http_served(1) by (auto simp: logged_def)
      then show ?thesis ..
    next
      case False
      then have "logged store p' (es @ fs)"
        using assms(3) fs http_served(1) by (auto simp: logged_def intro: list_emb_append2 subseq_order.trans)
      then show ?thesis ..
    qed
  next
    case deferred_close
    have "file_open (pstore p)"
      using assms(3,4) deferred_close log_extends_file_open [of store "pstore p"] by (auto simp: logged_def log_extends_def)
    then have "logged store p' es" using assms(3) deferred_close by (auto simp: logged_def Close_def)
    then show ?thesis ..
  qed (auto intro!: keep simp: say_def)
qed

text \<open>C3. Nothing that a client of a database service gave away is lost in a shutdown: at every moment of
  every run, after the process has exited too, the log file reads back as what it held at the start followed
  by a list of events that has all events logged by database sessions so far, in order, sanitised and
  time-stamped. The store is not closed while a session can still log.\<close>

theorem program_keeps_captured_events:
  assumes "main_setup f open_log None t0 t1 ent = Some (Running store fp ls lines)"
    and "prog_reachable (Running store fp ls lines) p" "read_with decode_event (logf store) = Some old"
  shows "\<exists>es. read_with decode_event (logf (pstore p)) = Some (old @ map (\<lambda>(t, e). recorded t e) es) \<and> subseq (captured p) es"
proof -
  have "prog_inv p \<and> (\<exists>es. logged store p es)"
    using assms(2)
  proof (induction rule: prog_reachable.induct)
    case (init store' fp' ls' lines')
    then have "logged store (program_init store' fp' ls' lines') []" by (simp add: logged_def program_init_def)
    then show ?case using program_init_inv(1) [OF assms(1)] init by auto
  next
    case (step p p')
    then have "prog_act p p'" by (simp add: prog_step_def)
    then show ?case using step.IH logged_step [of p p' store] prog_inv_act program_init_inv(2) [OF assms(1)] by blast
  qed
  then obtain es where "logged store p es" by blast
  then have es: "\<forall>(t, e) \<in> set es. loggable e" "subseq (captured p) es"
      "logf (pstore p) = logf (fold (\<lambda>(t, e). Log t e) es store)"
    by (auto simp: logged_def split: if_splits)
  have "store_ready store" using program_init_inv(3) [OF assms(1)] by simp
  from store_reader.log_all_refines [OF this es(1) assms(3)] es(2,3) show ?thesis by auto
qed

section \<open>The end of the program\<close>

text \<open>C7. The process exits in order: only when every service has ended, which it does because a
  signal was handled or because it could not serve, with the log closed; and while any service is left,
  neither is the log closed nor the process gone.\<close>

theorem program_exits_in_order:
  assumes "main_setup f open_log disk t0 t1 ent = Some launch" "prog_reachable launch p"
  shows "main_at p \<noteq> Panicked
    \<and> (main_at p = Exited \<or> main_at p = StoreClosed \<longrightarrow> unstarted p = []
        \<and> (\<forall>(l, st) \<in> set (services p). \<exists>why. st = Gone why \<and> (why = None \<longrightarrow> sig_at p = SignalDone)))"
proof -
  have I: "prog_inv p" by (rule started_inv [OF assms(1,2)])
  have "\<exists>why. st = Gone why \<and> (why = None \<longrightarrow> sig_at p = SignalDone)"
    if m: "main_at p = Exited \<or> main_at p = StoreClosed" and x: "(l, st) \<in> set (services p)" for l st
  proof -
    obtain i where i: "is_service p i l st" using x by (auto simp: is_service_def in_set_conv_nth)
    then obtain why where "st = Gone why"
      using service_alive(3) [OF I i] m by (cases st) auto
    then show ?thesis using services_ok_at [OF I i] by simp
  qed
  moreover have "main_at p = Exited \<or> main_at p = StoreClosed \<longrightarrow> unstarted p = []" "main_at p \<noteq> Panicked"
    using I by (auto simp: prog_inv_def)
  ultimately show ?thesis by auto
qed

text \<open>In the running program each listener has what theory \<open>Server\<close> shows of it: the configured limits hold.\<close>

theorem program_within_limits:
  assumes "main_setup f open_log disk t0 t1 ent = Some launch" "prog_reachable launch p"
    and "is_service p i l (Serving s)" "tcp_service l = Some (addr, sv)"
  shows "int (handlers s) \<le> maxConns sv \<and> cnt (\<lambda>g. fst g = ip \<and> in_handler (snd g)) (gs s) \<le> 20"
proof -
  have I: "prog_inv p" by (rule started_inv [OF assms(1,2)])
  have "service_ok p (l, Serving s)" by (rule services_ok_at [OF I assms(3)])
  then obtain maxc t where "sv = Server_New maxc t" "server_reachable maxc t s" using assms(4) by auto
  then have "maxConns sv = maxConns (srv s)" "server_inv s"
    using server_reachable_maxConns [of maxc t s] server_reachable_inv by (simp_all add: Server_New_def)
  then show ?thesis using handlers_bounded(1) [of s] handlers_bounded(2) [of s ip] by simp
qed

fun service_left :: "service_state \<Rightarrow> nat" where
  "service_left Spawned = 6"
| "service_left (Serving s) = work_left s + 2"
| "service_left HttpServing = 2"
| "service_left (Leaving why) = 1"
| "service_left (Gone why) = 0"

fun main_left :: "main_position \<Rightarrow> nat" where
  "main_left StartingServices = 5" | "main_left WaitingServices = 4" | "main_left AllStopped = 3"
| "main_left Cancelled = 2" | "main_left StoreClosed = 1" | "main_left Exited = 0" | "main_left Panicked = 0"

fun signal_left :: "signal_goroutine \<Rightarrow> os_signal option \<Rightarrow> nat" where
  "signal_left AwaitSignal None = 3" | "signal_left AwaitSignal (Some sig) = 2"
| "signal_left GotSignal ch = 1" | "signal_left SignalDone ch = 0"

definition services_left :: "(listener \<times> service_state) list \<Rightarrow> nat" where
  "services_left xs = sum_list (map (\<lambda>x. service_left (snd x)) xs)"

definition prog_left :: "program \<Rightarrow> nat" where
  "prog_left p = 7 * length (unstarted p) + services_left (services p) + main_left (main_at p) + signal_left (sig_at p) (sigCh p)"

lemma services_left_update:
  "i < length xs \<Longrightarrow> services_left (xs[i := y]) + service_left (snd (xs ! i)) = services_left xs + service_left (snd y)"
proof (induction xs arbitrary: i)
  case (Cons x xs)
  then show ?case by (cases i) (auto simp: services_left_def)
qed simp

lemma services_left_cancel: "services_left (map (apsnd cancel_service) xs) \<le> services_left xs"
proof (induction xs)
  case (Cons x xs)
  have "service_left (cancel_service st) \<le> service_left st" for st by (cases st) (simp_all add: work_left_def)
  then show ?case using Cons by (auto simp: services_left_def intro: add_mono)
qed (simp add: services_left_def)

lemma set_service_left:
  assumes "is_service p i l st"
  shows "prog_left (set_service i st' p) + service_left st = prog_left p + service_left st'"
  using assms services_left_update [of i "services p" "(l, st')"]
  by (simp add: prog_left_def is_service_def)

lemma say_left [simp]: "prog_left (say line p) = prog_left p"
  by (simp add: prog_left_def)

text \<open>No connection goroutine is blocked in its handler.\<close>

fun service_unblocked :: "service_state \<Rightarrow> bool" where
  "service_unblocked (Serving s) = (blocked s = 0)"
| "service_unblocked st = True"

definition unblocked :: "program \<Rightarrow> bool" where
  "unblocked p \<longleftrightarrow> list_all (\<lambda>x. service_unblocked (snd x)) (services p)"

lemma unblocked_cong: "services q = services p \<Longrightarrow> unblocked q = unblocked p"
  by (simp add: unblocked_def)

lemma unblocked_set_service: "unblocked p \<Longrightarrow> service_unblocked st \<Longrightarrow> unblocked (set_service i st p)"
  by (simp add: unblocked_def list_all_update)

lemma unblocked_frame [simp]:
  "unblocked (say line p) = unblocked p" "unblocked (p\<lparr>main_wg := n\<rparr>) = unblocked p" "unblocked (p\<lparr>main_at := m\<rparr>) = unblocked p"
  "unblocked (p\<lparr>sigCh := ch\<rparr>) = unblocked p" "unblocked (p\<lparr>sig_at := g\<rparr>) = unblocked p" "unblocked (p\<lparr>pstore := st\<rparr>) = unblocked p"
  "unblocked (p\<lparr>printed := ls\<rparr>) = unblocked p" "unblocked (p\<lparr>captured := es\<rparr>) = unblocked p" "unblocked (p\<lparr>http_conns := c\<rparr>) = unblocked p"
  by (simp_all add: unblocked_def)

lemma unblocked_cancel [simp]: "unblocked (cancel_ctx p) = unblocked p"
proof -
  have "service_unblocked (cancel_service st) = service_unblocked st" for st by (cases st) simp_all
  then show ?thesis by (simp add: unblocked_def list.pred_map comp_def)
qed

lemma gs_serving [simp]: "gs (serving sv) = []"
  by (simp add: serving_def)

lemma unblocked_at: "unblocked p \<Longrightarrow> is_service p i l (Serving s) \<Longrightarrow> blocked s = 0"
  unfolding unblocked_def is_service_def list_all_length by force

text \<open>A goroutine that is blocked stays so: the server it belongs to does not return.\<close>

lemma blocked_step: "server_step s s' \<Longrightarrow> blocked s \<le> blocked s'"
proof (induction rule: server_step.induct)
  case (handler_blocks i s ip)
  then show ?case using cnt_update [of i "gs s" "\<lambda>g. snd g = Blocked" "(ip, Blocked)"] by simp
next
  case (handler_done i s ip)
  then show ?case using cnt_update [of i "gs s" "\<lambda>g. snd g = Blocked" "(ip, ConnClosed)"] by simp
next
  case (free_slot i s ip srv')
  then show ?case using cnt_update [of i "gs s" "\<lambda>g. snd g = Blocked" "(ip, SemFreed)"] by simp
next
  case (release i s ip)
  then show ?case using cnt_update [of i "gs s" "\<lambda>g. snd g = Blocked" "(ip, IPReleased)"] by simp
next
  case (wg_done i s ip)
  then show ?case using cnt_update [of i "gs s" "\<lambda>g. snd g = Blocked" "(ip, Finished)"] by simp
qed simp_all

lemma blocked_not_returned: "server_inv s \<Longrightarrow> 0 < blocked s \<Longrightarrow> acc s \<noteq> Returned"
proof -
  have "blocked s \<le> unfinished s" by (intro cnt_mono) simp
  then show "server_inv s \<Longrightarrow> 0 < blocked s \<Longrightarrow> acc s \<noteq> Returned" by (auto simp: server_inv_def)
qed

text \<open>From every state in which no goroutine is blocked some action brings the end closer, without serving any
  request and without blocking any.\<close>

definition clients_untouched :: "program \<Rightarrow> program \<Rightarrow> bool" where
  "clients_untouched p p' \<longleftrightarrow> http_conns p' = http_conns p \<and> logf (pstore p') = logf (pstore p) \<and> (unblocked p \<longrightarrow> unblocked p')"

lemma untouched [simp]:
  "service_unblocked st \<Longrightarrow> clients_untouched p (set_service i st p)"
  "clients_untouched p (say line q) = clients_untouched p q" "clients_untouched p (p\<lparr>main_wg := n\<rparr>)"
  "service_unblocked st \<Longrightarrow> clients_untouched p q \<Longrightarrow> clients_untouched p (set_service i st q)"
  using unblocked_set_service by (auto simp: clients_untouched_def)

lemma service_progress:
  assumes "prog_inv p" "is_service p i l st" "\<not> gone st" "cancelled p" "unblocked p"
  shows "\<exists>p'. prog_act p p' \<and> prog_left p' < prog_left p \<and> clients_untouched p p'"
proof (cases st)
  case Spawned
  show ?thesis
  proof (cases "tcp_service l")
    case (Some a)
    obtain addr sv where a: "tcp_service l = Some (addr, sv)" using Some by (cases a) auto
    have "prog_left (set_service i (Serving ((serving sv)\<lparr>ctx_done := cancelled p\<rparr>)) p) < prog_left p"
      using set_service_left [OF assms(2), of "Serving ((serving sv)\<lparr>ctx_done := cancelled p\<rparr>)"] Spawned assms(4)
      by (simp add: serving_def work_left_def)
    then show ?thesis using prog_act.tcp_listen [OF assms(2) [unfolded Spawned] a, of "serving sv"]
      by (fastforce simp: Serve_start_def)
  next
    case None
    obtain line where "serve_http (fingerprint p) l ErrServerClosed = Some (None, [line])" using None by (rule http_listener)
    then show ?thesis using prog_act.http_listen [OF assms(2) [unfolded Spawned]] set_service_left [OF assms(2), of HttpServing] Spawned
      by fastforce
  qed
next
  case (Serving s)
  have r: "service_ok p (l, Serving s)" using services_ok_at [OF assms(1,2)] Serving by simp
  then obtain maxc t where "server_reachable maxc t s" by auto
  then have I: "server_inv s" by (rule server_reachable_inv)
  show ?thesis
  proof (cases "acc s = Returned")
    case True
    then show ?thesis using prog_act.tcp_returns [OF assms(2) [unfolded Serving]] set_service_left [OF assms(2), of "Leaving None"] Serving
      by fastforce
  next
    case False
    have b: "blocked s = 0" using unblocked_at [OF assms(5)] assms(2) Serving by simp
    obtain s' where s': "server_step s s'" "work_left s' < work_left s" "blocked s' = 0" using server_progress [OF I False b] by blast
    have "ctx_done s' = ctx_done s" using server_step_monotone(1) [OF s'(1)] r assms(4) by auto
    then show ?thesis
      using prog_act.tcp_runs [OF assms(2) [unfolded Serving] working_acts [OF s'(1,2)]] set_service_left [OF assms(2), of "Serving s'"]
        Serving s'(2,3) b
      by fastforce
  qed
next
  case HttpServing
  then have "tcp_service l = None" using services_ok_at [OF assms(1,2)] by simp
  then obtain line where "serve_http (fingerprint p) l ErrServerClosed = Some (None, [line])" by (rule http_listener)
  then show ?thesis using HttpServing prog_act.http_closes [OF assms(2) [unfolded HttpServing] assms(4)] set_service_left [OF assms(2), of "Leaving None"]
    by fastforce
next
  case (Leaving why)
  have "prog_left (set_service i (Gone why) (p\<lparr>main_wg := main_wg p - 1\<rparr>)) = prog_left (set_service i (Gone why) p)"
    by (simp add: prog_left_def)
  then show ?thesis using prog_act.service_done [OF assms(2) [unfolded Leaving]] set_service_left [OF assms(2), of "Gone why"] Leaving
    by fastforce
qed (use assms(3) in simp)

lemma prog_progress:
  assumes "prog_inv p" "main_at p \<noteq> Exited" "unblocked p"
  shows "\<exists>p'. prog_step p p' \<and> prog_left p' < prog_left p \<and> clients_untouched p p'"
proof -
  have live: "prog_step p p'" if "prog_act p p'" for p'
    using that assms by (simp add: prog_step_def prog_inv_def)
  have go: "\<exists>p'. prog_act p p' \<and> prog_left p' < prog_left p \<and> clients_untouched p p'" if "prog_act p q" "prog_left q < prog_left p \<and> clients_untouched p q" for q
    using that by blast
  have "\<exists>p'. prog_act p p' \<and> prog_left p' < prog_left p \<and> clients_untouched p p'"
  proof (cases "main_at p")
    case StartingServices
    show ?thesis
    proof (cases "unstarted p")
      case Nil
      have "FP_wf (fingerprint p)" using assms(1) by (simp add: prog_inv_def)
      then obtain line where line: "running_line (fingerprint p) = Some line" using running_line_wf by blast
      show ?thesis
        by (rule go [OF prog_act.started [OF StartingServices Nil line]]) (use StartingServices in \<open>simp add: prog_left_def say_def clients_untouched_def\<close>)
    next
      case (Cons l ls)
      show ?thesis
        by (rule go [OF prog_act.start [OF StartingServices Cons]]) (use Cons in \<open>simp add: prog_left_def services_left_def clients_untouched_def unblocked_def\<close>)
    qed
  next
    case WaitingServices
    show ?thesis
    proof (cases "main_wg p = 0")
      case True
      show ?thesis
        by (rule go [OF prog_act.wait_over [OF WaitingServices True]]) (use WaitingServices in \<open>simp add: prog_left_def say_def clients_untouched_def\<close>)
    next
      case False
      then have "filter (\<lambda>x. \<not> gone (snd x)) (services p) \<noteq> []" using assms(1) by (auto simp: prog_inv_def cnt_def)
      then obtain x where "x \<in> set (services p)" "\<not> gone (snd x)" by (auto simp: filter_empty_conv)
      then obtain i l st where i: "is_service p i l st" "\<not> gone st"
        by (metis in_set_conv_nth is_service_def prod.collapse)
      show ?thesis
      proof (cases "cancelled p")
        case True
        then show ?thesis using service_progress [OF assms(1) i] assms(3) by blast
      next
        case nc: False
        show ?thesis
        proof (cases "sig_at p")
          case AwaitSignal
          show ?thesis
          proof (cases "sigCh p")
            case None
            show ?thesis
              by (rule go [OF prog_act.signal [of p SIGTERM]]) (use None AwaitSignal in \<open>simp add: prog_left_def clients_untouched_def\<close>)
          next
            case (Some sig)
            show ?thesis
              by (rule go [OF prog_act.signal_taken [OF AwaitSignal Some]]) (use Some AwaitSignal in \<open>simp add: prog_left_def say_def clients_untouched_def\<close>)
          qed
        next
          case GotSignal
          show ?thesis
            by (rule go [OF prog_act.signal_cancels [OF GotSignal]]) (use GotSignal services_left_cancel [of "services p"] in \<open>simp add: prog_left_def clients_untouched_def\<close>)
        next
          case SignalDone
          then show ?thesis using nc assms(1) by (simp add: prog_inv_def)
        qed
      qed
    qed
  next
    case AllStopped
    show ?thesis
      by (rule go [OF prog_act.deferred_cancel [OF AllStopped]]) (use AllStopped services_left_cancel [of "services p"] in \<open>simp add: prog_left_def clients_untouched_def\<close>)
  next
    case Cancelled
    show ?thesis
      by (rule go [OF prog_act.deferred_close [OF Cancelled]])
        (use Cancelled in \<open>simp add: prog_left_def clients_untouched_def Close_def\<close>)
  next
    case StoreClosed
    show ?thesis
      by (rule go [OF prog_act.main_returns [OF StoreClosed]]) (use StoreClosed in \<open>simp add: prog_left_def clients_untouched_def\<close>)
  qed (use assms in \<open>simp_all add: prog_inv_def\<close>)
  then show ?thesis using live by blast
qed

lemma prog_inv_step: "prog_step p p' \<Longrightarrow> prog_inv p \<Longrightarrow> prog_inv p'"
  using prog_inv_act by (auto simp: prog_step_def)

interpretation program_finishes: can_finish "\<lambda>p p'. prog_step p p' \<and> clients_untouched p p'" "\<lambda>p. prog_inv p \<and> unblocked p"
    prog_left "\<lambda>p. main_at p = Exited"
  by unfold_locales (use prog_inv_step prog_progress clients_untouched_def in blast)+

lemma can_exit:
  assumes "prog_inv p" "unblocked p"
  shows "\<exists>n p'. n \<le> prog_left p \<and> (prog_step ^^ n) p p' \<and> main_at p' = Exited \<and> clients_untouched p p'"
proof -
  let ?step = "\<lambda>p p'. prog_step p p' \<and> clients_untouched p p'"
  obtain n p' where n: "n \<le> prog_left p" "(?step ^^ n) p p'" "main_at p' = Exited"
    using program_finishes.run_to_end [of p] assms by blast
  have "(prog_step ^^ n) p p' \<and> clients_untouched p p'"
    using n(2) by (rule relpowp_keeps) (simp_all add: clients_untouched_def)
  then show ?thesis using n by blast
qed

text \<open>From every state the program can reach in which no goroutine is blocked, whatever its services and clients are
  in the middle of, it can still be ended by a signal, in at most \<open>prog_left\<close> actions.\<close>

theorem program_can_exit:
  assumes "main_setup f open_log disk t0 t1 ent = Some launch" "prog_reachable launch p" "unblocked p"
  shows "\<exists>n p'. n \<le> prog_left p \<and> (prog_step ^^ n) p p' \<and> main_at p' = Exited"
  using can_exit [OF started_inv [OF assms(1,2)] assms(3)] by blast

text \<open>A program that is shutting down: the context is cancelled, all services are started, and the
  listening sockets are closed.\<close>

definition shutting_service :: "service_state \<Rightarrow> bool" where
  "shutting_service st \<longleftrightarrow> (case st of Spawned \<Rightarrow> False | Serving s \<Rightarrow> ctx_done s \<and> \<not> ln_open s | _ \<Rightarrow> True)"

definition shutting :: "program \<Rightarrow> bool" where
  "shutting p \<longleftrightarrow> cancelled p \<and> main_at p \<noteq> StartingServices \<and> (\<forall>x \<in> set (services p). shutting_service (snd x))"

text \<open>An action that moves the main goroutine or a service, after any number of others: requests of HTTP
  clients, events logged, further signals.\<close>

definition same_position :: "program \<Rightarrow> program \<Rightarrow> bool" where
  "same_position p p' \<longleftrightarrow> services p' = services p \<and> main_at p' = main_at p"

definition prog_idles :: "program \<Rightarrow> program \<Rightarrow> bool" where
  "prog_idles p p' \<longleftrightarrow> prog_step p p' \<and> same_position p p'"

definition prog_moves :: "program \<Rightarrow> program \<Rightarrow> bool" where
  "prog_moves p p' \<longleftrightarrow> (\<exists>q. prog_idles\<^sup>*\<^sup>* p q \<and> prog_step q p' \<and> \<not> same_position q p')"

definition ending_left :: "program \<Rightarrow> nat" where
  "ending_left p = services_left (services p) + main_left (main_at p)"

lemma is_service_in: "is_service p i l st \<Longrightarrow> (l, st) \<in> set (services p)"
  by (metis is_service_def nth_mem)

lemma shutting_at: "shutting p \<Longrightarrow> is_service p i l st \<Longrightarrow> shutting_service st"
  using is_service_in by (fastforce simp: shutting_def)

lemma shutting_set_service:
  assumes "shutting p" "is_service p i l st" "shutting_service st'" "service_left st' < service_left st"
  shows "shutting (set_service i st' p)" "ending_left (set_service i st' p) < ending_left p"
proof -
  show "shutting (set_service i st' p)"
    using assms(1,3) by (auto simp: shutting_def dest!: set_update_subset_insert [THEN subsetD])
  show "ending_left (set_service i st' p) < ending_left p"
    using assms(2,4) services_left_update [of i "services p" "(l, st')"] by (simp add: ending_left_def is_service_def)
qed

lemma shutting_frame [simp]: "shutting (say line p) = shutting p" "ending_left (say line p) = ending_left p"
  "shutting (p\<lparr>main_wg := n\<rparr>) = shutting p" "ending_left (p\<lparr>main_wg := n\<rparr>) = ending_left p"
  "is_service (p\<lparr>main_wg := n\<rparr>) = is_service p"
  by (simp_all add: shutting_def ending_left_def fun_eq_iff is_service_def)

lemma cancel_shutting: "shutting p \<Longrightarrow> map (apsnd cancel_service) (services p) = services p"
proof -
  assume p: "shutting p"
  have "cancel_service (snd x) = snd x" if "x \<in> set (services p)" for x
    using p that by (cases "snd x") (auto simp: shutting_def shutting_service_def)
  then show ?thesis by (intro map_idI) (auto simp: apsnd_def map_prod_def split: prod.splits)
qed

lemma shutting_step:
  assumes "prog_act p p'" "shutting p"
  shows "shutting p' \<and> (same_position p p' \<or> ending_left p' < ending_left p)"
  using assms
proof (induction rule: prog_act.induct)
  case (tcp_listen p i l addr sv s)
  then show ?case using shutting_at by (fastforce simp: shutting_service_def)
next
  case (tcp_fails p i l addr sv e msg)
  then show ?case using shutting_at by (fastforce simp: shutting_service_def)
next
  case (http_listen p i l returned r line)
  then show ?case using shutting_at by (fastforce simp: shutting_service_def)
next
  case (tcp_runs p i l s s')
  have s: "ctx_done s" "\<not> ln_open s" using shutting_at [OF tcp_runs.prems tcp_runs.hyps(1)] by (simp_all add: shutting_service_def)
  have a: "server_step s s'" "s' \<noteq> s" "stop_at s' = stop_at s" "done_closed (srv s') = done_closed (srv s)"
    using tcp_runs.hyps(2) by (simp_all add: server_acts_def)
  have "shutting_service (Serving s')" using server_step_monotone(1,2) [OF a(1)] s by (simp add: shutting_service_def)
  moreover have "work_left s' < work_left s" by (rule closing_acts_less [OF a(1) s a(2-4)])
  ultimately show ?case using shutting_set_service [OF tcp_runs.prems tcp_runs.hyps(1)] by simp
next
  case (tcp_returns p i l s)
  then show ?case using shutting_set_service [OF tcp_returns.prems tcp_returns.hyps(1), of "Leaving None"]
    by (simp add: shutting_service_def)
next
  case (http_fails p i l e line)
  then show ?case using shutting_set_service [OF http_fails.prems http_fails.hyps(1), of "Leaving (Some e)"]
    by (simp add: shutting_service_def)
next
  case (http_closes p i l line)
  then show ?case using shutting_set_service [OF http_closes.prems http_closes.hyps(1), of "Leaving None"]
    by (simp add: shutting_service_def)
next
  case (service_done p i l why)
  then show ?case using shutting_set_service [of "p\<lparr>main_wg := main_wg p - 1\<rparr>" i l "Leaving why" "Gone why"]
    by (simp add: shutting_service_def)
next
  case (signal_cancels p)
  then show ?case using cancel_shutting [of p] by (simp add: shutting_def same_position_def)
next
  case (deferred_cancel p)
  then show ?case using cancel_shutting [of p] by (simp add: shutting_def ending_left_def)
qed (simp_all add: shutting_def same_position_def ending_left_def)

text \<open>In a program none of whose handlers can hang no goroutine is ever blocked.\<close>

definition never_hangs :: "program \<Rightarrow> bool" where
  "never_hangs p \<longleftrightarrow> list_all (\<lambda>l. \<not> can_hang (fingerprint p) l) (map fst (services p) @ unstarted p)"

lemma prog_act_fixed:
  assumes "prog_act p p'"
  shows "fingerprint p' = fingerprint p \<and> map fst (services p') @ unstarted p' = map fst (services p) @ unstarted p"
  using assms
proof -
  have m: "map fst (xs[i := (l, y)]) = map fst xs" if "i < length xs \<and> xs ! i = (l, st)" for xs :: "(listener \<times> service_state) list" and i l st y
    using that map_fst_update [of i xs y] by simp
  show ?thesis using assms
    by (induction rule: prog_act.induct) (simp_all add: is_service_def comp_def m)
qed

lemma never_hangs_act: "prog_act p p' \<Longrightarrow> never_hangs p' = never_hangs p"
  using prog_act_fixed by (simp add: never_hangs_def)

lemma never_hangs_at: "never_hangs p \<Longrightarrow> is_service p i l st \<Longrightarrow> \<not> can_hang (fingerprint p) l"
  unfolding never_hangs_def is_service_def list_all_iff by (metis UnCI fst_conv list.set_map imageI nth_mem set_append)

lemma unblocked_act:
  assumes "prog_act p p'" "unblocked p" "never_hangs p"
  shows "unblocked p'"
  using assms
proof (induction rule: prog_act.induct)
  case (tcp_runs p i l s s')
  then have "blocked s' = 0" using never_hangs_at unblocked_at by metis
  then show ?case using tcp_runs.prems(1) by (simp add: unblocked_set_service)
next
  case (tcp_listen p i l addr sv s)
  then have "gs s = []" by (auto simp: Serve_start_def)
  then show ?case using tcp_listen.prems(1) by (simp add: unblocked_set_service)
next
  case (start p l ls)
  then show ?case by (simp add: unblocked_def)
qed (simp_all add: unblocked_set_service)

definition sound :: "program \<Rightarrow> bool" where
  "sound p \<longleftrightarrow> prog_inv p \<and> unblocked p \<and> never_hangs p"

lemma sound_step: "prog_step p p' \<Longrightarrow> sound p \<Longrightarrow> sound p'"
  using prog_inv_act unblocked_act never_hangs_act by (auto simp: prog_step_def sound_def)

lemma idles_keep:
  assumes "prog_idles\<^sup>*\<^sup>* p q" "sound p" "shutting p"
  shows "sound q \<and> shutting q \<and> same_position p q"
  using assms
proof (induction rule: rtranclp_induct)
  case base
  then show ?case by (simp add: same_position_def)
next
  case (step q r)
  then have q: "prog_step q r" "same_position q r" "sound q" "shutting q" "same_position p q" by (auto simp: prog_idles_def)
  then have "sound r" "shutting r" using sound_step shutting_step by (auto simp: prog_step_def)
  then show ?case using q by (simp add: same_position_def)
qed

lemma moves_less:
  assumes "prog_moves p p'" "sound p" "shutting p"
  shows "sound p' \<and> shutting p' \<and> ending_left p' < ending_left p"
proof -
  obtain q where q: "prog_idles\<^sup>*\<^sup>* p q" "prog_step q p'" "\<not> same_position q p'" using assms(1) by (auto simp: prog_moves_def)
  have k: "sound q" "shutting q" "same_position p q" using idles_keep [OF q(1) assms(2,3)] by auto
  have "shutting p' \<and> ending_left p' < ending_left q" using shutting_step [of q p'] q(2,3) k(2) by (auto simp: prog_step_def)
  moreover have "ending_left q = ending_left p" using k(3) by (simp add: ending_left_def same_position_def)
  ultimately show ?thesis using sound_step [OF q(2) k(1)] by simp
qed

lemma moves_possible:
  assumes "sound p" "shutting p" "main_at p \<noteq> Exited"
  shows "\<exists>p'. prog_moves p p'"
  using assms
proof (induction "prog_left p" arbitrary: p rule: less_induct)
  case less
  obtain q where q: "prog_step p q" "prog_left q < prog_left p"
    using prog_progress [of p] less.prems(1,3) unfolding sound_def by blast
  show ?case
  proof (cases "same_position p q")
    case True
    then have i: "prog_idles p q" using q(1) by (simp add: prog_idles_def)
    then have k: "sound q" "shutting q" "same_position p q" using idles_keep [OF r_into_rtranclp] less.prems by blast+
    then have "main_at q \<noteq> Exited" using less.prems(3) by (simp add: same_position_def)
    then obtain p' where "prog_moves q p'" using less.hyps [OF q(2) k(1,2)] by blast
    then have "prog_moves p p'" unfolding prog_moves_def using converse_rtranclp_into_rtranclp [of prog_idles, OF i] by blast
    then show ?thesis ..
  next
    case False
    then have "prog_moves p q" unfolding prog_moves_def using q(1) by blast
    then show ?thesis ..
  qed
qed

interpretation program_ends: must_finish prog_moves "\<lambda>p. sound p \<and> shutting p" ending_left "\<lambda>p. main_at p = Exited"
  by unfold_locales (use moves_less moves_possible in blast)+

text \<open>What \<^verbatim>\<open>main\<close> starts never hangs, if the connection timeout fits.\<close>

lemma started_sound:
  assumes "main_setup f open_log disk t0 t1 ent = Some launch" "prog_reachable launch p"
    and "Load f = Inr cfg" "ConnectionTimeoutSecs cfg * int second < 2 ^ 63"
  shows "sound p"
proof -
  have "unblocked p \<and> never_hangs p"
    using assms(2)
  proof (induction rule: prog_reachable.induct)
    case (init store fp ls lines)
    have "FP_wf fp" "ls = main_listeners cfg"
      using main_setup_cases [OF assms(3), of open_log disk t0 t1 ent] assms(1) init by fastforce+
    then have "list_all (listener_safe fp (ConnectionTimeoutSecs cfg * int second)) ls"
      using main_listeners_safe [OF assms(3,4)] by simp
    then have "list_all (\<lambda>l. \<not> can_hang fp l) ls" by (auto simp: list_all_iff dest: safe_not_hang)
    then show ?case by (simp add: unblocked_def never_hangs_def program_init_def)
  next
    case (step p p')
    then show ?case using unblocked_act never_hangs_act by (auto simp: prog_step_def)
  qed
  then show ?thesis using started_inv [OF assms(1,2)] by (simp add: sound_def)
qed

text \<open>C6. Shutdown is inevitable: when the configured connection timeout fits 63 bits of nanoseconds, then once the
  context is cancelled and the listening sockets are closed the main goroutine and the services make at most
  \<open>ending_left\<close> more moves, in whatever order and whatever HTTP clients, database sessions and further signals do in
  between; and when no move is possible the process has exited. A handler that could block for good, on any client
  whatever, would keep it from exiting.\<close>

theorem program_shuts_down:
  assumes "main_setup f open_log disk t0 t1 ent = Some launch" "Load f = Inr cfg" "ConnectionTimeoutSecs cfg * int second < 2 ^ 63"
    and "prog_reachable launch p" "shutting p" "(prog_moves ^^ n) p p'"
  shows "n \<le> ending_left p \<and> ((\<exists>p''. prog_moves p' p'') \<or> main_at p' = Exited)"
  using program_ends.ends [OF assms(6)] started_sound [OF assms(1,4,2,3)] assms(5) by blast

text \<open>A goroutine that is blocked in its handler keeps the process from ever exiting, whatever else happens: its
  server does not return, and \<^verbatim>\<open>main\<close> waits for it.\<close>

lemma blocked_service_step:
  assumes "prog_act p p'" "prog_inv p" "is_service p i l (Serving s)" "0 < blocked s"
  shows "\<exists>s'. is_service p' i l (Serving s') \<and> 0 < blocked s'"
proof -
  have keep: ?thesis if "i < length (services p')" "services p' ! i = services p ! i"
    using that assms(3,4) by (auto simp: is_service_def)
  have set: ?thesis if "services p' = (services p)[j := (fst (services p ! j), st)]" "is_service p j m st0"
      "st0 = Serving s \<Longrightarrow> \<exists>s'. st = Serving s' \<and> 0 < blocked s'" for j st m st0
    using that assms(3,4) by (cases "i = j") (auto simp: is_service_def)
  have cancel: ?thesis if "services p' = map (apsnd cancel_service) (services p)"
    using that assms(3,4) by (auto simp: is_service_def)
  show ?thesis
    using assms(1)
  proof cases
    case (tcp_runs j m t t')
    then show ?thesis using blocked_step [of t t'] assms(4) by (intro set [of j _ m "Serving t"]) (auto simp: server_acts_def)
  next
    case (tcp_returns j m t)
    have "service_ok p (m, Serving t)" by (rule services_ok_at [OF assms(2) tcp_returns(2)])
    then have "server_inv t" using server_reachable_inv by auto
    then show ?thesis using blocked_not_returned tcp_returns assms(4) by (intro set [of j _ m "Serving t"]) auto
  next
    case (tcp_listen j m addr sv t)
    then show ?thesis by (intro set [of j _ m Spawned]) auto
  next
    case (start m ls)
    then show ?thesis using assms(3) by (intro keep) (simp_all add: is_service_def nth_append)
  next
    case signal_cancels
    then show ?thesis by (intro cancel) simp
  next
    case deferred_cancel
    then show ?thesis by (intro cancel) simp
  qed (use assms(3,4) in \<open>auto simp: is_service_def nth_list_update say_def set_service_def\<close>)
qed

theorem blocked_goroutine_holds_program:
  assumes "main_setup f open_log disk t0 t1 ent = Some launch" "prog_reachable launch p"
    and "is_service p i l (Serving s)" "0 < blocked s" "prog_step\<^sup>*\<^sup>* p p'"
  shows "main_at p' \<noteq> Exited"
proof -
  have "prog_inv p' \<and> (\<exists>s'. is_service p' i l (Serving s') \<and> 0 < blocked s')"
    using assms(5)
  proof (induction rule: rtranclp_induct)
    case base
    then show ?case using started_inv [OF assms(1,2)] assms(3,4) by blast
  next
    case (step q r)
    then show ?case using prog_inv_step blocked_service_step unfolding prog_step_def by blast
  qed
  then show ?thesis using service_alive(3) [of p' i l] by fastforce
qed

section \<open>What is lost\<close>

lemma start_all:
  assumes "prog_reachable launch p" "main_at p = StartingServices"
  shows "\<exists>p'. prog_reachable launch p' \<and> services p' = services p @ map (\<lambda>l. (l, Spawned)) (unstarted p)
    \<and> main_at p' = StartingServices \<and> fingerprint p' = fingerprint p \<and> http_conns p' = http_conns p \<and> pstore p' = pstore p"
  using assms
proof (induction "unstarted p" arbitrary: p)
  case Nil
  then show ?case by (intro exI [of _ p]) simp
next
  case (Cons l ls)
  let ?q = "p\<lparr>unstarted := ls, services := services p @ [(l, Spawned)], main_wg := main_wg p + 1\<rparr>"
  have "prog_act p ?q" using Cons.prems(2) Cons.hyps(2) [symmetric] by (rule prog_act.start)
  then have "prog_step p ?q" using Cons.prems(2) by (simp add: prog_step_def)
  with Cons.prems(1) have "prog_reachable launch ?q" by (rule prog_reachable.step)
  from Cons.hyps(1) [OF _ this] Cons.prems(2) Cons.hyps(2) [symmetric] show ?case by simp
qed

text \<open>C30. A request that the Elasticsearch or CouchDB service is serving when the program shuts down can be lost
  with the event it would have logged: \<^verbatim>\<open>ListenAndServe\<close> returns when \<^verbatim>\<open>Shutdown\<close> is called, not when it is
  done, and nothing waits for the goroutine that called it. Any request can be cut off this way.\<close>

theorem exit_loses_request:
  assumes "FP_wf fp" "list_all built_listener ls" "l \<in> set ls" "http_service fp l = Some (addr, m)"
  shows "\<exists>p. prog_reachable (Running store fp ls lines) p \<and> main_at p = Exited
    \<and> http_conns p = [(l, Some (t, r))] \<and> logf (pstore p) = logf store"
proof -
  let ?launch = "Running store fp ls lines"
  have ok: "launch_ok ?launch" using assms(1,2) by (simp add: launch_ok_def)
  obtain p where p: "prog_reachable ?launch p" "services p = map (\<lambda>l. (l, Spawned)) ls" "main_at p = StartingServices"
      "fingerprint p = fp" "http_conns p = []" "pstore p = store"
    using start_all [OF prog_reachable.init, of ?launch store fp ls lines] by (auto simp: program_init_def)
  obtain i where i: "i < length ls" "ls ! i = l" using assms(3) by (auto simp: in_set_conv_nth)
  obtain line where line: "serve_http fp l ErrServerClosed = Some (None, [line])"
    using http_listener [OF http_service_not_tcp(1) [OF assms(4)]] by blast
  define q1 where "q1 = say line (set_service i HttpServing p)"
  define q2 where "q2 = q1\<lparr>http_conns := [(l, None)]\<rparr>"
  define q3 where "q3 = q2\<lparr>http_conns := [(l, Some (t, r))]\<rparr>"
  have "prog_act p q1" unfolding q1_def using i p line by (intro prog_act.http_listen) (simp_all add: is_service_def)
  moreover have "prog_act q1 q2"
    using prog_act.http_connect [of q1 i l] i p by (simp add: q1_def q2_def is_service_def)
  moreover have "prog_act q2 q3"
    using prog_act.http_request [of q2 0 l t r] by (simp add: q2_def q3_def is_conn_def)
  ultimately have "prog_step p q1" "prog_step q1 q2" "prog_step q2 q3"
    using p(3) by (simp_all add: prog_step_def q1_def q2_def)
  then have q3: "prog_reachable ?launch q3" using p(1) prog_reachable.step by blast
  have "unblocked q3" using p(2) 
    by (auto simp: unblocked_def q1_def q2_def q3_def list_all_iff dest!: set_update_subset_insert [THEN subsetD])
  then obtain n p' where n: "(prog_step ^^ n) q3 p'" "main_at p' = Exited" "clients_untouched q3 p'"
    using can_exit [OF prog_reachable_inv [OF q3 ok]] by blast
  have "prog_reachable ?launch p'" using n(1) q3
    by (induction n arbitrary: p') (auto intro: prog_reachable.step)
  then show ?thesis using n p(6) by (intro exI [of _ p']) (simp add: q1_def q2_def q3_def clients_untouched_def)
qed

theorem exit_loses_request_witness:
  "\<exists>store fp p l t r. prog_reachable (Running store fp [l] []) p \<and> main_at p = Exited \<and> http_conns p = [(l, Some (t, r))]"
proof -
  obtain fp where fp: "FP_wf fp" using FP_wf_exists by blast
  let ?l = "CouchDBListener ''0.0.0.0:5984'' ''3.3.3'' 1048576"
  have "list_all built_listener [?l]" by (simp add: built_listener_def)
  from exit_loses_request [OF fp this, of ?l] show ?thesis by fastforce
qed

section \<open>A sample run\<close>

lemma reachable_act: "prog_reachable launch p \<Longrightarrow> prog_act p q \<Longrightarrow> main_at p \<notin> {Exited, Panicked} \<Longrightarrow> prog_reachable launch q"
  by (rule prog_reachable.step) (auto simp: prog_step_def)

text \<open>A single TCP service is started, and then a signal arrives.\<close>

lemma sample_serving:
  assumes "FP_wf fp" "tcp_service l = Some (addr, sv)"
  shows "\<exists>p. prog_reachable (Running store fp [l] lines) p \<and> services p = [(l, Serving (serving sv))]
    \<and> main_at p = WaitingServices \<and> sig_at p = AwaitSignal \<and> sigCh p = None \<and> \<not> cancelled p"
proof -
  let ?launch = "Running store fp [l] lines"
  define p0 where "p0 = program_init store fp [l] lines"
  define p1 where "p1 = p0\<lparr>unstarted := [], services := [(l, Spawned)], main_wg := 1\<rparr>"
  obtain line where line: "running_line fp = Some line" using running_line_wf [OF assms(1)] by blast
  define p2 where "p2 = say line (p1\<lparr>main_at := WaitingServices\<rparr>)"
  define p3 where "p3 = say (''server: listening on '' @ addr @ '' (max='' @ dec_int (maxConns sv) @ '')'')
      (set_service 0 (Serving ((serving sv)\<lparr>ctx_done := cancelled p2\<rparr>)) p2)"
  have "prog_reachable ?launch p0" unfolding p0_def by (rule prog_reachable.init) simp
  moreover have "prog_act p0 p1" using prog_act.start [of p0 l "[]"] by (simp add: p0_def p1_def program_init_def)
  ultimately have "prog_reachable ?launch p1" by (rule reachable_act) (simp add: p0_def program_init_def)
  moreover have "prog_act p1 p2" unfolding p2_def using line
    by (intro prog_act.started) (simp_all add: p1_def p0_def program_init_def)
  ultimately have "prog_reachable ?launch p2" by (rule reachable_act) (simp add: p1_def p0_def program_init_def)
  moreover have "prog_act p2 p3" unfolding p3_def using assms(2)
    by (intro prog_act.tcp_listen) (simp_all add: is_service_def Serve_start_def p2_def p1_def)
  ultimately have "prog_reachable ?launch p3" by (rule reachable_act) (simp add: p2_def)
  then show ?thesis
    by (intro exI [of _ p3]) (simp add: p3_def p2_def p1_def p0_def program_init_def serving_def)
qed

lemma sample_shutting:
  assumes "FP_wf fp" "tcp_service l = Some (addr, sv)"
  shows "\<exists>p. prog_reachable (Running store fp [l] lines) p \<and> shutting p \<and> main_at p = WaitingServices \<and> unblocked p"
proof -
  let ?launch = "Running store fp [l] lines"
  obtain p where p: "prog_reachable ?launch p" "services p = [(l, Serving (serving sv))]"
      "main_at p = WaitingServices" "sig_at p = AwaitSignal" "sigCh p = None"
    using sample_serving [OF assms] by blast
  define p1 where "p1 = p\<lparr>sigCh := Some SIGTERM\<rparr>"
  define p2 where "p2 = say (''main: received '' @ signal_name SIGTERM @ '', shutting down'') (p1\<lparr>sigCh := None, sig_at := GotSignal\<rparr>)"
  define p3 where "p3 = cancel_ctx (p2\<lparr>sig_at := SignalDone\<rparr>)"
  let ?s = "(serving sv)\<lparr>ctx_done := True\<rparr>"
  define p4 where "p4 = set_service 0 (Serving (?s\<lparr>ln_open := False\<rparr>)) p3"
  have "prog_act p p1" using prog_act.signal [of p SIGTERM] p(5) by (simp add: p1_def)
  with p(1) have "prog_reachable ?launch p1" by (rule reachable_act) (simp add: p(3))
  moreover have "prog_act p1 p2" unfolding p2_def by (rule prog_act.signal_taken) (simp_all add: p1_def p)
  ultimately have "prog_reachable ?launch p2" by (rule reachable_act) (simp add: p1_def p)
  moreover have "prog_act p2 p3" unfolding p3_def by (rule prog_act.signal_cancels) (simp add: p2_def)
  ultimately have "prog_reachable ?launch p3" by (rule reachable_act) (simp add: p2_def p1_def p)
  moreover have "server_acts ?s (?s\<lparr>ln_open := False\<rparr>)"
    using server_step.close_listener [of ?s] by (simp add: server_acts_def serving_def)
  then have "prog_act p3 p4" unfolding p4_def
    by (intro prog_act.tcp_runs [where l = l and s = ?s]) (simp_all add: p3_def p2_def p1_def p is_service_def)
  ultimately have "prog_reachable ?launch p4" by (rule reachable_act) (simp add: p3_def p2_def p1_def p)
  then show ?thesis
    by (intro exI [of _ p4]) (simp add: p4_def p3_def p2_def p1_def p shutting_def shutting_service_def unblocked_def serving_def)
qed

lemma sample_service:
  obtains store fp lines l addr where
    "main_setup (Inr (json_marshal (config_json sample_cfg))) (\<lambda>_. Inr []) None 0 0 (replicate 129 NUL)
      = Some (Running store fp [l] lines)" "FP_wf fp" "tcp_service l = Some (addr, tcp_server (applyDefaults sample_cfg))" "logf store = []"
  using sample_launch tcp_service.simps(4) by blast

theorem program_keeps_captured_events_witness:
  "\<exists>store fp lines l p es. prog_reachable (Running store fp [l] lines) p \<and> main_at p = WaitingServices
    \<and> read_with decode_event (logf (pstore p)) = Some (map (\<lambda>(t, e). recorded t e) es) \<and> subseq (captured p) es"
proof -
  obtain store fp lines l addr where m: "main_setup (Inr (json_marshal (config_json sample_cfg))) (\<lambda>_. Inr []) None 0 0 (replicate 129 NUL)
      = Some (Running store fp [l] lines)" "FP_wf fp" "tcp_service l = Some (addr, tcp_server (applyDefaults sample_cfg))" "logf store = []"
    by (rule sample_service)
  obtain p where p: "prog_reachable (Running store fp [l] lines) p" "main_at p = WaitingServices"
    using sample_shutting [OF m(2,3)] by blast
  have "read_with decode_event (logf store) = Some []" by (simp add: m(4) read_with_def)
  from program_keeps_captured_events [OF m(1) p(1) this]
  obtain es where "read_with decode_event (logf (pstore p)) = Some (map (\<lambda>(t, e). recorded t e) es)" "subseq (captured p) es" by auto
  then show ?thesis using p by blast
qed

theorem program_exits_in_order_witness:
  "\<exists>store fp lines l p. prog_reachable (Running store fp [l] lines) p \<and> main_at p \<noteq> Panicked"
proof -
  obtain store fp lines l addr where m: "main_setup (Inr (json_marshal (config_json sample_cfg))) (\<lambda>_. Inr []) None 0 0 (replicate 129 NUL)
      = Some (Running store fp [l] lines)" "FP_wf fp" "tcp_service l = Some (addr, tcp_server (applyDefaults sample_cfg))" "logf store = []"
    by (rule sample_service)
  obtain p where p: "prog_reachable (Running store fp [l] lines) p" using sample_shutting [OF m(2,3)] by blast
  from program_exits_in_order [OF m(1) p] p show ?thesis by blast
qed

theorem program_within_limits_witness:
  "\<exists>store fp lines l p s. prog_reachable (Running store fp [l] lines) p \<and> is_service p 0 l (Serving s)
    \<and> int (handlers s) \<le> maxConns (tcp_server (applyDefaults sample_cfg))"
proof -
  obtain store fp lines l addr where m: "main_setup (Inr (json_marshal (config_json sample_cfg))) (\<lambda>_. Inr []) None 0 0 (replicate 129 NUL)
      = Some (Running store fp [l] lines)" "FP_wf fp" "tcp_service l = Some (addr, tcp_server (applyDefaults sample_cfg))" "logf store = []"
    by (rule sample_service)
  obtain p where p: "prog_reachable (Running store fp [l] lines) p"
      "services p = [(l, Serving (serving (tcp_server (applyDefaults sample_cfg))))]"
    using sample_serving [OF m(2,3)] by blast
  have "is_service p 0 l (Serving (serving (tcp_server (applyDefaults sample_cfg))))" using p(2) by (simp add: is_service_def)
  from program_within_limits [OF m(1) p(1) this m(3)] p(1) this show ?thesis by blast
qed

theorem program_can_exit_witness:
  "\<exists>store fp lines l p n p'. prog_reachable (Running store fp [l] lines) p \<and> shutting p \<and> (prog_step ^^ n) p p' \<and> main_at p' = Exited"
proof -
  obtain store fp lines l addr where m: "main_setup (Inr (json_marshal (config_json sample_cfg))) (\<lambda>_. Inr []) None 0 0 (replicate 129 NUL)
      = Some (Running store fp [l] lines)" "FP_wf fp" "tcp_service l = Some (addr, tcp_server (applyDefaults sample_cfg))" "logf store = []"
    by (rule sample_service)
  obtain p where p: "prog_reachable (Running store fp [l] lines) p" "shutting p" "unblocked p" using sample_shutting [OF m(2,3)] by blast
  from program_can_exit [OF m(1) p(1,3)] p show ?thesis by blast
qed

theorem program_shuts_down_witness:
  "\<exists>store fp lines l p p'. prog_reachable (Running store fp [l] lines) p \<and> shutting p \<and> prog_moves p p'"
proof -
  obtain store fp lines l addr where m: "main_setup (Inr (json_marshal (config_json sample_cfg))) (\<lambda>_. Inr []) None 0 0 (replicate 129 NUL)
      = Some (Running store fp [l] lines)" "FP_wf fp" "tcp_service l = Some (addr, tcp_server (applyDefaults sample_cfg))" "logf store = []"
    by (rule sample_service)
  obtain p where p: "prog_reachable (Running store fp [l] lines) p" "shutting p" "main_at p = WaitingServices"
    using sample_shutting [OF m(2,3)] by blast
  have fit: "ConnectionTimeoutSecs (applyDefaults sample_cfg) * int second < 2 ^ 63"
    by (simp add: sample_defaults second_def)
  have "(prog_moves ^^ 0) p p" by simp
  from program_shuts_down [OF m(1) sample_load fit p(1,2) this] p(3) obtain p' where "prog_moves p p'" by auto
  then show ?thesis using p by blast
qed

end
