(* ===== verification/RedisService.thy ===== *)
theory RedisService
  imports LogReader Redis
begin

text \<open>
  All connections of the Redis service at once.

  The handlers of one service share the store and the three atomic counters of \<open>Counters\<close>; everything else
  of a session is its own. \<open>redis_serve\<close> interleaves any number of sessions: a new connection runs the
  prologue of \<^verbatim>\<open>Handler\<close>, a session that is in its loop runs \<open>redis_step\<close> on the shared part as the others have
  left it, and one that leaves the loop runs the deferred decrement. What a command does to the shared part is
  one addition to a counter, at most one call of \<^verbatim>\<open>Log\<close> and, for INFO, the reading of two counters, so a whole
  turn of the loop is one action here.
\<close>

section \<open>The service\<close>

record redis_shared =
  sh_store :: Store
  sh_received :: "64 word"
  sh_active :: "64 word"
  sh_commands :: "64 word"

definition shared_part :: "redis_world \<Rightarrow> redis_shared" where
  "shared_part w = \<lparr>sh_store = wstore w, sh_received = received w, sh_active = active w, sh_commands = commands w\<rparr>"

definition with_shared :: "redis_shared \<Rightarrow> redis_world \<Rightarrow> redis_world" where
  "with_shared h w = w\<lparr>wstore := sh_store h, received := sh_received h, active := sh_active h, commands := sh_commands h\<rparr>"

type_synonym redis_session = "((bytes \<times> 64 word) \<times> redis_world) option"

inductive redis_serve :: "unicode_tables \<Rightarrow> FP \<Rightarrow> bytes \<Rightarrow> redis_shared \<times> redis_session list \<Rightarrow> redis_shared \<times> redis_session list \<Rightarrow> bool"
  for U fp version where
  connect: "redis_serve U fp version (h, ss)
    (h\<lparr>sh_received := sh_received h + 1, sh_active := sh_active h + 1\<rparr>,
     ss @ [Some (peer w, set_read_deadline 60 (w\<lparr>wbuf := [], werr := None\<rparr>))])"
| command: "i < length ss \<Longrightarrow> ss ! i = Some (src, w) \<Longrightarrow> redis_step U fp version src (with_shared h w) = Continue w' \<Longrightarrow>
    redis_serve U fp version (h, ss) (shared_part w', ss[i := Some (src, w')])"
| disconnect: "i < length ss \<Longrightarrow> ss ! i = Some (src, w) \<Longrightarrow> redis_step U fp version src (with_shared h w) = Return w' \<Longrightarrow>
    redis_serve U fp version (h, ss) ((shared_part w')\<lparr>sh_active := sh_active (shared_part w') - 1\<rparr>, ss[i := None])"

definition fresh_counters :: "Store \<Rightarrow> redis_shared" where
  "fresh_counters s = \<lparr>sh_store = s, sh_received = 0, sh_active = 0, sh_commands = 0\<rparr>"

lemma shared_simps [simp]:
  "shared_part (with_shared h w) = h" "with_shared (shared_part w) w = w"
  "wconn (with_shared h w) = wconn w" "wstore (with_shared h w) = sh_store h"
  "received (with_shared h w) = sh_received h" "active (with_shared h w) = sh_active h"
  "sh_store (shared_part w) = wstore w" "sh_received (shared_part w) = received w" "sh_active (shared_part w) = active w"
  by (simp_all add: shared_part_def with_shared_def)

section \<open>Counters and log\<close>

definition connected :: "redis_session list \<Rightarrow> nat" where
  "connected ss = length (filter (\<lambda>s. case s of None \<Rightarrow> False | Some _ \<Rightarrow> True) ss)"

lemma connected_simps [simp]: "connected [] = 0" "connected (ss @ [Some x]) = connected ss + 1"
  by (simp_all add: connected_def)

lemma connected_update:
  assumes "i < length ss" "ss ! i = Some x"
  shows "connected (ss[i := Some y]) = connected ss" "connected ss = Suc (connected (ss[i := None]))"
  using assms
proof (atomize (full), induction ss arbitrary: i)
  case (Cons s ss)
  then show ?case by (cases i) (auto simp: connected_def split: option.split)
qed simp

definition service_inv :: "Store \<Rightarrow> redis_shared \<times> redis_session list \<Rightarrow> bool" where
  "service_inv s c \<longleftrightarrow> sh_received (fst c) = of_nat (length (snd c)) \<and> sh_active (fst c) = of_nat (connected (snd c))
     \<and> log_extends s (sh_store (fst c))"

lemma service_inv_step:
  assumes "FP_wf fp" "redis_serve U fp version c c'" "service_inv s c"
  shows "service_inv s c'"
  using assms(2,3)
proof (induction rule: redis_serve.induct)
  case (connect h ss w)
  then show ?case by (simp add: service_inv_def algebra_simps)
next
  case (command i ss src w h w')
  have "evolves (with_shared h w) w'" "active w' = sh_active h" "received w' = sh_received h"
    using redis_round [OF assms(1), of U version src "with_shared h w"] command.hyps(3) by auto
  then show ?case using command log_extends_trans [of s "sh_store h" "wstore w'"] connected_update(1) [OF command.hyps(1,2)]
    by (simp add: service_inv_def evolves_def)
next
  case (disconnect i ss src w h w')
  have "evolves (with_shared h w) w'" "active w' = sh_active h" "received w' = sh_received h"
    using redis_round [OF assms(1), of U version src "with_shared h w"] disconnect.hyps(3) by auto
  then show ?case using disconnect log_extends_trans [of s "sh_store h" "wstore w'"] connected_update(2) [OF disconnect.hyps(1,2)]
    by (simp add: service_inv_def evolves_def)
qed

text \<open>C29. However the sessions of the Redis service interleave, the counters say what they are meant to, modulo
  \<open>2 ^ 64\<close>: \<open>received\<close> the number of connections so far and \<open>active\<close> the number of those still served; the
  log file reads back as what it held followed by a list of events; and no session can bring the service to a
  stop: each one that is connected can take its next turn.\<close>

theorem redis_service_counts:
  assumes "FP_wf fp" "(redis_serve U fp version)\<^sup>*\<^sup>* (fresh_counters s, []) (h, ss)"
    and "store_ready s" "read_with decode_event (logf s) = Some old"
  shows "sh_received h = of_nat (length ss) \<and> sh_active h = of_nat (connected ss)
    \<and> (\<exists>es. read_with decode_event (logf (sh_store h)) = Some (old @ es))
    \<and> (\<forall>i. i < length ss \<and> ss ! i \<noteq> None \<longrightarrow> (\<exists>h' s'. redis_serve U fp version (h, ss) (h', ss[i := s'])))"
proof -
  have "service_inv s (h, ss)"
    using assms(2)
  proof (induction rule: rtranclp_induct)
    case base
    then show ?case by (simp add: service_inv_def fresh_counters_def)
  next
    case (step c c')
    then show ?case using service_inv_step [OF assms(1)] by blast
  qed
  then have i: "sh_received h = of_nat (length ss)" "sh_active h = of_nat (connected ss)" "log_extends s (sh_store h)"
    by (simp_all add: service_inv_def)
  obtain es where es: "\<forall>(t, e) \<in> set es. loggable e" "sh_store h = fold (\<lambda>(t, e). Log t e) es s"
    using i(3) unfolding log_extends_def by (elim exE conjE)
  have "\<exists>es. read_with decode_event (logf (sh_store h)) = Some (old @ es)"
    unfolding es(2) using store_reader.log_all_refines [OF assms(3) es(1) assms(4)] by (rule exI)
  moreover have "\<exists>h' s'. redis_serve U fp version (h, ss) (h', ss[i := s'])" if a: "i < length ss" "ss ! i \<noteq> None" for i
  proof -
    obtain src w where w: "ss ! i = Some (src, w)" using a(2) by fastforce
    consider w' where "redis_step U fp version src (with_shared h w) = Return w'"
      | w' where "redis_step U fp version src (with_shared h w) = Continue w'"
      using redis_round [OF assms(1), of U version src "with_shared h w"] by blast
    then show ?thesis using redis_serve.command [OF a(1) w] redis_serve.disconnect [OF a(1) w] by cases blast+
  qed
  ultimately show ?thesis using i by blast
qed

theorem redis_service_counts_witness:
  "\<exists>fp h ss. (redis_serve \<lparr>upper_tab = id, lower_tab = id\<rparr> fp ''7.2.4'')\<^sup>*\<^sup>* (fresh_counters (wstore (quiet_redis [])), []) (h, ss)
    \<and> length ss = 1 \<and> sh_received h = 1 \<and> sh_active h = 1"
proof -
  let ?U = "\<lparr>upper_tab = id, lower_tab = id\<rparr>" and ?s = "wstore (quiet_redis [])"
  obtain fp where fp: "FP_wf fp" using FP_wf_exists by blast
  let ?h = "(fresh_counters ?s)\<lparr>sh_received := sh_received (fresh_counters ?s) + 1, sh_active := sh_active (fresh_counters ?s) + 1\<rparr>"
  let ?ss = "[] @ [Some (peer (quiet_redis []), set_read_deadline 60 ((quiet_redis [])\<lparr>wbuf := [], werr := None\<rparr>))]"
  have r: "(redis_serve ?U fp ''7.2.4'')\<^sup>*\<^sup>* (fresh_counters ?s, []) (?h, ?ss)"
    by (rule r_into_rtranclp, rule redis_serve.connect)
  have s: "store_ready ?s" "read_with decode_event (logf ?s) = Some []"
    by (simp_all add: quiet_world_def store_ready_def read_with_def)
  have "sh_received ?h = of_nat (length ?ss) \<and> sh_active ?h = of_nat (connected ?ss)"
    using redis_service_counts [OF fp r s] by blast
  moreover have "length ?ss = 1" "connected ?ss = 1" by (simp_all add: connected_def)
  ultimately show ?thesis using r by (metis of_nat_1)
qed

section \<open>A session on its own\<close>

text \<open>A session that has the service to itself is the handler: the run of \<open>redis_Handler\<close> is a run of the
  service, with the same effect on the store and the counters.\<close>

lemma loop_serves:
  assumes "redis_loop U fp version src (with_shared h w) = Some w'"
  shows "(redis_serve U fp version)\<^sup>*\<^sup>* (h, [Some (src, w)])
    ((shared_part w')\<lparr>sh_active := sh_active (shared_part w') - 1\<rparr>, [None])"
  using assms
proof (induction "length (incoming (wconn w))" arbitrary: h w rule: less_induct)
  case less
  note run = less.prems [unfolded redis_loop.simps [of U fp version src "with_shared h w"]]
  show ?case
  proof (cases "redis_step U fp version src (with_shared h w)")
    case (Continue v)
    have "redis_serve U fp version (h, [Some (src, w)]) (shared_part v, [Some (src, w)][0 := Some (src, v)])"
      by (rule redis_serve.command [OF _ _ Continue]) simp_all
    then have "redis_serve U fp version (h, [Some (src, w)]) (shared_part v, [Some (src, v)])" by simp
    moreover have "(redis_serve U fp version)\<^sup>*\<^sup>* (shared_part v, [Some (src, v)])
        ((shared_part w')\<lparr>sh_active := sh_active (shared_part w') - 1\<rparr>, [None])"
      using less.hyps [of v "shared_part v"] redis_step_progress [OF Continue] run Continue by simp
    ultimately show ?thesis by (rule converse_rtranclp_into_rtranclp)
  next
    case (Return v)
    then have "v = w'" using run by simp
    have "redis_serve U fp version (h, [Some (src, w)])
        ((shared_part w')\<lparr>sh_active := sh_active (shared_part w') - 1\<rparr>, [Some (src, w)][0 := None])"
      by (rule redis_serve.disconnect [OF _ _ Return [unfolded \<open>v = w'\<close>]]) simp_all
    then show ?thesis by simp
  qed (use run in simp)
qed

theorem redis_Handler_is_a_run:
  assumes "redis_Handler U fp version w = Some w'"
  shows "(redis_serve U fp version)\<^sup>*\<^sup>* (shared_part w, []) (shared_part w', [None])"
proof -
  let ?h = "(shared_part w)\<lparr>sh_received := sh_received (shared_part w) + 1, sh_active := sh_active (shared_part w) + 1\<rparr>"
  let ?w1 = "set_read_deadline 60 (w\<lparr>received := received w + 1, active := active w + 1, wbuf := [], werr := None\<rparr>)"
  let ?w2 = "set_read_deadline 60 (w\<lparr>wbuf := [], werr := None\<rparr>)"
  obtain w3 where w3: "redis_loop U fp version (peer w) ?w1 = Some w3" "w' = w3\<lparr>active := active w3 - 1\<rparr>"
    using assms by (auto simp: redis_Handler_def Let_def split: Option.bind_splits)
  have "redis_serve U fp version (shared_part w, []) (?h, [] @ [Some (peer w, ?w2)])" by (rule redis_serve.connect)
  moreover have "(redis_serve U fp version)\<^sup>*\<^sup>* (?h, [Some (peer w, ?w2)])
      ((shared_part w3)\<lparr>sh_active := sh_active (shared_part w3) - 1\<rparr>, [None])"
  proof (rule loop_serves)
    have "with_shared ?h ?w2 = ?w1"
      by (simp add: with_shared_def shared_part_def set_read_deadline_def SetReadDeadline_def now_def)
    then show "redis_loop U fp version (peer w) (with_shared ?h ?w2) = Some w3" using w3(1) by simp
  qed
  ultimately have "(redis_serve U fp version)\<^sup>*\<^sup>* (shared_part w, [])
      ((shared_part w3)\<lparr>sh_active := sh_active (shared_part w3) - 1\<rparr>, [None])"
    by (simp add: converse_rtranclp_into_rtranclp)
  then show ?thesis using w3(2) by (simp add: shared_part_def)
qed

theorem redis_Handler_is_a_run_witness:
  "\<exists>fp w'. (redis_serve \<lparr>upper_tab = id, lower_tab = id\<rparr> fp ''7.2.4'')\<^sup>*\<^sup>* (shared_part (quiet_redis (''PING'' @ CRLF)), [])
     (shared_part w', [None])"
proof -
  obtain fp where fp: "FP_wf fp" using FP_wf_exists by blast
  obtain w' where "redis_Handler \<lparr>upper_tab = id, lower_tab = id\<rparr> fp ''7.2.4'' (quiet_redis (''PING'' @ CRLF)) = Some w'"
    using redis_Handler_facts [OF fp] by blast
  from redis_Handler_is_a_run [OF this] show ?thesis by blast
qed

end
