(* ===== verification/Spec2Isabelle.thy ===== *)
theory Spec2Isabelle
  imports Evidence Lifecycle RedisService
begin

text \<open>
  A verification of White Toyota Tacoma, a honeypot that answers as Redis, MySQL, PostgreSQL, MongoDB,
  Elasticsearch and CouchDB and logs what its clients send.

  \<^bold>\<open>The program.\<close> \<^verbatim>\<open>cmd/tacoma/main.go\<close> loads a configuration (\<^verbatim>\<open>internal/config\<close>), opens the event
  log (\<^verbatim>\<open>internal/capture\<close>), draws the identities the services show (\<^verbatim>\<open>internal/fingerprint\<close>) and starts one
  listener per enabled service. The four database protocols (\<^verbatim>\<open>internal/proto/redis\<close>, \<^verbatim>\<open>mysql\<close>,
  \<^verbatim>\<open>postgres\<close>, \<^verbatim>\<open>mongodb\<close>) run behind a bounded TCP listener (\<^verbatim>\<open>internal/server\<close>), one goroutine per
  connection; the two HTTP services (\<^verbatim>\<open>internal/proto/http\<close>) run behind \<^verbatim>\<open>net/http\<close>. Every handler
  logs through the one store.

  \<^bold>\<open>Theories and sources.\<close>
  \<^item> \<open>Prelude\<close>: bytes, slices that panic out of range, fixed-width integers on the wire, the helpers
    \<^verbatim>\<open>indexByte\<close> and \<^verbatim>\<open>truncate\<close> each protocol package has a copy of.
  \<^item> \<open>GoText\<close>: what is used of \<^verbatim>\<open>strings\<close>, \<^verbatim>\<open>strconv\<close>, \<^verbatim>\<open>unicode/utf8\<close>, \<^verbatim>\<open>fmt\<close> and \<^verbatim>\<open>net\<close> on text.
  \<^item> \<open>Json\<close> and \<open>JsonDecode\<close>: \<^verbatim>\<open>encoding/json\<close>, writing and reading. Written values are read back
    (\<open>json_value_marshal\<close>).
  \<^item> \<open>Capture\<close>: \<^verbatim>\<open>capture/store.go\<close> and \<^verbatim>\<open>webhook.go\<close>. \<open>Store\<close> is the struct, \<open>Log\<close>, \<open>New\<close>,
    \<open>Close\<close>, \<open>NewWebhook\<close>, \<open>webhook_send\<close> its operations.
  \<^item> \<open>LogReader\<close>: the specification of the log as a list of events, and the abstraction function that
    reads the file back.
  \<^item> \<open>Net\<close>: a connection with real time, deadlines and a peer, which may stall; the loops and readers all
    protocols share, and the timing of a session.
  \<^item> \<open>Fingerprint\<close>: \<^verbatim>\<open>fingerprint.go\<close>, each generator a function of the bytes of the random source.
  \<^item> \<open>Progress\<close>: the two contracts of a step relation about coming to an end.
  \<^item> \<open>Server\<close>: \<^verbatim>\<open>server.go\<close>; \<open>Serve_start\<close> is \<^verbatim>\<open>Serve\<close> up to its loop, \<open>server_step\<close> the loop with its
    connection goroutines and a caller of \<^verbatim>\<open>Stop\<close> as a step relation, one rule per atomic action. The handler is
    a parameter of \<^verbatim>\<open>server.go\<close>: there it may come back (\<open>handler_done\<close>) or block for good (\<open>handler_blocks\<close>).
  \<^item> \<open>Redis\<close>, \<open>Mysql\<close>, \<open>Postgres\<close>, \<open>Mongo\<close> (with \<open>Bson\<close>): the protocol packages. In each, a reader, the
    senders, \<open>..._step\<close> for the body of the handler's loop, \<open>..._loop\<close> and \<open>..._Handler\<close>.
  \<^item> \<open>RedisService\<close>: all connections of the Redis service on the counters and the store they share
    (\<open>redis_serve\<close>, one action per turn of a session's loop).
  \<^item> \<open>Sessions\<close> and \<open>RedisSession\<close>: what a whole session leaves in the log, for a client that sends its requests
    in time; the table \<open>redis_command_events\<close> specifies what each Redis command is logged as.
  \<^item> \<open>Http\<close>: \<^verbatim>\<open>proto/http/handler.go\<close>, with the request multiplexer, basic authentication and base64.
  \<^item> \<open>Config\<close> (with \<open>ConfigFile\<close>, its size-limited reader): \<^verbatim>\<open>config.go\<close>, strict decoding, \<open>validate\<close>,
    \<open>applyDefaults\<close>, \<open>Load\<close>.
  \<^item> \<open>Tacoma\<close>: \<^verbatim>\<open>main.go\<close> up to where it starts its services (\<open>main_setup\<close>).
  \<^item> \<open>Lifecycle\<close>: \<^verbatim>\<open>main.go\<close> from there until the process is gone. \<open>program\<close> holds the main goroutine, the
    signal goroutine, the services (a TCP service carries the state of its listener), the HTTP requests being
    served and the store; \<open>prog_act\<close> has one rule per atomic action of any of them. A goroutine can block there only
    if some client can make the handler of its service hang (\<open>can_hang\<close>).
  \<^item> \<open>Evidence\<close>: from the bytes of a login or a session on the wire to what a reader of the log gets.

  \<^bold>\<open>Interfaces.\<close> Each contract between parts is a locale, interpreted on the model's own definitions:
  \<open>line_log\<close> (what logging appends) and its extension \<open>decodable_log\<close> (what a reader gets back), both on
  the capture store; \<open>session_loop\<close> (a loop whose steps use up input) on the loop of each of the four
  database handlers and on PostgreSQL's start-up, and its extension \<open>capturing_loop\<close> (a loop that logs the events of
  each request) on that of Redis; \<open>framed_reader\<close> and \<open>bounded_reader\<close> (a reader that undoes
  an encoding) on the four message readers; \<open>protocol_handler\<close> (what the listener needs of a handler) on the
  four handlers; \<open>can_finish\<close> (the end can be reached) and \<open>must_finish\<close> (it is reached whatever happens), of
  which the second gives the first, on the listener and on the whole program.

  \<^bold>\<open>What is shown.\<close>
  \<^item> The whole program: what \<open>main\<close> starts survives every client (\<open>program_survives_clients\<close>), and it starts
    what the configuration says (\<open>main_starts_enabled_services\<close>), each service on its port, with its version and
    limits. Under every interleaving of its services,
    clients and signals it exits only when its services have ended, has by then in its log all that database
    sessions have logged, and is sure to exit once it is shutting down (\<open>program_keeps_captured_events\<close>,
    \<open>program_exits_in_order\<close>, \<open>program_shuts_down\<close>).
  \<^item> The purpose: a login on the wire, and for Redis the whole session, is read back from the log file.
  \<^item> The log: it refines a list of events (\<open>Log_refines_event_list\<close>); sanitisation keeps exactly the printable
    runes.
  \<^item> The listener: under every interleaving the limits hold, nothing leaks, it turns clients away only at a
    limit, and shutdown is inevitable unless a handler blocks for good. That no handler does, behind a timeout that
    fits 63 bits of nanoseconds, follows from the theorems about the handlers and makes the exit of the program
    inevitable; \<open>conn_timeout_wraps\<close> is about the timeouts that do not fit, and \<open>blocked_goroutine_holds_program\<close>
    shows what one blocked handler does.
  \<^item> Each protocol: the handler returns for every input, without a panic, within sixty seconds of the client's
    last byte or of the cancellation (a client that stalls: when the write deadline is over), and what it is there to capture is captured; readers undo encodings;
    replies are well formed. The shared counters of Redis are right under every interleaving.
  \<^item> HTTP: routing is a plain table, every request is answered, redirects do not loop, reflected paths are
    harmless, logins are captured.
  \<^item> Configuration: what loads is usable, a written configuration loads as itself, unknown options are
    refused, and no more than the first megabyte is read.
  \<^item> Fingerprints have the documented shape.
  Theorems whose text says that something is lost, exceeded, early or wraps record defects or claims of the
  documentation that the code does not meet.

  \<^bold>\<open>Conventions and bounds.\<close> \<^const>\<open>None\<close> is a panic and ordinary errors are values of \<^typ>\<open>goerr\<close> on the left
  of a sum, except in parsers of \<open>JsonDecode\<close>, \<open>Config\<close> and \<open>Http\<close>, which have no panics and use
  \<^const>\<open>None\<close> for a refusal. There is no fuel: every loop is a terminating function, by the input it uses up
  or by its position. \<^verbatim>\<open>int\<close> has 64 bits, so lengths and positions do not overflow and are natural numbers;
  counters, sequence numbers and protocol fields that can wrap are words of their width. Computation takes no
  time; only waiting for input does. Parameters stand for what the sources do not determine: the Unicode case
  tables beyond ASCII, the order in which Go visits a map, the bytes of the random source, the peer's bytes
  with their arrival times, disk space, the outcomes of opening files and of the network. The JSON escapes and
  the multiplexer are those of Go 1.21, the version named in \<^verbatim>\<open>go.mod\<close>. Hypotheses on the random source
  (\<open>mysql_supplied\<close>, \<open>pg_supplied\<close>) say that it delivers the bytes a handler draws; \<^verbatim>\<open>crypto/rand\<close>
  otherwise makes the program panic on purpose.

  A session is a function of its connection and the store; that it shares the store with others is in
  \<open>Lifecycle\<close>, where the calls of \<^verbatim>\<open>Log\<close> of all sessions and requests interleave (each is atomic by the
  store's mutex, and by the theorems about the handlers, logging is all a session does to the store), and in
  \<open>RedisService\<close>. The bounds on runs are measures of the state: \<open>work_left\<close> counts at most five actions for each
  connection goroutine, \<open>prog_left\<close> and \<open>ending_left\<close> add the services and the positions of \<^verbatim>\<open>main\<close>.

  \<^bold>\<open>Not modelled.\<close> The body of \<^verbatim>\<open>net/http\<close>'s server (connection handling, header parsing, timeouts, the text of
  redirects) and of TLS: third-party to this repository; the handlers start from a parsed request, and its
  listener enters with what it documents. Flag parsing: the file it names is an argument. Delivery of a webhook
  body over the network: its outcome is a parameter of \<open>webhook_send\<close>. Lines the program prints while it
  serves (accept errors, failed writes of the log beyond their kind). Conversions whose result the language
  leaves open: a \<^verbatim>\<open>float64\<close> that is no 32-bit integer, in the BSON encoder, where no document has one.
\<close>

section \<open>The program as it is started\<close>

text \<open>C1. No client can take the running program down or keep a goroutine. Once \<^verbatim>\<open>main\<close> is running, and when the
  configured connection timeout fits 63 bits of nanoseconds, every service it has started comes through every session
  and every request. A database session returns without a panic, keeps what was logged and sent before, and does
  nothing to the log but add events that can be read back. It is gone within sixty seconds of the client's last byte
  or of the cancellation of the context, whichever is first; only a client that does not take what it is sent can
  hold it longer, until the configured timeout is over, counted from when the connection was accepted. An HTTP request
  is answered.\<close>

theorem program_survives_clients:
  assumes "main_setup f open_log disk t0 t1 ent = Some (Running store fp ls lines)" "Load f = Inr cfg"
    and "ConnectionTimeoutSecs cfg * int second < 2 ^ 63"
  shows "list_all (listener_safe fp (ConnectionTimeoutSecs cfg * int second)) ls"
proof -
  have "FP_wf fp" "ls = main_listeners cfg"
    using main_setup_cases [OF assms(2), of open_log disk t0 t1 ent] assms(1) by fastforce+
  then show ?thesis using main_listeners_safe [OF assms(2,3)] by simp
qed

theorem program_survives_clients_witness:
  "\<exists>store fp lines l addr sv. main_setup (Inr (json_marshal (config_json sample_cfg))) (\<lambda>_. Inr []) None 0 0 (replicate 129 NUL)
      = Some (Running store fp [l] lines)
    \<and> l = MongoDBListener addr sv ''7.0.8'' \<and> listener_safe fp (30 * int second) l"
proof -
  obtain store fp lines addr where m: "main_setup (Inr (json_marshal (config_json sample_cfg))) (\<lambda>_. Inr []) None 0 0 (replicate 129 NUL)
      = Some (Running store fp [MongoDBListener addr (tcp_server (applyDefaults sample_cfg)) ''7.0.8''] lines)"
    using sample_launch by blast
  have "ConnectionTimeoutSecs (applyDefaults sample_cfg) * int second < 2 ^ 63" by (simp add: sample_defaults second_def)
  from program_survives_clients [OF m sample_load this] m show ?thesis by (auto simp: sample_defaults)
qed

section \<open>The handlers behind the listener\<close>

text \<open>No client of the four database protocols can take the process down or keep a goroutine: served
  by the listener, with any connection timeout, each handler returns without a panic, keeps what was
  logged and sent before, and is gone within sixty seconds of the client's last byte or of the cancellation of
  the context, provided the write deadline of a client that stalls is over by then too.\<close>

theorem served_sessions_end:
  assumes "mysql_supplied w" "pg_supplied w" "FP_wf fp" "settled T (with_deadline timeout w)" "settled T (with_deadline timeout rw)"
  shows "(\<exists>w'. serve_conn timeout (mysql_Handler v1) w = Some w' \<and> log_extends (wstore w) (wstore w')
        \<and> prefix (out (wconn w)) (out (wconn w')) \<and> now w' \<le> T + 60 * second \<and> \<not> hung (wconn w'))
    \<and> (\<exists>w'. serve_conn timeout (pg_Handler order v2) w = Some w' \<and> log_extends (wstore w) (wstore w')
        \<and> prefix (out (wconn w)) (out (wconn w')) \<and> now w' \<le> T + 60 * second \<and> \<not> hung (wconn w'))
    \<and> (\<exists>w'. serve_conn timeout (redis_Handler U fp v3) rw = Some w' \<and> log_extends (wstore rw) (wstore w')
        \<and> prefix (out (wconn rw)) (out (wconn w')) \<and> now w' \<le> T + 60 * second \<and> \<not> hung (wconn w'))
    \<and> (\<exists>w'. serve_conn timeout (mongo_Handler U visit fp v4) w = Some w' \<and> log_extends (wstore w) (wstore w')
        \<and> prefix (out (wconn w)) (out (wconn w')) \<and> now w' \<le> T + 60 * second \<and> \<not> hung (wconn w'))"
  using mysql_handler.served [OF assms(1,4)] pg_handler.served [OF assms(2,4)] redis_handler.served [OF assms(3,5)]
    mongo_handler.served [OF TrueI assms(4)]
  by blast

theorem served_sessions_end_witness:
  "\<exists>w'. serve_conn (30 * int second) (pg_Handler id ''14.9'') (quiet_world (replicate 30 CHR 0x01) ssl_bytes) = Some w'
     \<and> now w' \<le> 60 * second"
proof -
  let ?w = "quiet_world (replicate 30 CHR 0x01) ssl_bytes"
  obtain fp where fp: "FP_wf fp" using FP_wf_exists by blast
  have m: "mysql_supplied ?w" using mysql_supplied_ones [of 27 ssl_bytes] by simp
  have "PGPID (CHR 0x01 # CHR 0x01 # e) = Some (2257, e)" for e
    by (simp add: PGPID_def randIntRange_def rand_Int_def BitLen.simps Let_def rand_Int_loop.simps candidate_def be_nat_def)
  moreover have "replicate 26 CHR 0x01 = CHR 0x01 # CHR 0x01 # replicate 24 CHR 0x01" by (simp add: numeral_eq_Suc)
  ultimately have p: "pg_supplied ?w"
    by (simp add: pg_supplied_def quiet_world_def PGSalt_def RandUint32_def mustRead_def le_uint32_def)
  have s: "settled 0 (with_deadline (30 * int second) ?w)" "settled 0 (with_deadline (30 * int second) (quiet_redis []))"
    by (rule settled_with_deadline, simp, simp add: quiet_world_def quiet_conn_def)+
  from served_sessions_end [OF m p fp s, of _ id "''14.9''", THEN conjunct2, THEN conjunct1]
  show ?thesis unfolding add_0 by blast
qed

end
